(* ===== verification/Sponge_Prelude.thy ===== *)
theory Sponge_Prelude
  imports Main "HOL-Library.Word"
begin

text \<open>
  Shared vocabulary of the development: the machine types of the C++ sources, unsigned 64-bit
  arithmetic with its wrap-around written out, exceptions as values, the parts of
  \<^verbatim>\<open>std::string\<close> the sources call, and the generic lemmas on lists and runs that the component
  theories use.

  \<^item> A byte is an \<^typ>\<open>8 word\<close>, a \<^verbatim>\<open>std::string\<close> of payload is a list of bytes.
  \<^item> The header fields of 8, 16 and 32 bits are words of that length.
  \<^item> \<^verbatim>\<open>size_t\<close> and \<^verbatim>\<open>uint64_t\<close> are natural numbers below \<open>2 ^ 64\<close>; every addition and subtraction
    of the sources is \<open>add64\<close> or \<open>sub64\<close>, which wrap exactly as the C++ operators do. The two
    conditional simplification rules below remove the wrap-around where it cannot happen.
  \<^item> A function that may throw returns \<^typ>\<open>'e + 'a\<close>, with the exception on the left.
\<close>

named_theorems u64_simps \<open>unsigned 64-bit arithmetic without overflow\<close>
named_theorems res_simps \<open>evaluation of exception-valued computations\<close>

section \<open>Machine types\<close>

type_synonym byte = "8 word"
type_synonym u8 = "8 word"
type_synonym u16 = "16 word"
type_synonym u32 = "32 word"
type_synonym u64 = nat

definition add64 :: "u64 \<Rightarrow> u64 \<Rightarrow> u64" where
  "add64 a b = (a + b) mod 2 ^ 64"

definition sub64 :: "u64 \<Rightarrow> u64 \<Rightarrow> u64" where
  "sub64 a b = (a + (2 ^ 64 - b)) mod 2 ^ 64"

definition mul64 :: "u64 \<Rightarrow> u64 \<Rightarrow> u64" where
  "mul64 a b = (a * b) mod 2 ^ 64"

lemma add64_bound: "add64 a b < 2 ^ 64"
  by (simp add: add64_def)

lemma sub64_bound: "sub64 a b < 2 ^ 64"
  by (simp add: sub64_def)

lemma mul64_bound: "mul64 a b < 2 ^ 64"
  by (simp add: mul64_def)

text \<open>The simplifier evaluates \<open>2 ^ 64\<close> first, so the bounds are declared in that form.\<close>

lemmas u64_bounds [simp] = add64_bound [simplified] sub64_bound [simplified] mul64_bound [simplified]

lemma add64_exact [u64_simps]: "a + b < 2 ^ 64 \<Longrightarrow> add64 a b = a + b"
  by (simp add: add64_def)

lemma sub64_exact [u64_simps]: "b \<le> a \<Longrightarrow> a < 2 ^ 64 \<Longrightarrow> sub64 a b = a - b"
proof -
  assume "b \<le> a" and "a < 2 ^ 64"
  then have "a + (2 ^ 64 - b) = (a - b) + 2 ^ 64" by simp
  then have "sub64 a b = ((a - b) + 2 ^ 64) mod 2 ^ 64" by (simp only: sub64_def)
  also have "\<dots> = a - b" using \<open>a < 2 ^ 64\<close> by simp
  finally show ?thesis .
qed

lemma mul64_exact [u64_simps]: "a * b < 2 ^ 64 \<Longrightarrow> mul64 a b = a * b"
  by (simp add: mul64_def)

lemma add64_0 [simp]: "a < 2 ^ 64 \<Longrightarrow> add64 a 0 = a" "b < 2 ^ 64 \<Longrightarrow> add64 0 b = b"
  by (simp_all add: add64_def)

lemma sub64_0 [simp]: "a < 2 ^ 64 \<Longrightarrow> sub64 a 0 = a"
  by (simp add: sub64_def)

lemma sub64_self [simp]: "a < 2 ^ 64 \<Longrightarrow> sub64 a a = 0"
  by (simp add: sub64_exact)

lemma add64_assoc: "add64 (add64 a b) c = add64 a (b + c)"
  by (simp add: add64_def mod_simps add.assoc)

lemma add64_add_right: "add64 a (add64 b c) = add64 a (b + c)"
  by (simp add: add64_def mod_simps)

section \<open>Exceptions\<close>

datatype exn =
    Out_of_range          \<comment> \<open>\<^verbatim>\<open>std::out_of_range\<close>\<close>
  | Runtime_error string  \<comment> \<open>\<^verbatim>\<open>std::runtime_error\<close> with its message\<close>
  | Tagged_error string int  \<comment> \<open>\<^verbatim>\<open>tagged_error\<close> of \<^verbatim>\<open>util.hh\<close>: what was attempted and the error code\<close>

type_synonym 'a res = "exn + 'a"

definition bind_res :: "'a res \<Rightarrow> ('a \<Rightarrow> 'b res) \<Rightarrow> 'b res" where
  "bind_res r f = (case r of Inl e \<Rightarrow> Inl e | Inr x \<Rightarrow> f x)"

lemma bind_res_simps [simp, res_simps]:
  "bind_res (Inl e) f = Inl e"
  "bind_res (Inr x) f = f x"
  by (simp_all add: bind_res_def)

lemma bind_res_Inr_iff: "bind_res r f = Inr y \<longleftrightarrow> (\<exists>x. r = Inr x \<and> f x = Inr y)"
  by (cases r) simp_all

section \<open>The parts of std::string in use\<close>

text \<open>\<^verbatim>\<open>s.substr(pos, n)\<close> throws \<^verbatim>\<open>std::out_of_range\<close> when \<open>pos\<close> is beyond the end.\<close>

definition substr :: "byte list \<Rightarrow> u64 \<Rightarrow> u64 \<Rightarrow> byte list res" where
  "substr s pos n = (if length s < pos then Inl Out_of_range else Inr (take n (drop pos s)))"

text \<open>\<^verbatim>\<open>s.substr(pos)\<close>: up to the end of the string (\<^verbatim>\<open>npos\<close>).\<close>

definition substr_from :: "byte list \<Rightarrow> u64 \<Rightarrow> byte list res" where
  "substr_from s pos = (if length s < pos then Inl Out_of_range else Inr (drop pos s))"

lemma substr_ok [simp, res_simps]: "pos \<le> length s \<Longrightarrow> substr s pos n = Inr (take n (drop pos s))"
  by (simp add: substr_def)

lemma substr_from_ok [simp, res_simps]: "pos \<le> length s \<Longrightarrow> substr_from s pos = Inr (drop pos s)"
  by (simp add: substr_from_def)

section \<open>Runs of operations with input and output\<close>

text \<open>
  An operation on a component takes in some elements and gives some out. \<open>io_run\<close> runs a list of
  operations and collects both sides in order.
\<close>

primrec io_run :: "('s \<Rightarrow> 'op \<Rightarrow> 's \<times> 'a list \<times> 'a list) \<Rightarrow> 's \<Rightarrow> 'op list \<Rightarrow> 's \<times> 'a list \<times> 'a list"
where
  "io_run step s [] = (s, [], [])"
| "io_run step s (x # xs) =
     (let (s1, i1, o1) = step s x; (s2, i2, o2) = io_run step s1 xs in (s2, i1 @ i2, o1 @ o2))"

text \<open>
  The contract of a first-in first-out channel: each operation keeps the invariant and moves
  elements from its input through the contents to its output. A run of any length then does the
  same, which is the conservation law the users of a channel rely on.
\<close>

locale fifo_channel =
  fixes step :: "'s \<Rightarrow> 'op \<Rightarrow> 's \<times> 'a list \<times> 'a list"
    and contents :: "'s \<Rightarrow> 'a list"
    and invar :: "'s \<Rightarrow> bool"
  assumes step_invar: "invar s \<Longrightarrow> invar (fst (step s x))"
    and step_conserves:
      "invar s \<Longrightarrow>
       contents s @ fst (snd (step s x)) = snd (snd (step s x)) @ contents (fst (step s x))"
begin

lemma run_invar: "invar s \<Longrightarrow> invar (fst (io_run step s xs))"
proof (induction xs arbitrary: s)
  case Nil
  then show ?case by simp
next
  case (Cons x xs)
  from Cons.prems have "invar (fst (step s x))" by (rule step_invar)
  then have "invar (fst (io_run step (fst (step s x)) xs))" by (rule Cons.IH)
  then show ?case by (simp add: case_prod_beta Let_def)
qed

lemma run_conserves:
  "invar s \<Longrightarrow>
   contents s @ fst (snd (io_run step s xs)) =
   snd (snd (io_run step s xs)) @ contents (fst (io_run step s xs))"
proof (induction xs arbitrary: s)
  case Nil
  then show ?case by simp
next
  case (Cons x xs)
  let ?s = "fst (step s x)" and ?i = "fst (snd (step s x))" and ?o = "snd (snd (step s x))"
  have "contents ?s @ fst (snd (io_run step ?s xs)) =
      snd (snd (io_run step ?s xs)) @ contents (fst (io_run step ?s xs))"
    using Cons.prems by (intro Cons.IH step_invar)
  moreover have "contents s @ ?i = ?o @ contents ?s"
    using Cons.prems by (rule step_conserves)
  ultimately show ?case
    by (simp add: case_prod_beta Let_def flip: append_assoc) simp
qed

end

section \<open>Words\<close>

lemma unat_bounds: "unat (b :: u8) < 256" "unat (h :: u16) < 65536" "unat (w :: u32) < 4294967296"
  using unsigned_less [of b, where ?'a = nat] unsigned_less [of h, where ?'a = nat] unsigned_less [of w, where ?'a = nat]
  by simp_all

lemma unat_drop_bit_div: "unat (drop_bit n w) = unat w div 2 ^ n"
  by (metis unat_drop_bit_eq drop_bit_eq_div)

lemma unat_take_bit_mod: "unat (take_bit n w) = unat w mod 2 ^ n"
  by (metis unsigned_take_bit_eq take_bit_eq_mod)

lemma unat_ucast_mod: "unat (ucast (w :: 'a::len word) :: 'b::len word) = unat w mod 2 ^ LENGTH('b)"
  by (metis unsigned_ucast_eq take_bit_eq_mod)

section \<open>Lists\<close>

lemma take_drop_append_eq:
  "a \<le> b \<Longrightarrow> take a xs @ take (b - a) (drop a xs) = take b xs"
  by (metis le_add_diff_inverse take_add)

text \<open>The bytes \<open>d\<close> are those of the stream \<open>S\<close> from index \<open>i\<close> on.\<close>

definition agrees :: "byte list \<Rightarrow> nat \<Rightarrow> byte list \<Rightarrow> bool" where
  "agrees S i d \<longleftrightarrow> i + length d \<le> length S \<and> d = take (length d) (drop i S)"

lemma agrees_append:
  "agrees S i (a @ b) \<longleftrightarrow> agrees S i a \<and> agrees S (i + length a) b"
proof -
  have "take (length a + length b) (drop i S) =
      take (length a) (drop i S) @ take (length b) (drop (i + length a) S)"
    by (simp add: take_add add.commute)
  then show ?thesis
    by (auto simp: agrees_def append_eq_append_conv_if)
qed

lemma agrees_take: "agrees S i d \<Longrightarrow> agrees S i (take n d)"
  by (metis agrees_append append_take_drop_id)

lemma agrees_drop: "agrees S i d \<Longrightarrow> n \<le> length d \<Longrightarrow> agrees S (i + n) (drop n d)"
  using agrees_append [of S i "take n d" "drop n d"] by (simp add: min_absorb2)

lemma agrees_Nil [simp]: "agrees S i [] \<longleftrightarrow> i \<le> length S"
  by (simp add: agrees_def)

lemma agrees_bound: "agrees S i d \<Longrightarrow> i + length d \<le> length S"
  by (simp add: agrees_def)

end
