(* ===== verification/Byte_Stream.thy ===== *)
theory Byte_Stream
  imports Sponge_Prelude
begin

text \<open>
  \<^verbatim>\<open>libsponge/byte_stream.{hh,cc}\<close>: the flow-controlled in-memory byte stream. The record has the
  private members of \<^verbatim>\<open>class ByteStream\<close>; each method is one definition, and a method that both
  changes the stream and returns a value returns the pair.
\<close>

section \<open>Definitions\<close>

record byte_stream =
  bs_byte_stream :: "byte list"
  bs_capacity :: u64
  bs_byte_written_size :: u64
  bs_byte_read_size :: u64
  bs_input_end :: bool
  bs_error :: bool

definition ByteStream :: "u64 \<Rightarrow> byte_stream" where
  "ByteStream capacity =
     \<lparr>bs_byte_stream = [], bs_capacity = capacity, bs_byte_written_size = 0,
      bs_byte_read_size = 0, bs_input_end = False, bs_error = False\<rparr>"

definition input_ended :: "byte_stream \<Rightarrow> bool" where
  "input_ended s = bs_input_end s"

definition buffer_size :: "byte_stream \<Rightarrow> u64" where
  "buffer_size s = length (bs_byte_stream s)"

definition buffer_empty :: "byte_stream \<Rightarrow> bool" where
  "buffer_empty s \<longleftrightarrow> bs_byte_stream s = []"

definition bs_eof :: "byte_stream \<Rightarrow> bool" where
  "bs_eof s \<longleftrightarrow> bs_input_end s \<and> buffer_empty s"

definition bytes_written :: "byte_stream \<Rightarrow> u64" where
  "bytes_written s = bs_byte_written_size s"

definition bytes_read :: "byte_stream \<Rightarrow> u64" where
  "bytes_read s = bs_byte_read_size s"

definition remaining_capacity :: "byte_stream \<Rightarrow> u64" where
  "remaining_capacity s = sub64 (bs_capacity s) (length (bs_byte_stream s))"

definition end_input :: "byte_stream \<Rightarrow> byte_stream" where
  "end_input s = s\<lparr>bs_input_end := True\<rparr>"

definition set_error :: "byte_stream \<Rightarrow> byte_stream" where
  "set_error s = s\<lparr>bs_error := True\<rparr>"

definition bs_write :: "byte_stream \<Rightarrow> byte list \<Rightarrow> byte_stream \<times> u64" where
  "bs_write s data =
     (if input_ended s then (s, 0)
      else
        let written_size = min (length data) (sub64 (bs_capacity s) (length (bs_byte_stream s)))
        in (s\<lparr>bs_byte_stream := bs_byte_stream s @ take written_size data,
              bs_byte_written_size := add64 (bs_byte_written_size s) written_size\<rparr>,
            written_size))"

definition peek_output :: "byte_stream \<Rightarrow> u64 \<Rightarrow> byte list" where
  "peek_output s len =
     (let read_size = min len (length (bs_byte_stream s)) in take read_size (bs_byte_stream s))"

definition pop_output :: "byte_stream \<Rightarrow> u64 \<Rightarrow> byte_stream" where
  "pop_output s len =
     (let read_size = min len (length (bs_byte_stream s))
      in s\<lparr>bs_byte_stream := drop read_size (bs_byte_stream s),
           bs_byte_read_size := add64 (bs_byte_read_size s) read_size\<rparr>)"

definition bs_read :: "byte_stream \<Rightarrow> u64 \<Rightarrow> byte_stream \<times> byte list" where
  "bs_read s len =
     (let read_output = peek_output s len
      in (pop_output s (length read_output), read_output))"

lemmas bs_observer_defs =
  input_ended_def buffer_size_def buffer_empty_def bs_eof_def bytes_written_def bytes_read_def

section \<open>Invariant\<close>

text \<open>
  The buffer never exceeds the capacity, the counters are 64-bit values, and they differ by the
  number of buffered bytes (modulo \<open>2 ^ 64\<close>, so that the law survives wrap-around of the counters).
\<close>

definition bs_inv :: "byte_stream \<Rightarrow> bool" where
  "bs_inv s \<longleftrightarrow>
     length (bs_byte_stream s) \<le> bs_capacity s \<and> bs_capacity s < 2 ^ 64 \<and>
     bs_byte_read_size s < 2 ^ 64 \<and>
     bs_byte_written_size s = add64 (bs_byte_read_size s) (length (bs_byte_stream s))"

lemma bs_inv_ByteStream [simp]: "capacity < 2 ^ 64 \<Longrightarrow> bs_inv (ByteStream capacity)"
  by (simp add: bs_inv_def ByteStream_def add64_def)

lemma remaining_capacity_eq:
  "bs_inv s \<Longrightarrow> remaining_capacity s = bs_capacity s - length (bs_byte_stream s)"
  by (simp add: remaining_capacity_def bs_inv_def u64_simps)

lemma bs_write_count:
  "bs_inv s \<Longrightarrow>
   snd (bs_write s data) = (if input_ended s then 0 else min (length data) (remaining_capacity s))"
  by (simp add: bs_write_def remaining_capacity_def Let_def)

lemma bs_write_stream:
  "bs_byte_stream (fst (bs_write s data)) = bs_byte_stream s @ take (snd (bs_write s data)) data"
  by (simp add: bs_write_def Let_def)

lemma bs_write_inv: "bs_inv s \<Longrightarrow> bs_inv (fst (bs_write s data))"
  by (auto simp: bs_inv_def bs_write_def Let_def sub64_exact add64_assoc min.commute)

lemma pop_output_inv:
  assumes "bs_inv s"
  shows "bs_inv (pop_output s len)"
proof -
  let ?b = "bs_byte_stream s" and ?n = "min len (length (bs_byte_stream s))"
  have "add64 (bs_byte_read_size s) (length ?b) = add64 (add64 (bs_byte_read_size s) ?n) (length ?b - ?n)"
    by (simp add: add64_assoc)
  with assms show ?thesis by (auto simp: bs_inv_def pop_output_def Let_def)
qed

lemma peek_output_eq: "peek_output s len = take len (bs_byte_stream s)"
  by (simp add: peek_output_def min_def)

lemma pop_output_stream: "bs_byte_stream (pop_output s len) = drop len (bs_byte_stream s)"
  by (simp add: pop_output_def Let_def min_def)

lemma pop_output_count:
  "bs_byte_read_size (pop_output s len) = add64 (bs_byte_read_size s) (min len (length (bs_byte_stream s)))"
  by (simp add: pop_output_def Let_def)

lemma bs_read_eq: "bs_read s len = (pop_output s len, take len (bs_byte_stream s))"
  by (simp add: bs_read_def peek_output_eq Let_def pop_output_def min_def)

lemma bs_read_inv: "bs_inv s \<Longrightarrow> bs_inv (fst (bs_read s len))"
  by (simp add: bs_read_eq pop_output_inv)

lemma end_input_inv [simp]: "bs_inv (end_input s) = bs_inv s"
  by (simp add: bs_inv_def end_input_def)

lemma set_error_inv [simp]: "bs_inv (set_error s) = bs_inv s"
  by (simp add: bs_inv_def set_error_def)

text \<open>What each operation leaves alone.\<close>

lemma bs_write_frame [simp]:
  "bs_capacity (fst (bs_write s data)) = bs_capacity s"
  "bs_byte_read_size (fst (bs_write s data)) = bs_byte_read_size s"
  "bs_input_end (fst (bs_write s data)) = bs_input_end s"
  "bs_error (fst (bs_write s data)) = bs_error s"
  by (simp_all add: bs_write_def Let_def)

lemma pop_output_frame [simp]:
  "bs_capacity (pop_output s len) = bs_capacity s"
  "bs_byte_written_size (pop_output s len) = bs_byte_written_size s"
  "bs_input_end (pop_output s len) = bs_input_end s"
  "bs_error (pop_output s len) = bs_error s"
  by (simp_all add: pop_output_def Let_def)

lemma end_input_frame [simp]:
  "bs_byte_stream (end_input s) = bs_byte_stream s" "bs_capacity (end_input s) = bs_capacity s"
  "bs_byte_written_size (end_input s) = bs_byte_written_size s"
  "bs_byte_read_size (end_input s) = bs_byte_read_size s"
  "bs_error (end_input s) = bs_error s" "bs_input_end (end_input s)"
  by (simp_all add: end_input_def)

lemma set_error_frame [simp]:
  "bs_byte_stream (set_error s) = bs_byte_stream s" "bs_capacity (set_error s) = bs_capacity s"
  "bs_byte_written_size (set_error s) = bs_byte_written_size s"
  "bs_byte_read_size (set_error s) = bs_byte_read_size s"
  "bs_input_end (set_error s) = bs_input_end s" "bs_error (set_error s)"
  by (simp_all add: set_error_def)

section \<open>A byte stream as a window on a longer stream\<close>

text \<open>
  The byte stream holds the bytes of \<open>S\<close> from \<^verbatim>\<open>bytes_read\<close> up to \<^verbatim>\<open>bytes_written\<close>, and neither counter
  has wrapped.
\<close>

definition bs_at :: "byte list \<Rightarrow> byte_stream \<Rightarrow> bool" where
  "bs_at S out \<longleftrightarrow>
     bs_inv out \<and> bytes_read out + length (bs_byte_stream out) = bytes_written out \<and>
     agrees S (bytes_read out) (bs_byte_stream out)"

lemma bs_at_bound: "bs_at S out \<Longrightarrow> bytes_written out \<le> length S"
  using agrees_bound by (fastforce simp: bs_at_def)

lemma bs_at_write:
  assumes "bs_at S out" and "agrees S (bytes_written out) d" and "length S < 2 ^ 64"
  shows "bs_at S (fst (bs_write out d)) \<and>
    bytes_written (fst (bs_write out d)) = bytes_written out + snd (bs_write out d) \<and>
    snd (bs_write out d) \<le> length d"
proof -
  let ?n = "snd (bs_write out d)"
  have inv: "bs_inv out" and pos: "bytes_read out + length (bs_byte_stream out) = bytes_written out"
    using assms(1) by (simp_all add: bs_at_def)
  have n: "?n \<le> length d" by (simp add: bs_write_def Let_def)
  then have "bytes_written out + ?n < 2 ^ 64" using agrees_bound [OF assms(2)] assms(3) by simp
  then have w: "bytes_written (fst (bs_write out d)) = bytes_written out + ?n"
    by (auto simp: bs_write_def Let_def bytes_written_def add64_exact)
  have "agrees S (bytes_read out) (bs_byte_stream out @ take ?n d)"
    using assms(1) agrees_take [OF assms(2)] pos by (simp add: agrees_append bs_at_def)
  then show ?thesis
    using w n pos bs_write_inv [OF inv, of d] by (simp add: bs_at_def bs_write_stream bytes_read_def)
qed

lemma bs_at_pop:
  assumes "bs_at S out" and "length S < 2 ^ 64"
  shows "bs_at S (pop_output out n) \<and>
    bytes_read (pop_output out n) = bytes_read out + min n (length (bs_byte_stream out))"
proof -
  let ?b = "bs_byte_stream out" and ?k = "min n (length (bs_byte_stream out))"
  have "bytes_read out + length ?b \<le> length S" using bs_at_bound [OF assms(1)] assms(1) by (simp add: bs_at_def)
  then have r: "bytes_read (pop_output out n) = bytes_read out + ?k"
    using assms(2) by (simp add: bytes_read_def pop_output_count add64_exact)
  have "agrees S (bytes_read out + ?k) (drop ?k ?b)"
    using assms(1) by (intro agrees_drop) (simp_all add: bs_at_def)
  moreover have "drop ?k ?b = drop n ?b" by (simp add: min_def)
  ultimately show ?thesis
    using assms(1) r pop_output_inv [of out n] by (auto simp: bs_at_def pop_output_stream bytes_written_def)
qed

section \<open>Runs of operations\<close>

text \<open>
  The operations of the writer and of the reader, with the bytes each takes in from the writer and
  gives out to the reader. A peek gives nothing out: it does not consume the bytes.
\<close>

datatype bs_op = Write "byte list" | Peek u64 | Pop u64 | Read u64 | End_input | Set_error

fun bs_step :: "byte_stream \<Rightarrow> bs_op \<Rightarrow> byte_stream \<times> byte list \<times> byte list" where
  "bs_step s (Write data) = (let (s', n) = bs_write s data in (s', take n data, []))"
| "bs_step s (Peek len) = (s, [], [])"
| "bs_step s (Pop len) = (pop_output s len, [], peek_output s len)"
| "bs_step s (Read len) = (let (s', out) = bs_read s len in (s', [], out))"
| "bs_step s End_input = (end_input s, [], [])"
| "bs_step s Set_error = (set_error s, [], [])"

lemmas bs_run_simps = bs_write_inv pop_output_inv bs_read_inv

lemma bs_step_inv: "bs_inv s \<Longrightarrow> bs_inv (fst (bs_step s x))"
  by (cases x) (simp_all add: bs_run_simps case_prod_beta Let_def)

lemma bs_step_conserves:
  "bs_byte_stream s @ fst (snd (bs_step s x)) = snd (snd (bs_step s x)) @ bs_byte_stream (fst (bs_step s x))"
  by (cases x) (simp_all add: bs_write_stream pop_output_stream peek_output_eq bs_read_eq case_prod_beta Let_def)

interpretation bs: fifo_channel bs_step bs_byte_stream bs_inv
  by unfold_locales (simp_all add: bs_step_inv bs_step_conserves)

lemma bs_step_capacity: "bs_capacity (fst (bs_step s x)) = bs_capacity s"
  by (cases x) (simp_all add: bs_read_eq case_prod_beta Let_def)

lemma bs_run_capacity: "bs_capacity (fst (io_run bs_step s xs)) = bs_capacity s"
  by (induction xs arbitrary: s) (simp_all add: bs_step_capacity case_prod_beta Let_def)

text \<open>The counters count the bytes that went in and out.\<close>

lemma bs_step_counts:
  "bs_byte_written_size s < 2 ^ 64 \<Longrightarrow> bs_byte_read_size s < 2 ^ 64 \<Longrightarrow>
   bs_byte_written_size (fst (bs_step s x)) = add64 (bs_byte_written_size s) (length (fst (snd (bs_step s x)))) \<and>
   bs_byte_read_size (fst (bs_step s x)) = add64 (bs_byte_read_size s) (length (snd (snd (bs_step s x))))"
  by (cases x)
    (simp_all add: bs_read_eq pop_output_count peek_output_eq bs_write_def case_prod_beta Let_def min.commute)

lemma bs_run_counts:
  "bs_byte_written_size s < 2 ^ 64 \<Longrightarrow> bs_byte_read_size s < 2 ^ 64 \<Longrightarrow>
   bs_byte_written_size (fst (io_run bs_step s xs)) =
     add64 (bs_byte_written_size s) (length (fst (snd (io_run bs_step s xs)))) \<and>
   bs_byte_read_size (fst (io_run bs_step s xs)) =
     add64 (bs_byte_read_size s) (length (snd (snd (io_run bs_step s xs))))"
proof (induction xs arbitrary: s)
  case Nil
  then show ?case by simp
next
  case (Cons x xs)
  let ?s = "fst (bs_step s x)"
  have c: "bs_byte_written_size ?s = add64 (bs_byte_written_size s) (length (fst (snd (bs_step s x))))"
    "bs_byte_read_size ?s = add64 (bs_byte_read_size s) (length (snd (snd (bs_step s x))))"
    using bs_step_counts [OF Cons.prems, of x] by simp_all
  then have "bs_byte_written_size ?s < 2 ^ 64" "bs_byte_read_size ?s < 2 ^ 64"
    by (simp_all only: add64_bound)
  from Cons.IH [OF this] c show ?case
    by (simp add: case_prod_beta Let_def add64_assoc)
qed

section \<open>Properties\<close>

text \<open>
  C25. A byte stream is a bounded first-in first-out channel: after any sequence of writes, peeks,
  pops, reads, end-of-input and error calls on a new stream, the accepted bytes in order are the
  bytes given to the reader followed by the buffered ones, and the buffer is within the capacity.
\<close>

theorem bs_run_fifo:
  assumes "capacity < 2 ^ 64"
    and "io_run bs_step (ByteStream capacity) ops = (s, accepted, delivered)"
  shows "accepted = delivered @ bs_byte_stream s \<and> length (bs_byte_stream s) \<le> capacity \<and>
    remaining_capacity s = capacity - buffer_size s"
proof -
  have inv: "bs_inv (ByteStream capacity)" using assms(1) by simp
  have "bs_inv s" "bs_capacity s = capacity"
    using bs.run_invar [OF inv, of ops] bs_run_capacity [of "ByteStream capacity" ops] assms(2)
    by (simp_all add: ByteStream_def)
  moreover have "accepted = delivered @ bs_byte_stream s"
    using bs.run_conserves [OF inv, of ops] assms(2) by (simp add: ByteStream_def)
  ultimately show ?thesis
    by (simp add: remaining_capacity_eq buffer_size_def) (simp add: bs_inv_def)
qed

theorem bs_run_fifo_witness:
  "io_run bs_step (ByteStream 2) [Write [1, 2, 3], Read 1, Write [4, 5], Peek 9] =
     (\<lparr>bs_byte_stream = [2, 4], bs_capacity = 2, bs_byte_written_size = 3, bs_byte_read_size = 1,
       bs_input_end = False, bs_error = False\<rparr>, [1, 2, 4], [1]) \<and>
   [1, 2, 4] = [1] @ [2, 4 :: byte]"
proof -
  have run: "io_run bs_step (ByteStream 2) [Write [1, 2, 3], Read 1, Write [4, 5], Peek 9] =
     (\<lparr>bs_byte_stream = [2, 4], bs_capacity = 2, bs_byte_written_size = 3, bs_byte_read_size = 1,
       bs_input_end = False, bs_error = False\<rparr>, [1, 2, 4], [1])"
    by (simp add: ByteStream_def bs_write_def bs_read_eq pop_output_def input_ended_def u64_simps)
  have "[1, 2, 4] = [1] @ [2, 4 :: byte]"
    using bs_run_fifo [OF _ run] by simp
  with run show ?thesis by (rule conjI)
qed

text \<open>
  The accounting of a byte stream is exact: \<^verbatim>\<open>bytes_written\<close> is the number of accepted bytes,
  \<^verbatim>\<open>bytes_read\<close> the number of delivered ones (both modulo \<open>2 ^ 64\<close>), and the stream reports
  \<^verbatim>\<open>eof\<close> exactly when the input has ended and every accepted byte has been delivered.
\<close>

theorem bs_run_accounting:
  assumes "capacity < 2 ^ 64"
    and "io_run bs_step (ByteStream capacity) ops = (s, accepted, delivered)"
  shows "bytes_written s = length accepted mod 2 ^ 64 \<and> bytes_read s = length delivered mod 2 ^ 64 \<and>
    (bs_eof s \<longleftrightarrow> input_ended s \<and> accepted = delivered)"
proof -
  have "accepted = delivered @ bs_byte_stream s"
    using bs.run_conserves [of "ByteStream capacity" ops] assms by (simp add: ByteStream_def bs_inv_def)
  moreover have "bytes_written s = length accepted mod 2 ^ 64" "bytes_read s = length delivered mod 2 ^ 64"
    using bs_run_counts [of "ByteStream capacity" ops] assms(2)
    by (simp_all add: ByteStream_def bytes_written_def bytes_read_def add64_def)
  ultimately show ?thesis by (simp add: bs_eof_def buffer_empty_def input_ended_def)
qed

theorem bs_run_accounting_witness:
  "\<exists>s. io_run bs_step (ByteStream 1) [Write [7], Pop 3, End_input] = (s, [7], [7]) \<and>
   bytes_written s = 1 \<and> bs_eof s"
proof -
  define s where "s = \<lparr>bs_byte_stream = [], bs_capacity = 1, bs_byte_written_size = 1,
    bs_byte_read_size = 1, bs_input_end = True, bs_error = False\<rparr>"
  have run: "io_run bs_step (ByteStream 1) [Write [7], Pop 3, End_input] = (s, [7], [7])"
    by (simp add: s_def ByteStream_def bs_write_def pop_output_def peek_output_def input_ended_def
        end_input_def u64_simps)
  have "bytes_written s = 1 \<and> bs_eof s"
    using bs_run_accounting [OF _ run] by (simp add: s_def input_ended_def)
  with run show ?thesis by (intro exI [of _ s] conjI) auto
qed

text \<open>
  After \<^verbatim>\<open>end_input\<close> a write is refused: it returns 0 and changes nothing. Before it, a write
  accepts as many bytes as fit and appends exactly that prefix.
\<close>

theorem bs_write_behaviour:
  assumes "bs_inv s"
  shows "bs_write s data =
    (if input_ended s then (s, 0)
     else let n = min (length data) (bs_capacity s - buffer_size s)
       in (s\<lparr>bs_byte_stream := bs_byte_stream s @ take n data,
             bs_byte_written_size := add64 (bytes_written s) n\<rparr>, n))"
  using assms by (simp add: bs_write_def bs_inv_def bs_observer_defs Let_def u64_simps)

theorem bs_write_behaviour_witness:
  "snd (bs_write (end_input (ByteStream 4)) [1]) = 0 \<and> snd (bs_write (ByteStream 4) [1, 2]) = 2"
  using bs_write_behaviour [of "end_input (ByteStream 4)" "[1]", simplified]
    bs_write_behaviour [of "ByteStream 4" "[1, 2]", simplified]
  by (simp add: ByteStream_def bs_observer_defs Let_def)

end
