(* ===== verification/Stream_Reassembler.thy ===== *)
theory Stream_Reassembler
  imports Byte_Stream
begin

text \<open>
  \<^verbatim>\<open>libsponge/stream_reassembler.{hh,cc}\<close>: substrings of a byte stream, possibly out of order and
  overlapping, are assembled into an in-order \<^verbatim>\<open>ByteStream\<close>. The member \<^verbatim>\<open>_unassembled_bytes\<close>, a
  \<^verbatim>\<open>std::map\<close> from stream index to string, is an association list in ascending key order; the loops
  over its iterators are recursions over that list.
\<close>

section \<open>Definitions\<close>

type_synonym segments = "(u64 \<times> byte list) list"

record stream_reassembler =
  sr_output :: byte_stream
  sr_capacity :: u64
  sr_unassembled_bytes :: segments
  sr_unassembled_cnt :: u64
  sr_unassembled_index :: u64
  sr_unaccepted_index :: u64
  sr_eof_index :: u64

definition StreamReassembler :: "u64 \<Rightarrow> stream_reassembler" where
  "StreamReassembler capacity =
     \<lparr>sr_output = ByteStream capacity, sr_capacity = capacity, sr_unassembled_bytes = [],
      sr_unassembled_cnt = 0, sr_unassembled_index = 0, sr_unaccepted_index = 0,
      sr_eof_index = 2 ^ 64 - 1\<rparr>"

definition unassembled_bytes :: "stream_reassembler \<Rightarrow> u64" where
  "unassembled_bytes r = sr_unassembled_cnt r"

definition sr_empty :: "stream_reassembler \<Rightarrow> bool" where
  "sr_empty r \<longleftrightarrow> sr_unassembled_bytes r = []"

text \<open>\<^verbatim>\<open>std::map::insert\<close>: an existing key keeps its old value.\<close>

fun map_insert :: "u64 \<Rightarrow> byte list \<Rightarrow> segments \<Rightarrow> segments" where
  "map_insert k v [] = [(k, v)]"
| "map_insert k v ((a, b) # m) =
     (if k < a then (k, v) # (a, b) # m
      else if k = a then (a, b) # m
      else (a, b) # map_insert k v m)"

text \<open>
  The \<^verbatim>\<open>while\<close> loop of \<^verbatim>\<open>merge_string\<close>. The arguments are the constants \<open>st\<close> and \<open>ed\<close>, the part of the
  map from the iterator on, and the variables \<open>data\<close>, \<open>index\<close> and \<^verbatim>\<open>_unassembled_cnt\<close>; an entry that
  the iterator steps over is kept in front of the rest.
\<close>

definition keep_entry ::
  "u64 \<times> byte list \<Rightarrow> (segments \<times> byte list \<times> u64 \<times> u64) res \<Rightarrow> (segments \<times> byte list \<times> u64 \<times> u64) res"
where
  "keep_entry e r = bind_res r (\<lambda>(m, data, index, cnt). Inr (e # m, data, index, cnt))"

fun merge_loop ::
  "u64 \<Rightarrow> u64 \<Rightarrow> segments \<Rightarrow> byte list \<Rightarrow> u64 \<Rightarrow> u64 \<Rightarrow> (segments \<times> byte list \<times> u64 \<times> u64) res"
where
  "merge_loop st ed [] data index cnt = Inr ([], data, index, cnt)"
| "merge_loop st ed ((map_st, sub_str) # m) data index cnt =
     (if add64 index (length data) \<le> map_st then Inr ((map_st, sub_str) # m, data, index, cnt)
      else
        let map_ed = add64 map_st (length sub_str) in
        if st < map_ed \<and> map_st < ed then
          if st \<le> map_st \<and> map_ed \<le> ed then
            merge_loop st ed m data index (sub64 cnt (length sub_str))
          else if map_st \<le> st \<and> ed \<le> map_ed then
            keep_entry (map_st, sub_str) (merge_loop st ed m [] index cnt)
          else if st \<le> map_st then
            bind_res (substr sub_str (sub64 ed map_st) (sub64 map_ed ed))
              (\<lambda>tail. merge_loop st ed m (data @ tail) index (sub64 cnt (length sub_str)))
          else
            bind_res (substr sub_str 0 (sub64 st map_st))
              (\<lambda>front. merge_loop st ed m (front @ data) map_st (sub64 cnt (length sub_str)))
        else keep_entry (map_st, sub_str) (merge_loop st ed m data index cnt))"

definition merge_string :: "stream_reassembler \<Rightarrow> byte list \<Rightarrow> u64 \<Rightarrow> stream_reassembler res" where
  "merge_string r data index =
     bind_res
       (merge_loop index (add64 index (length data)) (sr_unassembled_bytes r) data index (sr_unassembled_cnt r))
       (\<lambda>(m, data, index, cnt).
          let r = r\<lparr>sr_unassembled_bytes := m, sr_unassembled_cnt := cnt\<rparr> in
          if data \<noteq> [] then
            let unaccepted = add64 (bytes_read (sr_output r)) (sr_capacity r);
                bound_index = min (add64 index (length data)) unaccepted;
                insert_size = min (sub64 bound_index index)
                  (sub64 (sub64 (sr_capacity r) (buffer_size (sr_output r))) (unassembled_bytes r))
            in bind_res (substr data 0 insert_size)
                 (\<lambda>str. Inr (r\<lparr>sr_unaccepted_index := unaccepted,
                               sr_unassembled_cnt := add64 cnt insert_size,
                               sr_unassembled_bytes := map_insert index str m\<rparr>))
          else Inr r)"

text \<open>The \<^verbatim>\<open>while\<close> loop of \<^verbatim>\<open>push_substring\<close> over the beginning of the map.\<close>

fun assemble_loop ::
  "byte_stream \<Rightarrow> u64 \<Rightarrow> u64 \<Rightarrow> segments \<Rightarrow> (byte_stream \<times> u64 \<times> u64 \<times> segments) res"
where
  "assemble_loop out idx cnt [] = Inr (out, idx, cnt, [])"
| "assemble_loop out idx cnt ((map_index, map_str) # m) =
     (if map_index \<le> idx then
        if idx < add64 map_index (length map_str) then
          bind_res (substr_from map_str (sub64 idx map_index))
            (\<lambda>str. let (out', written_size) = bs_write out str
                    in assemble_loop out' (add64 idx written_size) (sub64 cnt (length map_str)) m)
        else assemble_loop out idx (sub64 cnt (length map_str)) m
      else Inr (out, idx, cnt, (map_index, map_str) # m))"

text \<open>The branch of \<^verbatim>\<open>push_substring\<close> for \<^verbatim>\<open>index <= _unassembled_index\<close>.\<close>

definition push_in_order :: "stream_reassembler \<Rightarrow> byte list \<Rightarrow> u64 \<Rightarrow> stream_reassembler res" where
  "push_in_order r data index =
     (let bound_index = min (add64 index (length data)) (sr_unaccepted_index r);
          room = sub64 (sub64 (sr_capacity r) (buffer_size (sr_output r))) (unassembled_bytes r)
      in bind_res
           (substr data (sub64 (sr_unassembled_index r) index)
              (min (sub64 bound_index (sr_unassembled_index r)) room))
           (\<lambda>write_data.
              let (out, written_size) = bs_write (sr_output r) write_data
              in bind_res
                   (assemble_loop out (add64 (sr_unassembled_index r) written_size)
                      (sr_unassembled_cnt r) (sr_unassembled_bytes r))
                   (\<lambda>(out, idx, cnt, m).
                      Inr (r\<lparr>sr_output := out, sr_unassembled_index := idx,
                             sr_unassembled_cnt := cnt, sr_unassembled_bytes := m\<rparr>))))"

definition end_at_eof :: "stream_reassembler \<Rightarrow> stream_reassembler" where
  "end_at_eof r =
     (if sr_eof_index r \<le> sr_unassembled_index r then r\<lparr>sr_output := end_input (sr_output r)\<rparr> else r)"

definition push_substring ::
  "stream_reassembler \<Rightarrow> byte list \<Rightarrow> u64 \<Rightarrow> bool \<Rightarrow> stream_reassembler res"
where
  "push_substring r data index eof =
     (let r = (if eof then r\<lparr>sr_eof_index := add64 index (length data)\<rparr> else r) in
      if sr_eof_index r \<le> sr_unassembled_index r then Inr (r\<lparr>sr_output := end_input (sr_output r)\<rparr>)
      else
        let r = r\<lparr>sr_unaccepted_index := add64 (bytes_read (sr_output r)) (sr_capacity r)\<rparr> in
        if add64 index (length data) < sr_unassembled_index r \<or> sr_unaccepted_index r < index then Inr r
        else
          bind_res
            (if sr_unassembled_index r < index then merge_string r data index
             else push_in_order r data index)
            (\<lambda>r. Inr (end_at_eof r)))"

section \<open>Segments\<close>

text \<open>
  The stored substrings are in ascending order of their index and do not overlap. The lower bound
  \<open>lo\<close> is the first index at which a segment may start; an empty segment may sit where the next one
  starts only if the keys differ, as in a map.
\<close>

fun segs :: "nat \<Rightarrow> segments \<Rightarrow> bool" where
  "segs lo [] = True"
| "segs lo ((k, s) # m) \<longleftrightarrow> lo \<le> k \<and> segs (if s = [] then Suc k else k + length s) m"

definition cover :: "segments \<Rightarrow> nat set" where
  "cover m = (\<Union>(k, s) \<in> set m. {k ..< k + length s})"

definition total_len :: "segments \<Rightarrow> nat" where
  "total_len m = (\<Sum>(k, s) \<leftarrow> m. length s)"

lemma cover_simps [simp]:
  "cover [] = {}" "cover ((k, s) # m) = {k ..< k + length s} \<union> cover m"
  "cover (m1 @ m2) = cover m1 \<union> cover m2"
  by (auto simp: cover_def)

lemma total_len_simps [simp]:
  "total_len [] = 0" "total_len ((k, s) # m) = length s + total_len m" "total_len (m1 @ m2) = total_len m1 + total_len m2"
  by (simp_all add: total_len_def)

lemma segs_mono: "segs lo m \<Longrightarrow> lo' \<le> lo \<Longrightarrow> segs lo' m"
  by (cases m) auto

lemma segs_Cons_lower: "segs lo ((k, s) # m) \<Longrightarrow> segs (k + length s) m"
  by (auto elim: segs_mono split: if_splits)

lemma segs_keys: "segs lo m \<Longrightarrow> (k, s) \<in> set m \<Longrightarrow> lo \<le> k"
proof (induction m arbitrary: lo)
  case Nil
  then show ?case by simp
next
  case (Cons e m)
  then show ?case by (cases e) (fastforce split: if_splits)
qed

lemma segs_cover: "segs lo m \<Longrightarrow> i \<in> cover m \<Longrightarrow> lo \<le> i"
  using segs_keys by (fastforce simp: cover_def)

lemma finite_cover [simp]: "finite (cover m)"
  by (auto simp: cover_def)

text \<open>Disjointness: the covered positions are counted once each.\<close>

lemma segs_card_cover: "segs lo m \<Longrightarrow> card (cover m) = total_len m"
proof (induction m arbitrary: lo)
  case Nil
  then show ?case by simp
next
  case (Cons e m)
  obtain k s where e: "e = (k, s)" by force
  have m: "segs (k + length s) m" using Cons.prems e segs_Cons_lower by blast
  then have "{k ..< k + length s} \<inter> cover m = {}" using segs_cover by fastforce
  then show ?case using Cons.IH [OF m] e by (simp add: card_Un_disjoint)
qed

section \<open>Agreement with a stream\<close>

definition agree_all :: "byte list \<Rightarrow> segments \<Rightarrow> bool" where
  "agree_all S m \<longleftrightarrow> (\<forall>(k, s) \<in> set m. agrees S k s)"

lemma agree_all_simps [simp]:
  "agree_all S []" "agree_all S ((k, s) # m) \<longleftrightarrow> agrees S k s \<and> agree_all S m"
  "agree_all S (m1 @ m2) \<longleftrightarrow> agree_all S m1 \<and> agree_all S m2"
  by (auto simp: agree_all_def)

section \<open>The merge loop\<close>

lemma merge_loop_break:
  "segs lo m \<Longrightarrow> add64 index (length data) \<le> lo \<Longrightarrow>
   merge_loop st ed m data index cnt = Inr (m, data, index, cnt)"
  by (cases m) auto

lemma keep_entry_Inr [simp]: "keep_entry e (Inr (m, data, index, cnt)) = Inr (e # m, data, index, cnt)"
  by (simp add: keep_entry_def)

text \<open>
  After the data has been joined with an entry to its left, or has swallowed one, every remaining
  entry starts to the right of \<open>st\<close>: entries inside the data are dropped and at most one entry
  extends it at its end.
\<close>

lemma merge_loop_right:
  assumes "segs lo m" and "st < lo" and "index \<le> st" and "index + length data = ed" and "st < ed"
    and "agree_all S m" and "length S < 2 ^ 64" and "ed \<le> length S"
  shows "\<exists>m2 sfx c'. merge_loop st ed m data index c = Inr (m2, data @ sfx, index, c') \<and>
    set m2 \<subseteq> set m \<and> segs (ed + length sfx) m2 \<and> agrees S ed sfx \<and>
    cover m2 \<union> {index ..< ed + length sfx} = cover m \<union> {index ..< ed} \<and>
    (total_len m \<le> c \<longrightarrow> c < 2 ^ 64 \<longrightarrow> c' + total_len m = c + total_len m2)"
  using assms(1,2,6)
proof (induction m arbitrary: lo c)
  case Nil
  then show ?case using assms by simp
next
  case (Cons e m)
  obtain k s where e: "e = (k, s)" by force
  have k: "st < k" and m: "segs (k + length s) m" and agr: "agrees S k s" "agree_all S m"
    using Cons.prems e segs_Cons_lower by auto
  have bnd: "k + length s \<le> length S" "k + length s < 2 ^ 64" "ed < 2 ^ 64"
    using agrees_bound [OF agr(1)] assms(7,8) by auto
  have ex: "add64 index (length data) = ed" "add64 k (length s) = k + length s"
    using bnd assms(4) by (simp_all add: u64_simps)
  consider (stop) "ed \<le> k" | (inside) "k < ed" "k + length s \<le> ed" | (extend) "k < ed" "ed < k + length s"
    by linarith
  then show ?case
  proof cases
    case stop
    then show ?thesis using Cons.prems e ex assms(8) by (intro exI [of _ "e # m"] exI [of _ "[]"] exI [of _ c]) auto
  next
    case inside
    have lo: "segs (k + length s) m" "st < k + length s" using m k by auto
    obtain m2 sfx c' where IH: "merge_loop st ed m data index (sub64 c (length s)) = Inr (m2, data @ sfx, index, c')"
      "set m2 \<subseteq> set m" "segs (ed + length sfx) m2" "agrees S ed sfx"
      "cover m2 \<union> {index ..< ed + length sfx} = cover m \<union> {index ..< ed}"
      "total_len m \<le> sub64 c (length s) \<longrightarrow> sub64 c (length s) < 2 ^ 64 \<longrightarrow>
         c' + total_len m = sub64 c (length s) + total_len m2"
      using Cons.IH [OF lo agr(2), of "sub64 c (length s)"] by blast
    have "merge_loop st ed (e # m) data index c = Inr (m2, data @ sfx, index, c')"
      using inside IH(1) k e ex by simp
    moreover have "{k ..< k + length s} \<subseteq> {index ..< ed}" using inside k assms(3) by auto
    then have "cover (e # m) \<union> {index ..< ed} = cover m \<union> {index ..< ed}"
      using e by (simp add: sup.absorb2 Un_left_commute sup_assoc)
    with IH(5) have "cover m2 \<union> {index ..< ed + length sfx} = cover (e # m) \<union> {index ..< ed}"
      by (simp only:)
    moreover have "total_len (e # m) \<le> c \<longrightarrow> c < 2 ^ 64 \<longrightarrow> c' + total_len (e # m) = c + total_len m2"
      using IH(6) e by (auto simp: u64_simps)
    ultimately show ?thesis
      using IH(2-4) set_subset_Cons [of m e]
      by (intro exI [of _ m2] exI [of _ sfx] exI [of _ c'] conjI) (assumption | blast)+
  next
    case extend
    let ?sfx = "drop (ed - k) s"
    have len: "length ?sfx = k + length s - ed" using extend by simp
    have "index + length (data @ ?sfx) = k + length s" using extend assms(4) by simp
    then have "merge_loop st ed m (data @ ?sfx) index c' = Inr (m, data @ ?sfx, index, c')" for c'
      using bnd by (intro merge_loop_break [OF m]) (simp add: add64_exact)
    then have "merge_loop st ed (e # m) data index c = Inr (m, data @ ?sfx, index, sub64 c (length s))"
      using extend k e ex bnd by (simp add: sub64_exact)
    moreover have "agrees S ed ?sfx" using agrees_drop [OF agr(1), of "ed - k"] extend by simp
    moreover have "cover m \<union> {index ..< ed + length ?sfx} = cover (e # m) \<union> {index ..< ed}"
      using extend k assms(3) e len by auto
    moreover have "segs (ed + length ?sfx) m" using m extend len by simp
    moreover have "total_len (e # m) \<le> c \<longrightarrow> c < 2 ^ 64 \<longrightarrow> sub64 c (length s) + total_len (e # m) = c + total_len m"
      using e by (auto simp: u64_simps)
    ultimately show ?thesis
      using set_subset_Cons [of m e]
      by (intro exI [of _ m] exI [of _ ?sfx] exI [of _ "sub64 c (length s)"] conjI) (assumption | blast)+
  qed
qed

text \<open>
  The whole loop, started with the new data at \<open>st\<close>. Either a stored entry contains the data already
  (the data is cleared and nothing changes), or the loop returns the data joined with its overlapping
  neighbours, and the entries to the left and to the right of it.
\<close>

definition merged ::
  "byte list \<Rightarrow> nat \<Rightarrow> nat \<Rightarrow> nat \<Rightarrow> segments \<Rightarrow> nat \<Rightarrow> segments \<Rightarrow> segments \<Rightarrow> byte list \<Rightarrow> nat \<Rightarrow> nat \<Rightarrow> bool"
where
  "merged S lo st ed m c m1 m2 d i c' \<longleftrightarrow>
     d \<noteq> [] \<and> lo \<le> i \<and> i \<le> st \<and> segs lo m1 \<and> (\<forall>(k, s) \<in> set m1. k + length s \<le> i) \<and>
     segs (i + length d) m2 \<and> set (m1 @ m2) \<subseteq> set m \<and> agrees S i d \<and>
     cover (m1 @ m2) \<union> {i ..< i + length d} = cover m \<union> {st ..< ed} \<and>
     (total_len m \<le> c \<longrightarrow> c < 2 ^ 64 \<longrightarrow> c' + total_len m = c + total_len (m1 @ m2))"

lemma merged_right:
  assumes "segs lo m" and "st < lo" and "index \<le> st" and "index + length data = ed" and "st < ed"
    and "agree_all S m" and "length S < 2 ^ 64" and "agrees S index data"
  shows "\<exists>m2 d c'. merge_loop st ed m data index c = Inr (m2, d, index, c') \<and>
    merged S index index ed m c [] m2 d index c'"
proof -
  have "ed \<le> length S" using agrees_bound [OF assms(8)] assms(4) by simp
  from merge_loop_right [OF assms(1-7) this, of c]
  obtain m2 sfx c' where *: "merge_loop st ed m data index c = Inr (m2, data @ sfx, index, c')"
    "set m2 \<subseteq> set m" "segs (ed + length sfx) m2" "agrees S ed sfx"
    "cover m2 \<union> {index ..< ed + length sfx} = cover m \<union> {index ..< ed}"
    "total_len m \<le> c \<longrightarrow> c < 2 ^ 64 \<longrightarrow> c' + total_len m = c + total_len m2" by blast
  have len: "index + length (data @ sfx) = ed + length sfx" using assms(4) by simp
  have "data @ sfx \<noteq> []" using assms(3-5) by auto
  moreover have "agrees S index (data @ sfx)" using *(4) assms(4,8) by (simp add: agrees_append)
  ultimately have "merged S index index ed m c [] m2 (data @ sfx) index c'"
    unfolding merged_def len using *(2-6) by simp
  with *(1) show ?thesis by blast
qed

lemma merged_drop:
  assumes "merged S i i ed m c [] m2 d i c'" and "i \<le> st" and "lo \<le> i"
    and "{k ..< k + length s} \<union> {st ..< ed} = {i ..< ed}"
    and "total_len m + length s \<le> c0 \<longrightarrow> c0 < 2 ^ 64 \<longrightarrow> c + length s = c0"
  shows "merged S lo st ed ((k, s) # m) c0 [] m2 d i c'"
proof -
  have "cover ((k, s) # m) \<union> {st ..< ed} = cover m \<union> {i ..< ed}"
    using assms(4) by (simp add: sup_assoc sup_left_commute)
  then show ?thesis using assms(1-3,5) unfolding merged_def by auto
qed

lemma merge_loop_spec:
  assumes "segs lo m" and "lo \<le> st" and "st < ed" and "st + length data = ed"
    and "agree_all S m" and "length S < 2 ^ 64" and "agrees S st data"
  shows "merge_loop st ed m data st c = Inr (m, [], st, c) \<and> {st ..< ed} \<subseteq> cover m \<or>
    (\<exists>m1 m2 d i c'. merge_loop st ed m data st c = Inr (m1 @ m2, d, i, c') \<and>
       merged S lo st ed m c m1 m2 d i c')"
  using assms(1,2,5)
proof (induction m arbitrary: lo)
  case Nil
  have "merged S lo st ed [] c [] [] data st c" using assms Nil by (auto simp: merged_def)
  then show ?case by (intro disjI2 exI conjI) auto
next
  case (Cons e m)
  obtain k s where e: "e = (k, s)" by force
  have m: "segs (k + length s) m" and lo: "lo \<le> k" and agr: "agrees S k s" "agree_all S m"
    using Cons.prems e segs_Cons_lower by auto
  have bnd: "k + length s \<le> length S" "k + length s < 2 ^ 64" "ed \<le> length S" "ed < 2 ^ 64"
    using agrees_bound [OF agr(1)] agrees_bound [OF assms(7)] assms(4,6) by auto
  have ex: "add64 st (length data) = ed" "add64 k (length s) = k + length s" "add64 st 0 = st"
    using bnd assms(3,4) by (simp_all add: u64_simps)
  consider (stop) "ed \<le> k" | (before) "k < ed" "(if s = [] then Suc k else k + length s) \<le> st"
    | (edge) "k = st" "s = []"
    | (inside) "st \<le> k" "k < ed" "st < k + length s" "k + length s \<le> ed"
    | (covered) "k \<le> st" "st < k + length s" "ed \<le> k + length s" "\<not> (st \<le> k \<and> k + length s \<le> ed)"
    | (right) "st < k" "k < ed" "ed < k + length s"
    | (left) "k < st" "st < k + length s" "k + length s < ed"
    by (cases "s = []") (auto, linarith+)
  then show ?case
  proof cases
    case stop
    have "merged S lo st ed (e # m) c [] (e # m) data st c"
      using stop assms Cons.prems e by (auto simp: merged_def)
    then show ?thesis using stop e ex by (intro disjI2 exI conjI) auto
  next
    case before
    let ?lo = "if s = [] then Suc k else k + length s"
    have kst: "k + length s \<le> st" using before(2) by (simp split: if_splits)
    then have step: "merge_loop st ed (e # m) data st c = keep_entry e (merge_loop st ed m data st c)"
      using before e ex by simp
    have "segs ?lo m" using Cons.prems e by simp
    from Cons.IH [OF this before(2) agr(2)] show ?thesis
    proof (elim disjE exE conjE)
      assume "merge_loop st ed m data st c = Inr (m, [], st, c)" and "{st ..< ed} \<subseteq> cover m"
      then show ?thesis using step e by auto
    next
      fix m1 m2 d i c'
      assume run: "merge_loop st ed m data st c = Inr (m1 @ m2, d, i, c')"
        and mg: "merged S ?lo st ed m c m1 m2 d i c'"
      have "merged S lo st ed (e # m) c (e # m1) m2 d i c'"
        using mg lo unfolding merged_def e by (auto split: if_splits)
      then show ?thesis using run step by (intro disjI2 exI conjI) auto
    qed
  next
    case edge
    have "segs (Suc k) m" using Cons.prems e edge by simp
    then obtain m2 d c' where run: "merge_loop st ed m data st c = Inr (m2, d, st, c')"
      and mg: "merged S st st ed m c [] m2 d st c'"
      using merged_right [OF _ _ order.refl assms(4,3) agr(2) assms(6,7), of "Suc k" c] edge by auto
    have "merged S lo st ed (e # m) c [e] m2 d st c'"
      using mg lo edge unfolding merged_def e by auto
    moreover have "merge_loop st ed (e # m) data st c = Inr ([e] @ m2, d, st, c')"
      using run e ex edge assms(3) by simp
    ultimately show ?thesis by blast
  next
    case inside
    then obtain m2 d c' where "merge_loop st ed m data st (sub64 c (length s)) = Inr (m2, d, st, c')"
      "merged S st st ed m (sub64 c (length s)) [] m2 d st c'"
      using merged_right [OF m _ order.refl assms(4,3) agr(2) assms(6,7), of "sub64 c (length s)"] by auto
    moreover from this(2) have "merged S lo st ed (e # m) c [] m2 d st c'"
      unfolding e using inside Cons.prems by (intro merged_drop) (auto simp: u64_simps)
    ultimately show ?thesis using inside e ex by (intro disjI2 exI conjI) auto
  next
    case covered
    have "merge_loop st ed m [] st c = Inr (m, [], st, c)"
      using covered ex by (intro merge_loop_break [OF m]) simp
    then have "merge_loop st ed (e # m) data st c = Inr (e # m, [], st, c)"
      using covered e ex assms(3) by auto
    then show ?thesis using covered e by auto
  next
    case right
    have len: "st + length (data @ drop (ed - k) s) = k + length s" using right assms(4) by simp
    have "merge_loop st ed m (data @ drop (ed - k) s) st c' = Inr (m, data @ drop (ed - k) s, st, c')" for c'
      using bnd len by (intro merge_loop_break [OF m]) (simp add: add64_exact)
    then have "merge_loop st ed (e # m) data st c = Inr (m, data @ drop (ed - k) s, st, sub64 c (length s))"
      using right e ex bnd by (simp add: sub64_exact)
    moreover have "agrees S st (data @ drop (ed - k) s)"
      using agrees_drop [OF agr(1), of "ed - k"] right assms(4,7) by (simp add: agrees_append)
    then have "merged S lo st ed (e # m) c [] m (data @ drop (ed - k) s) st (sub64 c (length s))"
      unfolding merged_def len using right e m assms(3,4) Cons.prems by (auto simp: u64_simps)
    ultimately show ?thesis by (intro disjI2 exI conjI) auto
  next
    case left
    let ?d = "take (st - k) s @ data"
    have "agrees S k ?d" using agrees_take [OF agr(1), of "st - k"] left assms(7) by (simp add: agrees_append min_absorb2)
    moreover have "k + length ?d = ed" using left assms(4) by simp
    ultimately obtain m2 d c' where "merge_loop st ed m ?d k (sub64 c (length s)) = Inr (m2, d, k, c')"
      "merged S k k ed m (sub64 c (length s)) [] m2 d k c'"
      using merged_right [OF m left(2) _ _ assms(3) agr(2) assms(6), of k ?d "sub64 c (length s)"] left by auto
    moreover from this(2) have "merged S lo st ed (e # m) c [] m2 d k c'"
      unfolding e using left lo by (intro merged_drop) (auto simp: u64_simps)
    ultimately show ?thesis using left e ex bnd by (intro disjI2 exI conjI) (auto simp: sub64_exact)
  qed
qed

lemma merge_loop_Nil:
  assumes "segs lo m" and "agree_all S m" and "length S < 2 ^ 64" and "st < 2 ^ 64"
  shows "merge_loop st st m [] st c = Inr (m, [], st, c)"
  using assms(1,2)
proof (induction m arbitrary: lo)
  case Nil
  then show ?case by simp
next
  case (Cons e m)
  obtain k s where e: "e = (k, s)" by force
  have m: "segs (k + length s) m" and agr: "agrees S k s" "agree_all S m"
    using Cons.prems e segs_Cons_lower by auto
  have "k + length s < 2 ^ 64" using agrees_bound [OF agr(1)] assms(3) by simp
  then show ?case using Cons.IH [OF m agr(2)] e assms(3,4) by (simp add: u64_simps Let_def)
qed

text \<open>Insertion of the joined data between the entries left and right of it.\<close>

lemma map_insert_between:
  assumes "segs lo m1" and "\<forall>(k, s) \<in> set m1. k + length s \<le> i" and "segs (Suc i) m2"
  shows "map_insert i v (m1 @ m2) = (if (i, []) \<in> set m1 then m1 @ m2 else m1 @ (i, v) # m2)"
  using assms(1,2)
proof (induction m1 arbitrary: lo)
  case Nil
  then show ?case using assms(3) by (cases m2) auto
next
  case (Cons e m1)
  obtain k s where e: "e = (k, s)" by force
  have m1: "segs (if s = [] then Suc k else k + length s) m1" "\<forall>(k, s) \<in> set m1. k + length s \<le> i"
    using Cons.prems e by auto
  have "(i, []) \<notin> set m1" if "k = i" using segs_keys [OF m1(1)] that by (fastforce split: if_splits)
  moreover have "k \<le> i" "k = i \<Longrightarrow> s = []" using Cons.prems e by auto
  ultimately show ?case using Cons.IH [OF m1] e by auto
qed

lemma segs_append:
  assumes "segs lo m1" and "\<forall>(k, s) \<in> set m1. (if s = [] then Suc k else k + length s) \<le> j"
    and "segs j m2" and "lo \<le> j"
  shows "segs lo (m1 @ m2)"
  using assms(1,2,4)
proof (induction m1 arbitrary: lo)
  case Nil
  then show ?case using segs_mono [OF assms(3)] by simp
next
  case (Cons e m1)
  obtain k s where e: "e = (k, s)" by force
  then show ?case using Cons.prems Cons.IH [of "if s = [] then Suc k else k + length s"] by auto
qed

lemma segs_insert_between:
  assumes "segs lo m1" and left: "\<forall>(k, s) \<in> set m1. k + length s \<le> i" and right: "segs (i + length d) m2"
    and "d \<noteq> []" and "lo \<le> i"
  shows "segs lo (map_insert i (take n d) (m1 @ m2))"
proof -
  have "Suc i \<le> i + length d" using assms(4) by (cases d) auto
  then have m2: "segs (Suc i) m2" using segs_mono [OF right] by blast
  show ?thesis
  proof (cases "(i, []) \<in> set m1")
    case True
    have "\<forall>(k, s) \<in> set m1. (if s = [] then Suc k else k + length s) \<le> Suc i" using left by fastforce
    then show ?thesis
      using True segs_append [OF assms(1) _ m2] assms(5) map_insert_between [OF assms(1) left m2] by simp
  next
    case False
    have "\<forall>(k, s) \<in> set m1. (if s = [] then Suc k else k + length s) \<le> i"
    proof (clarify, goal_cases)
      case (1 k s)
      then show ?case using left False by (cases "s = []"; cases "k = i") fastforce+
    qed
    moreover have "segs i ((i, take n d) # m2)" using m2 segs_mono [OF right, of "i + min (length d) n"] by simp
    ultimately show ?thesis
      using False segs_append [OF assms(1)] assms(5) map_insert_between [OF assms(1) left m2] by simp
  qed
qed

lemma agree_all_subset: "agree_all S m \<Longrightarrow> set m' \<subseteq> set m \<Longrightarrow> agree_all S m'"
  by (auto simp: agree_all_def)

lemma agree_all_map_insert: "agree_all S m \<Longrightarrow> agrees S i d \<Longrightarrow> agree_all S (map_insert i d m)"
  by (induction i d m rule: map_insert.induct) auto

text \<open>The tail of \<^verbatim>\<open>merge_string\<close> after a loop that ended with data left to insert.\<close>

definition merge_insert ::
  "stream_reassembler \<Rightarrow> segments \<Rightarrow> segments \<Rightarrow> byte list \<Rightarrow> nat \<Rightarrow> nat \<Rightarrow> stream_reassembler res"
where
  "merge_insert r m1 m2 d i c =
     (let unaccepted = add64 (bytes_read (sr_output r)) (sr_capacity r);
          n = min (sub64 (min (add64 i (length d)) unaccepted) i)
                (sub64 (sub64 (sr_capacity r) (buffer_size (sr_output r))) c)
      in Inr (r\<lparr>sr_unassembled_bytes := map_insert i (take n d) (m1 @ m2),
                sr_unassembled_cnt := add64 c n, sr_unaccepted_index := unaccepted\<rparr>))"

text \<open>
  \<^verbatim>\<open>merge_string\<close> keeps the stored substrings ordered, disjoint and equal to the stream, whatever the
  counter \<^verbatim>\<open>_unassembled_cnt\<close> says; it does not throw and does not touch the output.
\<close>

lemma merge_string_Nil:
  assumes "segs lo (sr_unassembled_bytes r)" and "agree_all S (sr_unassembled_bytes r)" and "length S < 2 ^ 64"
    and "index < 2 ^ 64"
  shows "merge_string r [] index = Inr r"
  using merge_loop_Nil [OF assms] assms(4) by (simp add: merge_string_def)

lemma merge_string_safe:
  assumes "segs lo (sr_unassembled_bytes r)" and "agree_all S (sr_unassembled_bytes r)" and "length S < 2 ^ 64"
    and "agrees S index data" and "lo \<le> index"
  shows "\<exists>m cnt un. merge_string r data index =
      Inr (r\<lparr>sr_unassembled_bytes := m, sr_unassembled_cnt := cnt, sr_unaccepted_index := un\<rparr>) \<and>
    segs lo m \<and> agree_all S m"
proof -
  let ?m = "sr_unassembled_bytes r" and ?c = "sr_unassembled_cnt r"
  define ed where "ed = index + length data"
  have ed: "add64 index (length data) = ed"
    using agrees_bound [OF assms(4)] assms(3) by (simp add: u64_simps ed_def)
  have same: ?thesis if "merge_loop index ed ?m data index ?c = Inr (?m, [], index, ?c)"
    using that assms(1,2) unfolding merge_string_def ed
    by (intro exI [of _ ?m] exI [of _ ?c] exI [of _ "sr_unaccepted_index r"]) simp
  show ?thesis
  proof (cases "data = []")
    case True
    then show ?thesis
      using same merge_loop_Nil [OF assms(1-3)] agrees_bound [OF assms(4)] assms(3) by (simp add: ed_def)
  next
    case False
    then have "index < ed" by (simp add: ed_def)
    from merge_loop_spec [OF assms(1,5) this ed_def [symmetric] assms(2,3,4), of ?c] show ?thesis
    proof (elim disjE exE conjE)
      assume "merge_loop index ed ?m data index ?c = Inr (?m, [], index, ?c)"
      then show ?thesis by (rule same)
    next
      fix m1 m2 d i c'
      assume run: "merge_loop index ed ?m data index ?c = Inr (m1 @ m2, d, i, c')"
        and mg: "merged S lo index ed ?m ?c m1 m2 d i c'"
      have "segs lo (map_insert i (take n d) (m1 @ m2))"
        and "agree_all S (map_insert i (take n d) (m1 @ m2))" for n
        using mg assms(2) segs_insert_between [of lo m1 i d m2 n]
          agree_all_map_insert [OF _ agrees_take, of S "m1 @ m2" i d n] agree_all_subset [of S ?m "m1 @ m2"]
        unfolding merged_def by blast+
      moreover have "d \<noteq> []" using mg by (simp add: merged_def)
      then have "merge_string r data index = merge_insert r m1 m2 d i c'"
        using run by (simp add: merge_string_def ed merge_insert_def Let_def unassembled_bytes_def)
      ultimately show ?thesis unfolding merge_insert_def Let_def by blast
    qed
  qed
qed

section \<open>The output stream\<close>

text \<open>What is never touched by writing: the reader's side of the output.\<close>

definition same_reader :: "byte_stream \<Rightarrow> byte_stream \<Rightarrow> bool" where
  "same_reader s t \<longleftrightarrow>
     bs_capacity t = bs_capacity s \<and> bytes_read t = bytes_read s \<and> input_ended t = input_ended s \<and>
     bs_error t = bs_error s"

lemma same_reader_refl [simp]: "same_reader s s"
  by (simp add: same_reader_def)

lemma same_reader_write: "same_reader s t \<Longrightarrow> same_reader s (fst (bs_write t d))"
  by (simp add: same_reader_def bytes_read_def input_ended_def)

text \<open>
  The assembly loop: it writes stream bytes only, stops at the first stored substring beyond the
  assembled part, and gives back the rest of the map.
\<close>

lemma assemble_loop_safe:
  assumes "bs_at S out" and "segs lo m" and "agree_all S m" and "length S < 2 ^ 64"
  shows "\<exists>out' cnt' m1 m2. assemble_loop out (bytes_written out) cnt m = Inr (out', bytes_written out', cnt', m2) \<and>
    m = m1 @ m2 \<and> bs_at S out' \<and> bytes_written out \<le> bytes_written out' \<and> same_reader out out' \<and>
    segs (Suc (bytes_written out')) m2 \<and>
    (total_len m \<le> cnt \<longrightarrow> cnt < 2 ^ 64 \<longrightarrow> cnt' + total_len m = cnt + total_len m2)"
  using assms(1-3)
proof (induction m arbitrary: out cnt lo)
  case Nil
  then show ?case by (intro exI [of _ out] exI [of _ cnt] exI [of _ "[]"]) simp
next
  case (Cons e m)
  obtain k s where e: "e = (k, s)" by force
  have m: "segs (k + length s) m" and agr: "agrees S k s" "agree_all S m"
    using Cons.prems e segs_Cons_lower by auto
  have ks: "k + length s < 2 ^ 64" using agrees_bound [OF agr(1)] assms(4) by simp
  let ?idx = "bytes_written out" and ?c = "sub64 cnt (length s)"
  have cnt: "total_len (e # m) \<le> cnt \<longrightarrow> cnt < 2 ^ 64 \<longrightarrow> total_len m \<le> ?c \<and> ?c < 2 ^ 64 \<and> ?c + length s = cnt"
    using e by (auto simp: u64_simps)
  have use: ?case if step: "assemble_loop out ?idx cnt (e # m) = assemble_loop out1 (bytes_written out1) ?c m"
    and at: "bs_at S out1" and le: "?idx \<le> bytes_written out1" and same: "same_reader out out1" for out1
  proof -
    obtain out' cnt' m1 m2 where IH: "assemble_loop out1 (bytes_written out1) ?c m = Inr (out', bytes_written out', cnt', m2)"
      "m = m1 @ m2" "bs_at S out'" "bytes_written out1 \<le> bytes_written out'" "same_reader out1 out'"
      "segs (Suc (bytes_written out')) m2"
      "total_len m \<le> ?c \<longrightarrow> ?c < 2 ^ 64 \<longrightarrow> cnt' + total_len m = ?c + total_len m2"
      using Cons.IH [OF at m agr(2), of ?c] by blast
    have "total_len (e # m) \<le> cnt \<longrightarrow> cnt < 2 ^ 64 \<longrightarrow> cnt' + total_len (e # m) = cnt + total_len m2"
      using IH(7) cnt e by (auto simp del: total_len_simps(3))
    moreover have "same_reader out out'" using same IH(5) by (simp add: same_reader_def)
    ultimately show ?thesis
      using IH step le by (intro exI [of _ out'] exI [of _ cnt'] exI [of _ "e # m1"] exI [of _ m2]) simp
  qed
  consider (later) "?idx < k" | (stale) "k + length s \<le> ?idx" | (overlap) "k \<le> ?idx" "?idx < k + length s"
    by linarith
  then show ?case
  proof cases
    case later
    then show ?thesis using Cons.prems e
      by (intro exI [of _ out] exI [of _ cnt] exI [of _ "[]"] exI [of _ "e # m"]) simp
  next
    case stale
    then show ?thesis using Cons.prems e ks by (intro use [of out]) (simp_all add: u64_simps)
  next
    case overlap
    have "agrees S ?idx (drop (?idx - k) s)" using agrees_drop [OF agr(1), of "?idx - k"] overlap by simp
    note w = bs_at_write [OF Cons.prems(1) this assms(4)]
    let ?w = "bs_write out (drop (?idx - k) s)"
    have "?idx + snd ?w < 2 ^ 64" using w bs_at_bound [of S "fst ?w"] assms(4) by simp
    then have "add64 ?idx (snd ?w) = bytes_written (fst ?w)" using w by (simp add: add64_exact)
    then show ?thesis using w overlap e ks Cons.prems(1)
      by (intro use [of "fst ?w"]) (simp_all add: u64_simps case_prod_beta same_reader_write)
  qed
qed

section \<open>Safety\<close>

text \<open>
  \<open>S\<close> is the whole stream the peer sends. The output is a window on \<open>S\<close>, every stored substring is a
  substring of \<open>S\<close> at its index, and an announced end is the end of \<open>S\<close>.
\<close>

definition sr_core :: "byte list \<Rightarrow> stream_reassembler \<Rightarrow> bool" where
  "sr_core S r \<longleftrightarrow>
     bs_at S (sr_output r) \<and> bs_capacity (sr_output r) = sr_capacity r \<and>
     length S + sr_capacity r < 2 ^ 64 \<and> sr_unassembled_index r = bytes_written (sr_output r) \<and>
     segs 0 (sr_unassembled_bytes r) \<and> agree_all S (sr_unassembled_bytes r)"

definition sr_eof_ok :: "byte list \<Rightarrow> stream_reassembler \<Rightarrow> bool" where
  "sr_eof_ok S r \<longleftrightarrow>
     (sr_eof_index r = 2 ^ 64 - 1 \<or> sr_eof_index r = length S) \<and>
     (input_ended (sr_output r) \<longrightarrow>
        sr_eof_index r \<le> sr_unassembled_index r \<and> sr_unassembled_index r = length S)"

definition sr_safe :: "byte list \<Rightarrow> stream_reassembler \<Rightarrow> bool" where
  "sr_safe S r \<longleftrightarrow> sr_core S r \<and> sr_eof_ok S r"

lemma sr_core_bounds:
  assumes "sr_core S r"
  shows "length S < 2 ^ 64" "sr_unassembled_index r \<le> length S" "sr_capacity r < 2 ^ 64"
    "bytes_read (sr_output r) + length (bs_byte_stream (sr_output r)) = sr_unassembled_index r"
    "length (bs_byte_stream (sr_output r)) \<le> sr_capacity r"
    "bytes_read (sr_output r) + sr_capacity r < 2 ^ 64"
    "add64 (bytes_read (sr_output r)) (sr_capacity r) = bytes_read (sr_output r) + sr_capacity r"
proof -
  have "bytes_written (sr_output r) \<le> length S" using assms bs_at_bound by (simp add: sr_core_def)
  then show "length S < 2 ^ 64" "sr_unassembled_index r \<le> length S" "sr_capacity r < 2 ^ 64"
    "bytes_read (sr_output r) + length (bs_byte_stream (sr_output r)) = sr_unassembled_index r"
    "length (bs_byte_stream (sr_output r)) \<le> sr_capacity r"
    "bytes_read (sr_output r) + sr_capacity r < 2 ^ 64"
    "add64 (bytes_read (sr_output r)) (sr_capacity r) = bytes_read (sr_output r) + sr_capacity r"
    using assms by (auto simp: sr_core_def bs_at_def bs_inv_def add64_exact)
qed

lemma push_in_order_spec:
  assumes "sr_core S r" and "agrees S index data" and "index \<le> sr_unassembled_index r"
    and "sr_unassembled_index r \<le> index + length data"
  shows "\<exists>out cnt m0 m. push_in_order r data index =
      Inr (r\<lparr>sr_output := out, sr_unassembled_index := bytes_written out,
             sr_unassembled_cnt := cnt, sr_unassembled_bytes := m\<rparr>) \<and>
    sr_unassembled_bytes r = m0 @ m \<and> bs_at S out \<and> sr_unassembled_index r \<le> bytes_written out \<and>
    same_reader (sr_output r) out \<and> segs (Suc (bytes_written out)) m \<and>
    (total_len (sr_unassembled_bytes r) \<le> sr_unassembled_cnt r \<longrightarrow> sr_unassembled_cnt r < 2 ^ 64 \<longrightarrow>
       cnt + total_len (sr_unassembled_bytes r) = sr_unassembled_cnt r + total_len m)"
proof -
  note bnd = sr_core_bounds [OF assms(1)]
  let ?i = "sr_unassembled_index r" and ?d = "drop (sr_unassembled_index r - index) data"
  have at: "bs_at S (sr_output r)" and i: "?i = bytes_written (sr_output r)"
    using assms(1) by (simp_all add: sr_core_def)
  have "agrees S ?i ?d" using agrees_drop [OF assms(2), of "?i - index"] assms(3,4) by simp
  then have w: "agrees S (bytes_written (sr_output r)) (take n ?d)" for n
    using agrees_take i by simp
  have pos: "sub64 ?i index = ?i - index" using assms(3) bnd by (simp add: sub64_exact)
  define n where "n = min (sub64 (min (add64 index (length data)) (sr_unaccepted_index r)) ?i)
    (sub64 (sub64 (sr_capacity r) (buffer_size (sr_output r))) (unassembled_bytes r))"
  let ?w = "bs_write (sr_output r) (take n ?d)"
  note wr = bs_at_write [OF at w bnd(1), of n]
  have "bytes_written (fst ?w) < 2 ^ 64" using wr bs_at_bound [of S "fst ?w"] bnd(1) by simp
  then have idx: "add64 ?i (snd ?w) = bytes_written (fst ?w)" using wr i by (simp add: add64_exact)
  have segs: "segs 0 (sr_unassembled_bytes r)" and agr: "agree_all S (sr_unassembled_bytes r)"
    using assms(1) by (simp_all add: sr_core_def)
  obtain out cnt m0 m where loop: "assemble_loop (fst ?w) (bytes_written (fst ?w)) (sr_unassembled_cnt r)
      (sr_unassembled_bytes r) = Inr (out, bytes_written out, cnt, m)"
    "sr_unassembled_bytes r = m0 @ m" "bs_at S out" "bytes_written (fst ?w) \<le> bytes_written out"
    "same_reader (fst ?w) out" "segs (Suc (bytes_written out)) m"
    "total_len (sr_unassembled_bytes r) \<le> sr_unassembled_cnt r \<longrightarrow> sr_unassembled_cnt r < 2 ^ 64 \<longrightarrow>
       cnt + total_len (sr_unassembled_bytes r) = sr_unassembled_cnt r + total_len m"
    using assemble_loop_safe [OF _ segs agr bnd(1), of "fst ?w" "sr_unassembled_cnt r"] wr by blast
  have "push_in_order r data index =
      Inr (r\<lparr>sr_output := out, sr_unassembled_index := bytes_written out,
             sr_unassembled_cnt := cnt, sr_unassembled_bytes := m\<rparr>)"
    using loop(1) idx pos assms(3,4)
    by (simp add: push_in_order_def Let_def n_def [symmetric] case_prod_beta)
  moreover have "same_reader (sr_output r) out"
    using loop(5) same_reader_write [of "sr_output r" "sr_output r"] by (simp add: same_reader_def)
  ultimately show ?thesis using loop(2-7) wr i by (intro exI conjI) auto
qed

lemma sr_core_update:
  assumes "sr_core S r" and "bs_at S out" and "bs_capacity out = sr_capacity r"
    and "segs 0 m" and "agree_all S m"
  shows "sr_core S (r\<lparr>sr_output := out, sr_unassembled_index := bytes_written out,
    sr_unassembled_cnt := cnt, sr_unassembled_bytes := m\<rparr>)"
  using assms by (simp add: sr_core_def)

lemma sr_core_frame [simp]:
  "sr_core S (r\<lparr>sr_eof_index := e\<rparr>) = sr_core S r"
  "sr_core S (r\<lparr>sr_unaccepted_index := u\<rparr>) = sr_core S r"
  "sr_core S (r\<lparr>sr_unassembled_cnt := c\<rparr>) = sr_core S r"
  "sr_core S (r\<lparr>sr_output := end_input (sr_output r)\<rparr>) = sr_core S r"
  by (simp_all add: sr_core_def bs_at_def bytes_read_def bytes_written_def)

lemma push_branch_safe:
  assumes "sr_core S r" and "agrees S index data" and "sr_unassembled_index r \<le> index + length data"
  shows "\<exists>r'. (if sr_unassembled_index r < index then merge_string r data index
      else push_in_order r data index) = Inr r' \<and>
    sr_core S r' \<and> sr_unassembled_index r \<le> sr_unassembled_index r' \<and>
    same_reader (sr_output r) (sr_output r') \<and> sr_eof_index r' = sr_eof_index r \<and> sr_capacity r' = sr_capacity r"
proof (cases "sr_unassembled_index r < index")
  case True
  have segs: "segs 0 (sr_unassembled_bytes r)" and agr: "agree_all S (sr_unassembled_bytes r)"
    using assms(1) by (simp_all add: sr_core_def)
  obtain m cnt un where "merge_string r data index =
      Inr (r\<lparr>sr_unassembled_bytes := m, sr_unassembled_cnt := cnt, sr_unaccepted_index := un\<rparr>)"
    "segs 0 m" "agree_all S m"
    using merge_string_safe [OF segs agr sr_core_bounds(1) [OF assms(1)] assms(2)] by blast
  then show ?thesis using True assms(1) by (simp add: sr_core_def)
next
  case False
  then have "index \<le> sr_unassembled_index r" by simp
  from push_in_order_spec [OF assms(1,2) this assms(3)]
  obtain out cnt m0 m where *: "push_in_order r data index =
      Inr (r\<lparr>sr_output := out, sr_unassembled_index := bytes_written out,
             sr_unassembled_cnt := cnt, sr_unassembled_bytes := m\<rparr>)"
    "sr_unassembled_bytes r = m0 @ m" "bs_at S out" "sr_unassembled_index r \<le> bytes_written out"
    "same_reader (sr_output r) out" "segs (Suc (bytes_written out)) m" by blast
  have "segs 0 m" "agree_all S m" "bs_capacity out = sr_capacity r"
    using segs_mono [OF *(6)] *(2,5) assms(1) by (simp_all add: sr_core_def same_reader_def)
  then show ?thesis
    using False *(1,4,5) sr_core_update [OF assms(1) *(3)] by simp
qed

lemma end_at_eof_safe:
  assumes "sr_core S r" and "sr_eof_ok S r \<or> \<not> input_ended (sr_output r)"
    and "sr_eof_index r = 2 ^ 64 - 1 \<or> sr_eof_index r = length S"
  shows "sr_safe S (end_at_eof r)"
proof -
  have "sr_unassembled_index r \<le> length S" "length S < 2 ^ 64"
    using sr_core_bounds [OF assms(1)] by simp_all
  then show ?thesis using assms by (auto simp: sr_safe_def end_at_eof_def sr_eof_ok_def input_ended_def)
qed

text \<open>
  A substring of the stream, or one that is empty or starts beyond the window, keeps the reassembler
  safe; the call returns (no \<^verbatim>\<open>substr\<close> throws), the assembled part never shrinks and the reader's side stays.
\<close>

lemma push_substring_safe_step:
  assumes "sr_safe S r"
    and "agrees S index data \<or> bytes_read (sr_output r) + sr_capacity r < index \<or> data = [] \<and> index < 2 ^ 64"
    and "eof \<Longrightarrow> add64 index (length data) = length S"
  shows "\<exists>r'. push_substring r data index eof = Inr r' \<and> sr_safe S r' \<and>
    sr_unassembled_index r \<le> sr_unassembled_index r' \<and> sr_capacity r' = sr_capacity r \<and>
    bytes_read (sr_output r') = bytes_read (sr_output r) \<and> bs_error (sr_output r') = bs_error (sr_output r)"
proof -
  define r1 where "r1 = (if eof then r\<lparr>sr_eof_index := add64 index (length data)\<rparr> else r)"
  define r2 where "r2 = r1\<lparr>sr_unaccepted_index := add64 (bytes_read (sr_output r1)) (sr_capacity r1)\<rparr>"
  have core: "sr_core S r1" "sr_core S r2" and eof_ok: "sr_eof_ok S r1"
    using assms(1,3) by (auto simp: r1_def r2_def sr_safe_def sr_eof_ok_def)
  have same: "sr_output r1 = sr_output r" "sr_unassembled_index r1 = sr_unassembled_index r"
    "sr_capacity r1 = sr_capacity r" "sr_output r2 = sr_output r"
    "sr_unassembled_index r2 = sr_unassembled_index r" "sr_capacity r2 = sr_capacity r"
    "sr_eof_index r2 = sr_eof_index r1"
    by (simp_all add: r1_def r2_def)
  have un: "sr_unaccepted_index r2 = bytes_read (sr_output r) + sr_capacity r"
    using sr_core_bounds(7) [OF core(1)] same by (simp add: r2_def)
  have push: "push_substring r data index eof =
      (if sr_eof_index r1 \<le> sr_unassembled_index r1 then Inr (r1\<lparr>sr_output := end_input (sr_output r1)\<rparr>)
       else if add64 index (length data) < sr_unassembled_index r2 \<or> sr_unaccepted_index r2 < index then Inr r2
       else bind_res (if sr_unassembled_index r2 < index then merge_string r2 data index
              else push_in_order r2 data index) (\<lambda>r. Inr (end_at_eof r)))"
    by (simp only: push_substring_def Let_def r1_def r2_def)
  consider (ended) "sr_eof_index r1 \<le> sr_unassembled_index r1"
    | (skip) "\<not> sr_eof_index r1 \<le> sr_unassembled_index r1"
        "add64 index (length data) < sr_unassembled_index r2 \<or> sr_unaccepted_index r2 < index"
    | (push) "\<not> sr_eof_index r1 \<le> sr_unassembled_index r1"
        "\<not> (add64 index (length data) < sr_unassembled_index r2 \<or> sr_unaccepted_index r2 < index)"
    by blast
  then show ?thesis
  proof cases
    case ended
    then have "sr_safe S (r1\<lparr>sr_output := end_input (sr_output r1)\<rparr>)"
      using end_at_eof_safe [OF core(1)] eof_ok by (simp add: end_at_eof_def sr_eof_ok_def)
    then show ?thesis using push ended same by (simp add: bytes_read_def)
  next
    case skip
    have "sr_safe S r2" using core(2) eof_ok same by (auto simp: sr_safe_def sr_eof_ok_def)
    then show ?thesis using push skip same by (simp only: if_True if_False) simp
  next
    case push
    obtain r3 where r3:
      "(if sr_unassembled_index r2 < index then merge_string r2 data index else push_in_order r2 data index) = Inr r3"
      "sr_core S r3" "sr_unassembled_index r2 \<le> sr_unassembled_index r3"
      "same_reader (sr_output r2) (sr_output r3)" "sr_eof_index r3 = sr_eof_index r2" "sr_capacity r3 = sr_capacity r2"
    proof (cases "agrees S index data")
      case True
      have "index + length data < 2 ^ 64" using agrees_bound [OF True] sr_core_bounds(1) [OF core(1)] by simp
      then have "sr_unassembled_index r2 \<le> index + length data" using push(2) by (simp add: add64_exact)
      then show ?thesis using push_branch_safe [OF core(2) True] that by blast
    next
      case False
      then have idx: "data = []" "index < 2 ^ 64" using assms(2) push(2) un by auto
      then have "length S < index" using False by simp
      then have "sr_unassembled_index r2 < index" using sr_core_bounds(2) [OF core(2)] by simp
      moreover have "merge_string r2 [] index = Inr r2"
        using merge_string_Nil [OF _ _ sr_core_bounds(1) [OF core(2)] idx(2), of 0 r2] core(2) by (simp add: sr_core_def)
      ultimately show ?thesis using that core(2) idx(1) by simp
    qed
    have "\<not> input_ended (sr_output r3)"
      using push(1) eof_ok r3(4) same by (auto simp: sr_eof_ok_def same_reader_def)
    then have "sr_safe S (end_at_eof r3)"
      using end_at_eof_safe [OF r3(2)] eof_ok r3(5) same by (simp add: sr_eof_ok_def)
    moreover have "push_substring r data index eof = Inr (end_at_eof r3)"
      using \<open>push_substring r data index eof = _\<close> push r3(1) by (simp only: if_False) simp
    ultimately show ?thesis
      using r3(3,4,6) same by (auto simp: end_at_eof_def same_reader_def bytes_read_def)
  qed
qed

section \<open>Runs\<close>

text \<open>A run interleaves pushed substrings with reads of the output, which are collected in order.\<close>

datatype sr_op = Push "byte list" u64 bool | Take_output u64

fun sr_run :: "stream_reassembler \<Rightarrow> sr_op list \<Rightarrow> (stream_reassembler \<times> byte list) res" where
  "sr_run r [] = Inr (r, [])"
| "sr_run r (Push data index eof # ops) = bind_res (push_substring r data index eof) (\<lambda>r. sr_run r ops)"
| "sr_run r (Take_output n # ops) =
     (let (out, bytes) = bs_read (sr_output r) n
      in bind_res (sr_run (r\<lparr>sr_output := out\<rparr>) ops) (\<lambda>(r, rest). Inr (r, bytes @ rest)))"

fun sr_op_of_stream :: "byte list \<Rightarrow> sr_op \<Rightarrow> bool" where
  "sr_op_of_stream S (Push data index eof) \<longleftrightarrow>
     agrees S index data \<and> (eof \<longrightarrow> index + length data = length S)"
| "sr_op_of_stream S (Take_output n) = True"

lemma sr_safe_read:
  assumes "sr_safe S r"
  shows "sr_safe S (r\<lparr>sr_output := pop_output (sr_output r) n\<rparr>)"
proof -
  have "bs_at S (sr_output r)" "length S < 2 ^ 64"
    using assms sr_core_bounds [of S r] by (simp_all add: sr_safe_def sr_core_def)
  from bs_at_pop [OF this, of n] show ?thesis
    using assms by (auto simp: sr_safe_def sr_core_def sr_eof_ok_def bytes_written_def input_ended_def)
qed

lemma sr_run_safe:
  assumes "sr_safe S r" and "\<forall>x \<in> set ops. sr_op_of_stream S x"
  shows "\<exists>r' delivered. sr_run r ops = Inr (r', delivered) \<and> sr_safe S r' \<and>
    agrees S (bytes_read (sr_output r)) delivered \<and>
    bytes_read (sr_output r') = bytes_read (sr_output r) + length delivered"
  using assms
proof (induction r ops rule: sr_run.induct)
  case (1 r)
  then have "bytes_read (sr_output r) \<le> length S"
    using sr_core_bounds [of S r] by (simp add: sr_safe_def)
  then show ?case using 1 by simp
next
  case (2 r data index eof ops)
  then have agr: "agrees S index data" and e: "eof \<Longrightarrow> index + length data = length S" by auto
  have "index + length data < 2 ^ 64"
    using agrees_bound [OF agr] sr_core_bounds(1) [of S r] 2 by (simp add: sr_safe_def)
  then have "eof \<Longrightarrow> add64 index (length data) = length S" using e by (simp add: add64_exact)
  from push_substring_safe_step [OF "2.prems"(1) disjI1 [OF agr] this]
  obtain r1 where "push_substring r data index eof = Inr r1" "sr_safe S r1"
    "bytes_read (sr_output r1) = bytes_read (sr_output r)" by blast
  then show ?case using "2.IH" [of r1] "2.prems"(2) by simp
next
  case (3 r n ops)
  let ?r = "r\<lparr>sr_output := pop_output (sr_output r) n\<rparr>" and ?b = "take n (bs_byte_stream (sr_output r))"
  have at: "bs_at S (sr_output r)" "length S < 2 ^ 64"
    using "3.prems"(1) sr_core_bounds [of S r] by (simp_all add: sr_safe_def sr_core_def)
  have pop: "bytes_read (pop_output (sr_output r) n) = bytes_read (sr_output r) + length ?b"
    using bs_at_pop [OF at, of n] by (simp add: min.commute)
  obtain r' rest where IH: "sr_run ?r ops = Inr (r', rest)" "sr_safe S r'"
    "agrees S (bytes_read (pop_output (sr_output r) n)) rest"
    "bytes_read (sr_output r') = bytes_read (pop_output (sr_output r) n) + length rest"
    using "3.IH" [OF refl] sr_safe_read [OF "3.prems"(1), of n] "3.prems"(2) by (auto simp: bs_read_eq)
  have "agrees S (bytes_read (sr_output r)) (?b @ rest)"
    using at(1) agrees_take IH(3) pop by (simp only: agrees_append) (simp add: bs_at_def)
  then show ?case using IH pop by (auto simp: bs_read_eq)
qed

lemma sr_safe_StreamReassembler: "length S + capacity < 2 ^ 64 \<Longrightarrow> sr_safe S (StreamReassembler capacity)"
  by (simp add: sr_safe_def sr_core_def sr_eof_ok_def StreamReassembler_def bs_at_def ByteStream_def bs_inv_def
      bytes_read_def bytes_written_def input_ended_def)

section \<open>Properties\<close>

text \<open>
  C3. Whatever substrings of a stream \<open>S\<close> arrive, in whatever order, however they overlap or repeat, and
  however the reads are interleaved, \<^verbatim>\<open>push_substring\<close> never throws and the reassembler gives out a
  prefix of \<open>S\<close>: the bytes delivered followed by those still buffered are the first
  \<^verbatim>\<open>bytes_written\<close> bytes of \<open>S\<close>. If the output stream has ended, they are all of \<open>S\<close>.
\<close>

theorem sr_run_prefix:
  assumes "length S + capacity < 2 ^ 64" and "\<forall>x \<in> set ops. sr_op_of_stream S x"
  shows "\<exists>r delivered. sr_run (StreamReassembler capacity) ops = Inr (r, delivered) \<and>
    delivered @ bs_byte_stream (sr_output r) = take (bytes_written (sr_output r)) S \<and>
    (input_ended (sr_output r) \<longrightarrow> delivered @ bs_byte_stream (sr_output r) = S)"
proof -
  obtain r delivered where *: "sr_run (StreamReassembler capacity) ops = Inr (r, delivered)" "sr_safe S r"
    "agrees S 0 delivered" "bytes_read (sr_output r) = length delivered"
    using sr_run_safe [OF sr_safe_StreamReassembler [OF assms(1)] assms(2)]
    by (auto simp: StreamReassembler_def ByteStream_def bytes_read_def)
  have "agrees S 0 (delivered @ bs_byte_stream (sr_output r))"
    using *(2-4) by (simp add: agrees_append sr_safe_def sr_core_def bs_at_def)
  moreover have len: "length (delivered @ bs_byte_stream (sr_output r)) = bytes_written (sr_output r)"
    using *(2,4) by (simp add: sr_safe_def sr_core_def bs_at_def)
  ultimately have "delivered @ bs_byte_stream (sr_output r) = take (bytes_written (sr_output r)) S"
    unfolding agrees_def by (simp only: len drop_0)
  moreover have "input_ended (sr_output r) \<longrightarrow> bytes_written (sr_output r) = length S"
    using *(2) by (auto simp: sr_safe_def sr_eof_ok_def sr_core_def)
  ultimately show ?thesis using *(1) by (metis order.refl take_all)
qed

theorem sr_run_prefix_witness:
  "\<exists>r delivered. sr_run (StreamReassembler 4) [Push [2, 3] 1 True, Take_output 1, Push [1, 2] 0 False] = Inr (r, delivered) \<and>
    (input_ended (sr_output r) \<longrightarrow> delivered @ bs_byte_stream (sr_output r) = [1, 2, 3])"
  using sr_run_prefix [of "[1, 2, 3]" 4 "[Push [2, 3] 1 True, Take_output 1, Push [1, 2] 0 False]"]
  by (auto simp: agrees_def)

section \<open>What the reassembler knows, and its memory bound\<close>

text \<open>
  The indices of the bytes the reassembler has: those it assembled and those it stores. The
  invariant \<open>sr_wf\<close> says that no stored substring is empty, that all lie strictly between the
  assembled part and the end of the window, and that \<^verbatim>\<open>_unassembled_cnt\<close> counts them.
\<close>

definition sr_window_end :: "stream_reassembler \<Rightarrow> nat" where
  "sr_window_end r = bytes_read (sr_output r) + sr_capacity r"

definition known :: "stream_reassembler \<Rightarrow> nat set" where
  "known r = {..< sr_unassembled_index r} \<union> cover (sr_unassembled_bytes r)"

definition sr_wf :: "stream_reassembler \<Rightarrow> bool" where
  "sr_wf r \<longleftrightarrow>
     segs (Suc (sr_unassembled_index r)) (sr_unassembled_bytes r) \<and>
     (\<forall>(k, s) \<in> set (sr_unassembled_bytes r). s \<noteq> []) \<and>
     cover (sr_unassembled_bytes r) \<subseteq> {..< sr_window_end r} \<and>
     unassembled_bytes r = total_len (sr_unassembled_bytes r)"

lemma sr_wf_card: "sr_wf r \<Longrightarrow> unassembled_bytes r = card (cover (sr_unassembled_bytes r))"
  using segs_card_cover by (fastforce simp: sr_wf_def)

lemma sr_wf_room:
  assumes "sr_core S r" and "sr_wf r" and "sr_unassembled_index r < sr_window_end r"
  shows "buffer_size (sr_output r) + unassembled_bytes r < sr_capacity r"
proof -
  have "cover (sr_unassembled_bytes r) \<subseteq> {Suc (sr_unassembled_index r) ..< sr_window_end r}"
    using assms(2) segs_cover by (fastforce simp: sr_wf_def)
  then have "card (cover (sr_unassembled_bytes r)) \<le> card {Suc (sr_unassembled_index r) ..< sr_window_end r}"
    by (intro card_mono) simp_all
  then have "unassembled_bytes r \<le> sr_window_end r - Suc (sr_unassembled_index r)"
    using sr_wf_card [OF assms(2)] by simp
  then show ?thesis
    using sr_core_bounds [OF assms(1)] assms(3) by (simp add: sr_window_end_def buffer_size_def)
qed

lemma sr_wf_capacity:
  assumes "sr_core S r" and "sr_wf r"
  shows "buffer_size (sr_output r) + unassembled_bytes r \<le> sr_capacity r"
proof (cases "sr_unassembled_index r < sr_window_end r")
  case True
  then show ?thesis using sr_wf_room [OF assms] by simp
next
  case False
  have "cover (sr_unassembled_bytes r) \<subseteq> {Suc (sr_unassembled_index r) ..< sr_window_end r}"
    using assms(2) segs_cover by (fastforce simp: sr_wf_def)
  then have "cover (sr_unassembled_bytes r) = {}" using False by auto
  then show ?thesis
    using sr_wf_card [OF assms(2)] sr_core_bounds [OF assms(1)] by (simp add: buffer_size_def)
qed

text \<open>The out-of-order branch stores exactly the part of the data that lies in the window.\<close>

lemma merge_insert_size:
  assumes "sr_core S r" and "sr_wf r" and "sr_unassembled_index r < index" and "index < sr_window_end r"
    and mg: "merged S (Suc (sr_unassembled_index r)) index ed (sr_unassembled_bytes r)
      (total_len (sr_unassembled_bytes r)) m1 m2 d i c'"
  defines "b \<equiv> min (i + length d) (sr_window_end r)"
  shows "i < b" and "total_len (m1 @ m2) + (b - i) \<le> sr_capacity r - buffer_size (sr_output r)"
proof -
  let ?lo = "Suc (sr_unassembled_index r)" and ?U = "sr_window_end r"
  have i: "?lo \<le> i" "i \<le> index" "d \<noteq> []" and sub: "set (m1 @ m2) \<subseteq> set (sr_unassembled_bytes r)"
    and m1: "segs ?lo m1" "\<forall>(k, s) \<in> set m1. k + length s \<le> i" and m2: "segs (i + length d) m2"
    using mg by (auto simp: merged_def)
  show "i < b" using i assms(4) by (simp add: b_def)
  have "cover (m1 @ m2) \<subseteq> cover (sr_unassembled_bytes r)" using sub by (fastforce simp: cover_def)
  then have "cover (m1 @ m2) \<union> {i ..< b} \<subseteq> {?lo ..< ?U}"
    using assms(2) segs_cover [of ?lo "sr_unassembled_bytes r"] i(1) by (fastforce simp: sr_wf_def b_def)
  moreover have "cover (m1 @ m2) \<inter> {i ..< b} = {}"
    using m1(2) segs_cover [OF m2] by (fastforce simp: cover_def b_def)
  ultimately have "card (cover (m1 @ m2)) + (b - i) \<le> ?U - ?lo"
    using card_mono [of "{?lo ..< ?U}" "cover (m1 @ m2) \<union> {i ..< b}"] by (simp add: card_Un_disjoint)
  moreover have "segs ?lo (m1 @ m2)"
    using m1 m2 i segs_append [of ?lo m1 "Suc i" m2] segs_mono [OF m2, of "Suc i"]
    by (cases d) (fastforce split: if_splits)+
  ultimately show "total_len (m1 @ m2) + (b - i) \<le> sr_capacity r - buffer_size (sr_output r)"
    using segs_card_cover sr_core_bounds [OF assms(1)] by (fastforce simp: sr_window_end_def buffer_size_def)
qed

lemma merge_insert_known:
  assumes "sr_core S r" and "sr_wf r" and "sr_unassembled_index r < index" and "index < sr_window_end r"
    and merged: "merged S (Suc (sr_unassembled_index r)) index ed (sr_unassembled_bytes r)
      (total_len (sr_unassembled_bytes r)) m1 m2 d i c'"
    and "merge_insert r m1 m2 d i c' = Inr r'"
  shows "sr_wf r' \<and> known r' = known r \<union> {index ..< min ed (sr_window_end r)}"
proof -
  let ?lo = "Suc (sr_unassembled_index r)" and ?m = "sr_unassembled_bytes r" and ?U = "sr_window_end r"
  note bnd = sr_core_bounds [OF assms(1)]
  have cnt: "sr_unassembled_cnt r = total_len ?m" and sub: "cover ?m \<subseteq> {..< ?U}"
    and ne: "\<forall>(k, s) \<in> set ?m. s \<noteq> []"
    using assms(2) by (auto simp: sr_wf_def unassembled_bytes_def)
  have "total_len ?m < 2 ^ 64"
    using sr_wf_capacity [OF assms(1,2)] bnd(3) cnt by (simp add: unassembled_bytes_def)
  then have mg: "d \<noteq> []" "?lo \<le> i" "i \<le> index" "segs ?lo m1" "\<forall>(k, s) \<in> set m1. k + length s \<le> i"
    "segs (i + length d) m2" "set (m1 @ m2) \<subseteq> set ?m" "agrees S i d"
    "cover (m1 @ m2) \<union> {i ..< i + length d} = cover ?m \<union> {index ..< ed}" "c' = total_len (m1 @ m2)"
    using merged by (auto simp: merged_def)
  define b where "b = min (i + length d) ?U"
  have b: "i < b" "total_len (m1 @ m2) + (b - i) \<le> sr_capacity r - buffer_size (sr_output r)"
    using merge_insert_size [OF assms(1-4) merged] by (simp_all add: b_def)
  have "i + length d < 2 ^ 64" "?U < 2 ^ 64"
    using agrees_bound [OF mg(8)] bnd(1,6) by (simp_all add: sr_window_end_def)
  then have n: "min (sub64 (min (add64 i (length d)) (add64 (bytes_read (sr_output r)) (sr_capacity r))) i)
      (sub64 (sub64 (sr_capacity r) (buffer_size (sr_output r))) c') = b - i"
    using b bnd mg(10) by (simp add: u64_simps b_def sr_window_end_def buffer_size_def min_def split: if_splits)
  let ?m' = "m1 @ (i, take (b - i) d) # m2"
  have "(i, []) \<notin> set m1" using ne mg(7) by auto
  moreover have m2: "segs (Suc i) m2" using segs_mono [OF mg(6)] mg(1) by (cases d) auto
  ultimately have ins: "map_insert i (take (b - i) d) (m1 @ m2) = ?m'"
    using map_insert_between [OF mg(4,5) m2] by simp
  then have r': "r' = r\<lparr>sr_unassembled_bytes := ?m', sr_unassembled_cnt := add64 c' (b - i),
      sr_unaccepted_index := add64 (bytes_read (sr_output r)) (sr_capacity r)\<rparr>"
    using assms(6) n by (simp add: merge_insert_def Let_def)
  have len: "length (take (b - i) d) = b - i" using b(1) by (auto simp: b_def)
  have "cover ?m' = cover (m1 @ m2) \<union> {i ..< b}" using b(1) len by auto
  also have "\<dots> = (cover (m1 @ m2) \<union> {i ..< i + length d}) \<inter> {..< ?U}"
    using sub mg(7) by (fastforce simp: cover_def b_def)
  also have "\<dots> = cover ?m \<union> {index ..< min ed ?U}" unfolding mg(9) using sub by auto
  finally have cov: "cover ?m' = cover ?m \<union> {index ..< min ed ?U}" .
  have "segs ?lo ?m'" using segs_insert_between [OF mg(4,5,6,1,2)] ins by metis
  moreover have "\<forall>(k, s) \<in> set ?m'. s \<noteq> []" using ne mg(7) len b(1) by auto
  moreover have "add64 c' (b - i) = total_len ?m'"
    using b(2) bnd(3) mg(10) len by (simp add: add64_exact)
  ultimately have "sr_wf r'"
    using cov sub r' by (simp add: sr_wf_def unassembled_bytes_def sr_window_end_def) auto
  then show ?thesis using cov r' by (auto simp: known_def)
qed

lemma merge_string_known:
  assumes "sr_core S r" and "sr_wf r" and "sr_unassembled_index r < index" and "index < sr_window_end r \<or> data = []"
    and "agrees S index data" and "merge_string r data index = Inr r'"
  shows "sr_wf r' \<and> known r' = known r \<union> {index ..< min (index + length data) (sr_window_end r)}"
proof -
  let ?lo = "Suc (sr_unassembled_index r)" and ?m = "sr_unassembled_bytes r" and ?U = "sr_window_end r"
  note bnd = sr_core_bounds [OF assms(1)]
  have segs: "segs ?lo ?m" and agr: "agree_all S ?m" and cnt: "sr_unassembled_cnt r = total_len ?m"
    using assms(1,2) by (auto simp: sr_core_def sr_wf_def unassembled_bytes_def)
  define ed where "ed = index + length data"
  have ed: "add64 index (length data) = ed" "ed < 2 ^ 64"
    using agrees_bound [OF assms(5)] bnd(1) by (simp_all add: u64_simps ed_def)
  have same: ?thesis if run: "merge_loop index ed ?m data index (total_len ?m) = Inr (?m, [], index, total_len ?m)"
    and in_m: "{index ..< ed} \<subseteq> cover ?m"
  proof -
    have "r' = r"
      using assms(6) run cnt by (auto simp: merge_string_def ed intro!: stream_reassembler.equality)
    moreover have "{index ..< min ed ?U} \<subseteq> cover ?m" using in_m by auto
    ultimately show ?thesis using assms(2) by (auto simp: known_def ed_def)
  qed
  show ?thesis
  proof (cases "data = []")
    case True
    then show ?thesis
      using same merge_loop_Nil [OF segs agr bnd(1)] agrees_bound [OF assms(5)] bnd(1) by (simp add: ed_def)
  next
    case False
    then have "index < ed" by (simp add: ed_def)
    from merge_loop_spec [OF segs _ this ed_def [symmetric] agr bnd(1) assms(5), of "total_len ?m"] assms(3)
    consider "merge_loop index ed ?m data index (total_len ?m) = Inr (?m, [], index, total_len ?m)"
        "{index ..< ed} \<subseteq> cover ?m"
      | m1 m2 d i c' where "merge_loop index ed ?m data index (total_len ?m) = Inr (m1 @ m2, d, i, c')"
        "merged S ?lo index ed ?m (total_len ?m) m1 m2 d i c'"
      by fastforce
    then show ?thesis
    proof cases
      case 1
      then show ?thesis by (rule same)
    next
      case (2 m1 m2 d i c')
      have "merge_string r data index = merge_insert r m1 m2 d i c'"
        using 2 cnt by (simp add: merge_string_def ed merge_insert_def merged_def Let_def unassembled_bytes_def)
      moreover have "index < sr_window_end r" using assms(4) False by simp
      ultimately show ?thesis using merge_insert_known [OF assms(1-3) _ 2(2)] assms(6) by (simp add: ed_def)
    qed
  qed
qed

text \<open>The assembly loop loses nothing: the output has room for every stored byte it takes.\<close>

lemma bs_write_all:
  assumes "bs_at S out" and "\<not> input_ended out"
    and "bytes_written out + length d \<le> bytes_read out + bs_capacity out"
  shows "snd (bs_write out d) = length d"
  using assms remaining_capacity_eq [of out] bs_write_count [of out d] by (auto simp: bs_at_def)

lemma assemble_loop_known:
  assumes "bs_at S out" and "segs lo m" and "agree_all S m" and "length S < 2 ^ 64"
    and "\<not> input_ended out" and "cover m \<subseteq> {..< bytes_read out + bs_capacity out}"
    and "assemble_loop out (bytes_written out) cnt m = Inr (out', idx', cnt', m')"
  shows "{..< idx'} \<union> cover m' = {..< bytes_written out} \<union> cover m"
  using assms(1-3,5-7)
proof (induction m arbitrary: out cnt lo)
  case Nil
  then show ?case by auto
next
  case (Cons e m)
  obtain k s where e: "e = (k, s)" by force
  have m: "segs (k + length s) m" and agr: "agrees S k s" "agree_all S m" and cov: "cover m \<subseteq> {..< bytes_read out + bs_capacity out}"
    using Cons.prems e segs_Cons_lower by auto
  have ks: "k + length s < 2 ^ 64" using agrees_bound [OF agr(1)] assms(4) by simp
  let ?idx = "bytes_written out"
  consider (later) "?idx < k" | (stale) "k + length s \<le> ?idx" | (overlap) "k \<le> ?idx" "?idx < k + length s"
    by linarith
  then show ?case
  proof cases
    case later
    then show ?thesis using Cons.prems(6) e by auto
  next
    case stale
    then have "assemble_loop out ?idx (sub64 cnt (length s)) m = Inr (out', idx', cnt', m')"
      using Cons.prems(6) e ks by (simp add: add64_exact)
    then have "{..< idx'} \<union> cover m' = {..< ?idx} \<union> cover m"
      using Cons.IH [OF Cons.prems(1) m agr(2) Cons.prems(4) cov] by simp
    moreover have "{..< ?idx} \<union> cover (e # m) = {..< ?idx} \<union> cover m" using e stale by auto
    ultimately show ?thesis by (simp only:)
  next
    case overlap
    let ?d = "drop (?idx - k) s" let ?w = "bs_write out ?d"
    have "agrees S ?idx ?d" using agrees_drop [OF agr(1), of "?idx - k"] overlap by simp
    note w = bs_at_write [OF Cons.prems(1) this assms(4)]
    have "k + length s \<le> bytes_read out + bs_capacity out"
      using Cons.prems(5) e overlap by (cases s) (auto simp: subset_iff less_eq_Suc_le [symmetric])
    then have "snd ?w = length ?d" using overlap by (intro bs_write_all [OF Cons.prems(1,4)]) simp
    then have pos: "bytes_written (fst ?w) = k + length s" using w overlap by simp
    then have "assemble_loop (fst ?w) (bytes_written (fst ?w)) (sub64 cnt (length s)) m = Inr (out', idx', cnt', m')"
      using Cons.prems(6) e ks overlap w by (simp add: u64_simps case_prod_beta)
    moreover have "same_reader out (fst ?w)" by (simp add: same_reader_write)
    ultimately have "{..< idx'} \<union> cover m' = {..< bytes_written (fst ?w)} \<union> cover m"
      using Cons.IH [of "fst ?w", OF _ m agr(2)] w Cons.prems(4) cov by (simp add: same_reader_def)
    moreover have "{..< ?idx} \<union> cover (e # m) = {..< k + length s} \<union> cover m" using e overlap by auto
    ultimately show ?thesis by (simp only: pos)
  qed
qed

text \<open>
  The index up to which a push makes bytes known: data beyond the assembled part is accepted up to
  the end of the window; data that continues the assembled part is accepted up to the end of the
  window and of the room that neither the buffered nor the stored bytes occupy.
\<close>

definition accepted_end :: "stream_reassembler \<Rightarrow> byte list \<Rightarrow> nat \<Rightarrow> nat" where
  "accepted_end r data index =
     (let stop = min (index + length data) (sr_window_end r) in
      if sr_unassembled_index r < index then stop
      else sr_unassembled_index r +
        min (stop - sr_unassembled_index r)
          (sr_capacity r - buffer_size (sr_output r) - unassembled_bytes r))"

lemma push_in_order_known:
  assumes "sr_core S r" and "sr_wf r" and "agrees S index data" and "index \<le> sr_unassembled_index r"
    and "sr_unassembled_index r \<le> index + length data" and "\<not> input_ended (sr_output r)"
    and "sr_unaccepted_index r = sr_window_end r" and "push_in_order r data index = Inr r'"
  shows "sr_wf r' \<and> known r' = known r \<union> {index ..< accepted_end r data index}"
proof -
  let ?i = "sr_unassembled_index r" and ?m = "sr_unassembled_bytes r" and ?d = "drop (sr_unassembled_index r - index) data"
  note bnd = sr_core_bounds [OF assms(1)]
  have at: "bs_at S (sr_output r)" and i: "?i = bytes_written (sr_output r)" and segs: "segs 0 ?m" and agr: "agree_all S ?m"
    and cap: "bs_capacity (sr_output r) = sr_capacity r" and cov: "cover ?m \<subseteq> {..< sr_window_end r}"
    and cnt: "sr_unassembled_cnt r = total_len ?m"
    using assms(1,2) by (simp_all add: sr_core_def sr_wf_def unassembled_bytes_def)
  define n where "n = accepted_end r data index - ?i"
  have n: "accepted_end r data index = ?i + n" "n \<le> index + length data - ?i" "?i + n \<le> sr_window_end r"
    using assms(4,5) bnd by (auto simp: n_def accepted_end_def Let_def sr_window_end_def)
  obtain out cnt' m0 m where spec: "r' = r\<lparr>sr_output := out, sr_unassembled_index := bytes_written out,
      sr_unassembled_cnt := cnt', sr_unassembled_bytes := m\<rparr>"
    "?m = m0 @ m" "same_reader (sr_output r) out" "segs (Suc (bytes_written out)) m"
    "total_len ?m \<le> sr_unassembled_cnt r \<longrightarrow> sr_unassembled_cnt r < 2 ^ 64 \<longrightarrow>
       cnt' + total_len ?m = sr_unassembled_cnt r + total_len m"
    using push_in_order_spec [OF assms(1,3,4,5)] assms(8) by auto
  have "unassembled_bytes r < 2 ^ 64" using sr_wf_capacity [OF assms(1,2)] bnd(3) by simp
  then have cnt': "cnt' = total_len m" using spec(5) cnt by (simp add: unassembled_bytes_def)
  have "sr_wf r'"
    using spec(1-4) assms(2) cnt'
    by (auto simp: sr_wf_def unassembled_bytes_def sr_window_end_def same_reader_def)
  moreover have "known r' = {..< ?i + n} \<union> cover ?m"
  proof -
    let ?w = "bs_write (sr_output r) (take n ?d)"
    have "index + length data < 2 ^ 64" "sr_window_end r < 2 ^ 64"
      using agrees_bound [OF assms(3)] bnd(1,6) by (simp_all add: sr_window_end_def)
    then have size: "min (sub64 (min (add64 index (length data)) (sr_unaccepted_index r)) ?i)
      (sub64 (sub64 (sr_capacity r) (buffer_size (sr_output r))) (unassembled_bytes r)) = n"
      using assms(4,5,7) bnd sr_wf_capacity [OF assms(1,2)] n(1)
      by (simp add: u64_simps accepted_end_def sr_window_end_def buffer_size_def)
    have len: "length (take n ?d) = n" using n(2) assms(4) by simp
    have "agrees S (bytes_written (sr_output r)) (take n ?d)"
      using agrees_take [OF agrees_drop [OF assms(3), of "?i - index"]] assms(4,5) i by simp
    note w = bs_at_write [OF at this bnd(1)]
    have "snd ?w = n"
      using bs_write_all [OF at assms(6), of "take n ?d"] len n(3) cap i by (simp add: sr_window_end_def)
    then have wn: "bytes_written (fst ?w) = ?i + n" using w i by simp
    have "?i + n < 2 ^ 64" using n(3) bnd(6) by (simp add: sr_window_end_def)
    then have step: "add64 ?i (snd ?w) = bytes_written (fst ?w)" "sub64 ?i index = ?i - index"
      using wn \<open>snd ?w = n\<close> assms(4) bnd(1,2) by (simp_all add: u64_simps)
    have rd: "\<not> input_ended (fst ?w)" "bytes_read (fst ?w) + bs_capacity (fst ?w) = sr_window_end r"
      using assms(6) cap same_reader_write [OF same_reader_refl, of "sr_output r"]
      by (simp_all add: same_reader_def sr_window_end_def)
    obtain out2 cnt2 m2 where run: "assemble_loop (fst ?w) (bytes_written (fst ?w)) (sr_unassembled_cnt r) ?m =
        Inr (out2, bytes_written out2, cnt2, m2)"
      using assemble_loop_safe [OF _ segs agr bnd(1)] w by blast
    have "{..< bytes_written out2} \<union> cover m2 = {..< bytes_written (fst ?w)} \<union> cover ?m"
      using w cov rd by (intro assemble_loop_known [OF _ segs agr bnd(1) _ _ run]) simp_all
    moreover have "r' = r\<lparr>sr_output := out2, sr_unassembled_index := bytes_written out2,
        sr_unassembled_cnt := cnt2, sr_unassembled_bytes := m2\<rparr>"
      using assms(4,5,8) run size step by (simp add: push_in_order_def Let_def case_prod_beta)
    ultimately show ?thesis using wn by (simp add: known_def)
  qed
  moreover have "{..< ?i + n} \<union> cover ?m = known r \<union> {index ..< ?i + n}"
    using assms(4) by (auto simp: known_def)
  ultimately show ?thesis using n(1) by simp
qed

lemma sr_wf_frame [simp]:
  "sr_wf (r\<lparr>sr_eof_index := e\<rparr>) = sr_wf r" "known (r\<lparr>sr_eof_index := e\<rparr>) = known r"
  "sr_wf (r\<lparr>sr_unaccepted_index := u\<rparr>) = sr_wf r" "known (r\<lparr>sr_unaccepted_index := u\<rparr>) = known r"
  "sr_wf (r\<lparr>sr_output := end_input (sr_output r)\<rparr>) = sr_wf r"
  "known (r\<lparr>sr_output := s\<rparr>) = known r"
  by (simp_all add: sr_wf_def known_def sr_window_end_def unassembled_bytes_def bytes_read_def)

lemma end_at_eof_known [simp]: "sr_wf (end_at_eof r) = sr_wf r" "known (end_at_eof r) = known r"
  by (simp_all add: end_at_eof_def)

lemma accepted_end_frame [simp]:
  "accepted_end (r\<lparr>sr_eof_index := e\<rparr>) data index = accepted_end r data index"
  "accepted_end (r\<lparr>sr_unaccepted_index := u\<rparr>) data index = accepted_end r data index"
  by (simp_all add: accepted_end_def sr_window_end_def unassembled_bytes_def Let_def)

lemma accepted_end_stale:
  assumes "index + length data \<le> sr_unassembled_index r"
  shows "known r = known r \<union> {index ..< accepted_end r data index}"
  using assms by (auto simp: known_def accepted_end_def)

lemma push_branch_known:
  assumes "sr_core S r" and "sr_wf r" and "agrees S index data"
    and "sr_unassembled_index r \<le> index + length data" and "\<not> input_ended (sr_output r)"
    and "sr_unaccepted_index r = sr_window_end r"
    and "index < sr_window_end r \<or> data = [] \<or> index \<le> sr_unassembled_index r"
    and "(if sr_unassembled_index r < index then merge_string r data index
          else push_in_order r data index) = Inr r'"
  shows "sr_wf r' \<and> known r' = known r \<union> {index ..< accepted_end r data index}"
proof (cases "sr_unassembled_index r < index")
  case True
  then show ?thesis
    using assms(7,8) merge_string_known [OF assms(1,2) True _ assms(3)] by (fastforce simp: accepted_end_def)
next
  case False
  then show ?thesis using assms(8) push_in_order_known [OF assms(1-3) _ assms(4-6)] by simp
qed

lemma push_substring_keeps_known:
  assumes "sr_safe S r" and "sr_wf r" and "agrees S index data"
    and "eof \<Longrightarrow> index + length data = length S" and "index \<noteq> sr_window_end r \<or> data = []"
    and "push_substring r data index eof = Inr r'"
  shows "sr_wf r' \<and> known r' = known r \<union> {index ..< accepted_end r data index}"
proof -
  define r1 where "r1 = (if eof then r\<lparr>sr_eof_index := add64 index (length data)\<rparr> else r)"
  define r2 where "r2 = r1\<lparr>sr_unaccepted_index := add64 (bytes_read (sr_output r1)) (sr_capacity r1)\<rparr>"
  have bnd: "length S < 2 ^ 64" "sr_unassembled_index r \<le> length S" "bytes_read (sr_output r) + sr_capacity r < 2 ^ 64"
    using assms(1) sr_core_bounds [of S r] by (simp_all add: sr_safe_def)
  have len: "index + length data \<le> length S" using agrees_bound [OF assms(3)] .
  then have end64: "add64 index (length data) = index + length data" using bnd(1) by (simp add: add64_exact)
  have core: "sr_core S r2" and wf: "sr_wf r1" "sr_wf r2" and kn: "known r1 = known r" "known r2 = known r"
    and ae: "accepted_end r1 data index = accepted_end r data index" "accepted_end r2 data index = accepted_end r data index"
    and eof_ok: "sr_eof_ok S r1"
    using assms(1,2,4) end64 by (auto simp: r1_def r2_def sr_safe_def sr_eof_ok_def)
  have same: "sr_output r1 = sr_output r" "sr_unassembled_index r1 = sr_unassembled_index r"
    "sr_output r2 = sr_output r" "sr_unassembled_index r2 = sr_unassembled_index r"
    "sr_window_end r2 = sr_window_end r" "sr_unaccepted_index r2 = sr_window_end r"
    using bnd(3) by (simp_all add: r1_def r2_def sr_window_end_def add64_exact)
  have eq: "push_substring r data index eof =
      (if sr_eof_index r1 \<le> sr_unassembled_index r1 then Inr (r1\<lparr>sr_output := end_input (sr_output r1)\<rparr>)
       else if add64 index (length data) < sr_unassembled_index r2 \<or> sr_unaccepted_index r2 < index then Inr r2
       else bind_res (if sr_unassembled_index r2 < index then merge_string r2 data index
              else push_in_order r2 data index) (\<lambda>r. Inr (end_at_eof r)))"
    by (simp only: push_substring_def Let_def r1_def r2_def)
  consider (ended) "sr_eof_index r1 \<le> sr_unassembled_index r1"
    | (stale) "\<not> sr_eof_index r1 \<le> sr_unassembled_index r1" "index + length data < sr_unassembled_index r"
    | (ahead) "\<not> sr_eof_index r1 \<le> sr_unassembled_index r1" "\<not> index + length data < sr_unassembled_index r"
        "sr_window_end r < index"
    | (push) "\<not> sr_eof_index r1 \<le> sr_unassembled_index r1" "\<not> index + length data < sr_unassembled_index r"
        "\<not> sr_window_end r < index"
    by blast
  then show ?thesis
  proof cases
    case ended
    then have "index + length data \<le> sr_unassembled_index r"
      using eof_ok len bnd same by (auto simp: sr_eof_ok_def)
    from accepted_end_stale [OF this] show ?thesis using eq ended assms(6) wf kn by auto
  next
    case stale
    then have "index + length data \<le> sr_unassembled_index r" by simp
    from accepted_end_stale [OF this] show ?thesis using eq stale assms(6) wf kn same end64 by auto
  next
    case ahead
    moreover have "sr_unassembled_index r \<le> sr_window_end r"
      using assms(1) sr_core_bounds [of S r] by (simp add: sr_safe_def sr_window_end_def)
    ultimately show ?thesis using eq assms(6) wf kn same end64 by (auto simp: accepted_end_def)
  next
    case push
    then have "bind_res (if sr_unassembled_index r2 < index then merge_string r2 data index
        else push_in_order r2 data index) (\<lambda>r. Inr (end_at_eof r)) = Inr r'"
      using eq assms(6) same end64 by simp
    then obtain r3 where r3: "(if sr_unassembled_index r2 < index then merge_string r2 data index
        else push_in_order r2 data index) = Inr r3" "r' = end_at_eof r3"
      by (auto simp only: bind_res_Inr_iff sum.inject)
    have "\<not> input_ended (sr_output r2)" using push(1) eof_ok same by (auto simp: sr_eof_ok_def)
    moreover have "index < sr_window_end r2 \<or> data = [] \<or> index \<le> sr_unassembled_index r2"
      using push(3) assms(5) same by auto
    ultimately show ?thesis
      using push_branch_known [OF core wf(2) assms(3) _ _ _ _ r3(1)] push same kn ae r3(2) by simp
  qed
qed

lemma accepted_end_progress:
  assumes "sr_core S r" and "sr_wf r" and "index \<le> sr_unassembled_index r"
    and "sr_unassembled_index r < index + length data" and "sr_unassembled_index r < sr_window_end r"
  shows "sr_unassembled_index r < accepted_end r data index"
  using sr_wf_room [OF assms(1,2,5)] assms(3-5) by (auto simp: accepted_end_def)

lemma known_next_iff: "sr_wf r \<Longrightarrow> sr_unassembled_index r \<notin> known r"
  using segs_cover by (fastforce simp: known_def sr_wf_def)


lemma sr_wf_StreamReassembler [simp]: "sr_wf (StreamReassembler capacity)"
  by (simp add: sr_wf_def StreamReassembler_def unassembled_bytes_def)

lemma StreamReassembler_known [simp]: "known (StreamReassembler capacity) = {}"
  by (simp add: known_def StreamReassembler_def)

lemma StreamReassembler_window [simp]: "sr_window_end (StreamReassembler capacity) = capacity"
  by (simp add: sr_window_end_def StreamReassembler_def ByteStream_def bytes_read_def)


lemma push_substring_advances:
  assumes "sr_safe S r" and "sr_wf r" and "agrees S index data"
    and "eof \<longrightarrow> index + length data = length S"
    and "index \<le> sr_unassembled_index r" and "sr_unassembled_index r < index + length data"
    and "sr_unassembled_index r < sr_window_end r"
  shows "\<exists>r'. push_substring r data index eof = Inr r' \<and>
    bytes_written (sr_output r) < bytes_written (sr_output r')"
proof -
  have core: "sr_core S r" using assms(1) by (simp add: sr_safe_def)
  have "index + length data < 2 ^ 64"
    using agrees_bound [OF assms(3)] sr_core_bounds(1) [OF core] by simp
  then have "eof \<Longrightarrow> add64 index (length data) = length S" using assms(4) by (simp add: add64_exact)
  from push_substring_safe_step [OF assms(1) disjI1 [OF assms(3)] this] obtain r' where
    r': "push_substring r data index eof = Inr r'" "sr_safe S r'" "sr_unassembled_index r \<le> sr_unassembled_index r'" by blast
  have wf: "sr_wf r'" and "known r' = known r \<union> {index ..< accepted_end r data index}"
    using push_substring_keeps_known [OF assms(1-3) _ _ r'(1)] assms(4,5,7) by auto
  then have "sr_unassembled_index r \<in> known r'"
    using accepted_end_progress [OF core assms(2,5,6,7)] assms(5) by simp
  then have "sr_unassembled_index r \<noteq> sr_unassembled_index r'" using known_next_iff [OF wf] by auto
  then show ?thesis using r' core by (auto simp: sr_safe_def sr_core_def)
qed



section \<open>Where the code falls short of its contract\<close>

lemmas sr_eval = push_substring_def merge_string_def push_in_order_def end_at_eof_def substr_def substr_from_def
  StreamReassembler_def ByteStream_def bytes_read_def bytes_written_def buffer_size_def unassembled_bytes_def
  input_ended_def bs_write_def bs_read_def pop_output_def peek_output_def remaining_capacity_def Let_def u64_simps

text \<open>
  The test \<^verbatim>\<open>index > _unaccepted_index\<close> admits a substring that starts exactly at the end of the window: an
  empty string is stored under its index. When the window has moved on and the same substring arrives
  again, \<^verbatim>\<open>insert\<close> keeps the empty string while \<^verbatim>\<open>_unassembled_cnt\<close> is increased: the byte is lost and
  \<^verbatim>\<open>unassembled_bytes()\<close> reports one byte although no byte is stored.
\<close>

lemma push_at_window_end_leaks:
  "\<exists>r. sr_run (StreamReassembler 2) [Push [3] 2 False, Push [1] 0 False, Take_output 1, Push [3] 2 False] = Inr (r, [1]) \<and>
    sr_unassembled_bytes r = [(2, [])] \<and> unassembled_bytes r = 1"
  by (simp add: sr_eval)

text \<open>
  The in-order branch reserves the space of the stored bytes even where the new substring contains
  them: with capacity 4 and the second byte of the stream stored, the substring of the first four bytes
  is cut to three, although all four fit.
\<close>

lemma push_overlap_drops_byte:
  "\<exists>r. sr_run (StreamReassembler 4) [Push [2] 1 False, Push [1, 2, 3, 4] 0 False] = Inr (r, []) \<and>
    bs_byte_stream (sr_output r) = [1, 2, 3] \<and> unassembled_bytes r = 0"
  by (simp add: sr_eval)

end
