(* ===== verification/Buffers.thy ===== *)
theory Buffers
  imports Sponge_Prelude
begin

text \<open>
  \<^verbatim>\<open>libsponge/util/buffer.{hh,cc}\<close>: read-only strings that can discard bytes from the front. A
  \<^verbatim>\<open>Buffer\<close> shares its storage and moves an offset; a \<^verbatim>\<open>BufferList\<close> is a deque of them and a
  \<^verbatim>\<open>BufferViewList\<close> a deque of string views. The storage is never written, so sharing is not
  observable and a record of the pointer's target and the offset is the whole state. All three
  implement one contract, the locale \<open>byte_view\<close>: the contents are a byte string, of which
  \<^verbatim>\<open>remove_prefix\<close> drops a prefix or throws.
\<close>

section \<open>Buffer\<close>

record buffer =
  storage :: "byte list option"
  starting_offset :: u64

definition Buffer :: "byte list \<Rightarrow> buffer" where
  "Buffer s = \<lparr>storage = Some s, starting_offset = 0\<rparr>"

definition empty_Buffer :: buffer where
  "empty_Buffer = \<lparr>storage = None, starting_offset = 0\<rparr>"

definition buffer_str :: "buffer \<Rightarrow> byte list" where
  "buffer_str b = (case storage b of None \<Rightarrow> [] | Some s \<Rightarrow> drop (starting_offset b) s)"

definition buffer_at :: "buffer \<Rightarrow> u64 \<Rightarrow> byte res" where
  "buffer_at b n = (if n < length (buffer_str b) then Inr (buffer_str b ! n) else Inl Out_of_range)"

definition buf_size :: "buffer \<Rightarrow> u64" where
  "buf_size b = length (buffer_str b)"

definition buffer_copy :: "buffer \<Rightarrow> byte list" where
  "buffer_copy b = buffer_str b"

definition buffer_remove_prefix :: "buffer \<Rightarrow> u64 \<Rightarrow> buffer res" where
  "buffer_remove_prefix b n =
     (if length (buffer_str b) < n then Inl Out_of_range
      else
        let b = b\<lparr>starting_offset := add64 (starting_offset b) n\<rparr> in
        Inr (case storage b of
            None \<Rightarrow> b
          | Some s \<Rightarrow> if starting_offset b = length s then b\<lparr>storage := None\<rparr> else b))"

section \<open>BufferList\<close>

type_synonym buffer_list = "buffer list"

definition BufferList :: "buffer \<Rightarrow> buffer_list" where
  "BufferList b = [b]"

definition BufferList_of_string :: "byte list \<Rightarrow> buffer_list" where
  "BufferList_of_string s = [Buffer s]"

definition bl_append :: "buffer_list \<Rightarrow> buffer_list \<Rightarrow> buffer_list" where
  "bl_append bl other = foldl (\<lambda>bs buf. bs @ [buf]) bl other"

definition bl_to_Buffer :: "buffer_list \<Rightarrow> buffer res" where
  "bl_to_Buffer bl =
     (case bl of
        [] \<Rightarrow> Inr empty_Buffer
      | [b] \<Rightarrow> Inr b
      | _ \<Rightarrow> Inl (Runtime_error ''BufferList: please use concatenate() to combine a multi-Buffer BufferList into one Buffer''))"

definition concatenate :: "buffer_list \<Rightarrow> byte list" where
  "concatenate bl = foldl (\<lambda>ret buf. ret @ buffer_str buf) [] bl"

definition bl_size :: "buffer_list \<Rightarrow> u64" where
  "bl_size bl = foldl (\<lambda>ret buf. ret + buf_size buf) 0 bl"

text \<open>The \<^verbatim>\<open>while (n > 0)\<close> loops; each round pops the front or stops.\<close>

fun bl_remove_prefix :: "buffer_list \<Rightarrow> u64 \<Rightarrow> buffer_list res" where
  "bl_remove_prefix [] n = (if n = 0 then Inr [] else Inl Out_of_range)"
| "bl_remove_prefix (b # bl) n =
     (if n = 0 then Inr (b # bl)
      else if n < length (buffer_str b) then bind_res (buffer_remove_prefix b n) (\<lambda>b. Inr (b # bl))
      else bl_remove_prefix bl (sub64 n (length (buffer_str b))))"

section \<open>BufferViewList\<close>

type_synonym buffer_view_list = "byte list list"

definition BufferViewList :: "buffer_list \<Rightarrow> buffer_view_list" where
  "BufferViewList bl = map buffer_str bl"

definition bvl_size :: "buffer_view_list \<Rightarrow> u64" where
  "bvl_size vl = foldl (\<lambda>ret v. ret + length v) 0 vl"

fun bvl_remove_prefix :: "buffer_view_list \<Rightarrow> u64 \<Rightarrow> buffer_view_list res" where
  "bvl_remove_prefix [] n = (if n = 0 then Inr [] else Inl Out_of_range)"
| "bvl_remove_prefix (v # vl) n =
     (if n = 0 then Inr (v # vl)
      else if n < length v then Inr (drop n v # vl)
      else bvl_remove_prefix vl (sub64 n (length v)))"

section \<open>The contract\<close>

text \<open>
  The string a view stands for, its size, and the removal of a prefix. Sizes and arguments are
  below \<open>2 ^ 64\<close>, the bound of \<^verbatim>\<open>size_t\<close>.
\<close>

locale byte_view =
  fixes contents :: "'v \<Rightarrow> byte list"
    and size_of :: "'v \<Rightarrow> u64"
    and remove :: "'v \<Rightarrow> u64 \<Rightarrow> 'v res"
    and ok :: "'v \<Rightarrow> bool"
  assumes size_of: "size_of v = length (contents v)"
    and remove_ok: "ok v \<Longrightarrow> n \<le> length (contents v) \<Longrightarrow>
      \<exists>v'. remove v n = Inr v' \<and> ok v' \<and> contents v' = drop n (contents v)"
    and remove_throws: "ok v \<Longrightarrow> n < 2 ^ 64 \<Longrightarrow> length (contents v) < n \<Longrightarrow> remove v n = Inl Out_of_range"
begin

lemma remove_Inr:
  assumes "ok v" and "n < 2 ^ 64" and "remove v n = Inr v'"
  shows "n \<le> length (contents v) \<and> ok v' \<and> contents v' = drop n (contents v)"
  using assms remove_ok [of v n] remove_throws [of v n] by (cases "n \<le> length (contents v)") auto

lemma remove_size:
  assumes "ok v" and "n < 2 ^ 64" and "remove v n = Inr v'"
  shows "size_of v' + n = size_of v"
  using remove_Inr [OF assms] by (simp add: size_of)

lemma remove_twice:
  assumes "ok v" and "m + n < 2 ^ 64" and "remove v m = Inr v1" and "remove v1 n = Inr v2"
  shows "\<exists>v'. remove v (m + n) = Inr v' \<and> contents v' = contents v2"
proof -
  have 1: "m \<le> length (contents v)" "ok v1" "contents v1 = drop m (contents v)"
    using remove_Inr [OF assms(1) _ assms(3)] assms(2) by auto
  have 2: "n \<le> length (contents v1)" "contents v2 = drop n (contents v1)"
    using remove_Inr [OF 1(2) _ assms(4)] assms(2) by auto
  have "m + n \<le> length (contents v)" using 1 2 by simp
  from remove_ok [OF assms(1) this] show ?thesis using 1 2 by (auto simp: add.commute)
qed

end

subsection \<open>Buffer implements the contract\<close>

definition buffer_ok :: "buffer \<Rightarrow> bool" where
  "buffer_ok b \<longleftrightarrow> (case storage b of None \<Rightarrow> True | Some s \<Rightarrow> starting_offset b \<le> length s \<and> length s < 2 ^ 64)"

lemma buffer_str_Buffer [simp]: "buffer_str (Buffer s) = s" "buffer_str empty_Buffer = []"
  by (simp_all add: buffer_str_def Buffer_def empty_Buffer_def)

lemma buffer_ok_Buffer [simp]: "buffer_ok (Buffer s) \<longleftrightarrow> length s < 2 ^ 64" "buffer_ok empty_Buffer"
  by (simp_all add: buffer_ok_def Buffer_def empty_Buffer_def)

lemma buffer_remove_prefix_ok:
  assumes "buffer_ok b" and "n \<le> length (buffer_str b)"
  shows "\<exists>b'. buffer_remove_prefix b n = Inr b' \<and> buffer_ok b' \<and> buffer_str b' = drop n (buffer_str b)"
proof (cases "storage b")
  case None
  then show ?thesis using assms by (auto simp: buffer_remove_prefix_def buffer_str_def buffer_ok_def Let_def)
next
  case (Some s)
  then have "add64 (starting_offset b) n = starting_offset b + n"
    using assms by (intro add64_exact) (auto simp: buffer_str_def buffer_ok_def)
  then show ?thesis
    using Some assms by (auto simp: buffer_remove_prefix_def buffer_str_def buffer_ok_def Let_def add.commute)
qed

interpretation bv: byte_view buffer_str buf_size buffer_remove_prefix buffer_ok
proof
  show "\<exists>v'. buffer_remove_prefix v n = Inr v' \<and> buffer_ok v' \<and> buffer_str v' = drop n (buffer_str v)"
    if "buffer_ok v" "n \<le> length (buffer_str v)" for v n using that by (rule buffer_remove_prefix_ok)
qed (simp_all add: buf_size_def buffer_remove_prefix_def)

subsection \<open>BufferList and BufferViewList implement the contract\<close>

lemma bl_append_eq [simp]: "bl_append bl other = bl @ other"
  unfolding bl_append_def by (induction other arbitrary: bl) simp_all

lemma concatenate_eq: "concatenate bl = concat (map buffer_str bl)"
proof -
  have "foldl (\<lambda>ret buf. ret @ buffer_str buf) xs bl = xs @ concat (map buffer_str bl)" for xs
    by (induction bl arbitrary: xs) simp_all
  then show ?thesis by (simp add: concatenate_def)
qed

lemma concatenate_simps [simp]:
  "concatenate [] = []" "concatenate (b # bl) = buffer_str b @ concatenate bl"
  "concatenate (bl @ bl') = concatenate bl @ concatenate bl'"
  by (simp_all add: concatenate_eq)

lemma bl_size_eq: "bl_size bl = length (concatenate bl)"
proof -
  have "foldl (\<lambda>ret buf. ret + buf_size buf) n bl = n + length (concatenate bl)" for n
    by (induction bl arbitrary: n) (simp_all add: buf_size_def)
  then show ?thesis by (simp add: bl_size_def)
qed

definition bl_ok :: "buffer_list \<Rightarrow> bool" where
  "bl_ok bl \<longleftrightarrow> (\<forall>b \<in> set bl. buffer_ok b) \<and> length (concatenate bl) < 2 ^ 64"

lemma bl_remove_prefix_ok:
  assumes "bl_ok bl" and "n \<le> length (concatenate bl)"
  shows "\<exists>bl'. bl_remove_prefix bl n = Inr bl' \<and> bl_ok bl' \<and> concatenate bl' = drop n (concatenate bl)"
  using assms
proof (induction bl n rule: bl_remove_prefix.induct)
  case (2 b bl n)
  have b: "buffer_ok b" "bl_ok bl" "n < 2 ^ 64" using "2.prems" by (auto simp: bl_ok_def)
  consider "n = 0" | "0 < n" "n < length (buffer_str b)" | "0 < n" "length (buffer_str b) \<le> n" by linarith
  then show ?case
  proof cases
    case 2
    then show ?thesis
      using buffer_remove_prefix_ok [OF b(1), of n] "2.prems" by (auto simp: bl_ok_def)
  next
    case 3
    then show ?thesis using "2.IH" b "2.prems"(2) by (simp add: sub64_exact)
  qed (use "2.prems" in simp)
qed simp

lemma bl_remove_prefix_throws:
  "n < 2 ^ 64 \<Longrightarrow> length (concatenate bl) < n \<Longrightarrow> bl_remove_prefix bl n = Inl Out_of_range"
  by (induction bl n rule: bl_remove_prefix.induct) (simp_all add: sub64_exact)

interpretation blv: byte_view concatenate bl_size bl_remove_prefix bl_ok
proof
  show "\<exists>v'. bl_remove_prefix v n = Inr v' \<and> bl_ok v' \<and> concatenate v' = drop n (concatenate v)"
    if "bl_ok v" "n \<le> length (concatenate v)" for v n using that by (rule bl_remove_prefix_ok)
qed (simp_all add: bl_size_eq bl_remove_prefix_throws)

lemma bvl_size_eq: "bvl_size vl = length (concat vl)"
proof -
  have "foldl (\<lambda>ret v. ret + length v) n vl = n + length (concat vl)" for n
    by (induction vl arbitrary: n) simp_all
  then show ?thesis by (simp add: bvl_size_def)
qed

definition bvl_ok :: "buffer_view_list \<Rightarrow> bool" where
  "bvl_ok vl \<longleftrightarrow> length (concat vl) < 2 ^ 64"

lemma bvl_remove_prefix_ok:
  assumes "bvl_ok vl" and "n \<le> length (concat vl)"
  shows "\<exists>vl'. bvl_remove_prefix vl n = Inr vl' \<and> bvl_ok vl' \<and> concat vl' = drop n (concat vl)"
  using assms
  by (induction vl n rule: bvl_remove_prefix.induct) (auto simp: bvl_ok_def sub64_exact not_less)

lemma bvl_remove_prefix_throws:
  "n < 2 ^ 64 \<Longrightarrow> length (concat vl) < n \<Longrightarrow> bvl_remove_prefix vl n = Inl Out_of_range"
  by (induction vl n rule: bvl_remove_prefix.induct) (simp_all add: sub64_exact)

interpretation bvlv: byte_view concat bvl_size bvl_remove_prefix bvl_ok
proof
  show "\<exists>v'. bvl_remove_prefix v n = Inr v' \<and> bvl_ok v' \<and> concat v' = drop n (concat v)"
    if "bvl_ok v" "n \<le> length (concat v)" for v n using that by (rule bvl_remove_prefix_ok)
qed (simp_all add: bvl_size_eq bvl_remove_prefix_throws)

section \<open>Properties\<close>

text \<open>
  C21. A \<^verbatim>\<open>BufferList\<close> behaves as the string it stands for: removing \<open>m\<close> and then \<open>n\<close> bytes from the front
  of a list of buffers, which pops whole buffers and cuts into one, leaves the string without its
  first \<open>m + n\<close> bytes, and removing more than there is throws \<^verbatim>\<open>out_of_range\<close>.
\<close>

theorem bl_remove_prefix_refines:
  assumes "bl_ok bl" and "m < 2 ^ 64" and "n < 2 ^ 64"
  shows "bind_res (bl_remove_prefix bl m) (\<lambda>bl. bind_res (bl_remove_prefix bl n) (\<lambda>bl. Inr (concatenate bl))) =
    (if m + n \<le> length (concatenate bl) then Inr (drop (m + n) (concatenate bl)) else Inl Out_of_range)"
proof (cases "m \<le> length (concatenate bl)")
  case True
  from blv.remove_ok [OF assms(1) this] obtain bl1 where
    bl1: "bl_remove_prefix bl m = Inr bl1" "bl_ok bl1" "concatenate bl1 = drop m (concatenate bl)" by blast
  then show ?thesis
    using True blv.remove_ok [OF bl1(2), of n] blv.remove_throws [OF bl1(2) assms(3)]
    by (cases "n \<le> length (concatenate bl1)") (auto simp: add.commute)
next
  case False
  then show ?thesis using blv.remove_throws [OF assms(1,2)] by simp
qed

theorem bl_remove_prefix_refines_witness:
  "bind_res (bl_remove_prefix [Buffer [1, 2], Buffer [3, 4, 5]] 1)
     (\<lambda>bl. bind_res (bl_remove_prefix bl 2) (\<lambda>bl. Inr (concatenate bl))) = Inr [4, 5]"
  using bl_remove_prefix_refines [of "[Buffer [1, 2], Buffer [3, 4, 5]]" 1 2] by (simp add: bl_ok_def)

end
