(* ===== verification/Net_Parser.thy ===== *)
theory Net_Parser
  imports Buffers
begin

text \<open>
  \<^verbatim>\<open>libsponge/util/parser.{hh,cc}\<close>: reading and writing of big-endian integers. A \<^verbatim>\<open>NetParser\<close> is a buffer
  with a sticky error; the template \<^verbatim>\<open>_parse_int<T>\<close> is polymorphic in the word length with
  \<^verbatim>\<open>sizeof(T)\<close> as an argument. The calls \<^verbatim>\<open>Buffer::at\<close> and \<^verbatim>\<open>Buffer::remove_prefix\<close> may throw, so the
  reading functions return an exception or a value; the lemmas show that they never throw, that
  they read what \<^verbatim>\<open>NetUnparser\<close> wrote, and that a short buffer sets \<^verbatim>\<open>PacketTooShort\<close>.
\<close>

unbundle bit_operations_syntax

section \<open>Definitions\<close>

datatype ParseResult =
  NoError | BadChecksum | PacketTooShort | WrongIPVersion | HeaderTooShort | TruncatedPacket | Unsupported

text \<open>\<^verbatim>\<open>as_string\<close> indexes an array of six names; an index beyond its end is \<^const>\<open>None\<close>.\<close>

definition parse_result_code :: "ParseResult \<Rightarrow> nat" where
  "parse_result_code r =
     (case r of NoError \<Rightarrow> 0 | BadChecksum \<Rightarrow> 1 | PacketTooShort \<Rightarrow> 2 | WrongIPVersion \<Rightarrow> 3
      | HeaderTooShort \<Rightarrow> 4 | TruncatedPacket \<Rightarrow> 5 | Unsupported \<Rightarrow> 6)"

definition as_string :: "ParseResult \<Rightarrow> string option" where
  "as_string r =
     (let names = [''NoError'', ''BadChecksum'', ''PacketTooShort'', ''WrongIPVersion'', ''HeaderTooShort'',
            ''TruncatedPacket'']
      in if parse_result_code r < length names then Some (names ! parse_result_code r) else None)"

record net_parser =
  np_buffer :: buffer
  np_error :: ParseResult

definition NetParser :: "buffer \<Rightarrow> net_parser" where
  "NetParser b = \<lparr>np_buffer = b, np_error = NoError\<rparr>"

definition parser_error :: "net_parser \<Rightarrow> bool" where
  "parser_error p \<longleftrightarrow> np_error p \<noteq> NoError"

definition check_size :: "net_parser \<Rightarrow> u64 \<Rightarrow> net_parser" where
  "check_size p n = (if buf_size (np_buffer p) < n then p\<lparr>np_error := PacketTooShort\<rparr> else p)"

text \<open>The \<^verbatim>\<open>for\<close> loop of \<^verbatim>\<open>_parse_int\<close>, from round \<open>i\<close> on.\<close>

function parse_int_loop :: "buffer \<Rightarrow> nat \<Rightarrow> nat \<Rightarrow> 'a::len word \<Rightarrow> 'a word res" where
  "parse_int_loop b len i ret =
     (if i < len then
        bind_res (buffer_at b i) (\<lambda>c. parse_int_loop b len (i + 1) (push_bit 8 ret + ucast c))
      else Inr ret)"
  by pat_completeness auto
termination by (relation "measure (\<lambda>(_, len, i, _). len - i)") auto

declare parse_int_loop.simps [simp del]

definition parse_int :: "nat \<Rightarrow> net_parser \<Rightarrow> ('a::len word \<times> net_parser) res" where
  "parse_int len p =
     (let p = check_size p len in
      if parser_error p then Inr (0, p)
      else
        bind_res (parse_int_loop (np_buffer p) len 0 0)
          (\<lambda>ret. bind_res (buffer_remove_prefix (np_buffer p) len)
             (\<lambda>b. Inr (ret, p\<lparr>np_buffer := b\<rparr>))))"

definition parse_u32 :: "net_parser \<Rightarrow> (u32 \<times> net_parser) res" where
  "parse_u32 = parse_int 4"

definition parse_u16 :: "net_parser \<Rightarrow> (u16 \<times> net_parser) res" where
  "parse_u16 = parse_int 2"

definition parse_u8 :: "net_parser \<Rightarrow> (u8 \<times> net_parser) res" where
  "parse_u8 = parse_int 1"

definition parser_remove_prefix :: "net_parser \<Rightarrow> u64 \<Rightarrow> net_parser res" where
  "parser_remove_prefix p n =
     (let p = check_size p n in
      if parser_error p then Inr p
      else bind_res (buffer_remove_prefix (np_buffer p) n) (\<lambda>b. Inr (p\<lparr>np_buffer := b\<rparr>)))"

definition unparse_int :: "nat \<Rightarrow> byte list \<Rightarrow> 'a::len word \<Rightarrow> byte list" where
  "unparse_int len s val =
     foldl (\<lambda>s i. s @ [ucast (drop_bit ((len - i - 1) * 8) val AND 0xff)]) s [0 ..< len]"

definition unparse_u32 :: "byte list \<Rightarrow> u32 \<Rightarrow> byte list" where
  "unparse_u32 = unparse_int 4"

definition unparse_u16 :: "byte list \<Rightarrow> u16 \<Rightarrow> byte list" where
  "unparse_u16 = unparse_int 2"

definition unparse_u8 :: "byte list \<Rightarrow> u8 \<Rightarrow> byte list" where
  "unparse_u8 = unparse_int 1"

text \<open>\<^verbatim>\<open>string::resize\<close>: cut, or pad with zero bytes.\<close>

definition resize :: "byte list \<Rightarrow> nat \<Rightarrow> byte list" where
  "resize s n = take n s @ replicate (n - length s) 0"

section \<open>Reading as pure functions\<close>

text \<open>
  \<open>rd n p\<close> is the integer read from the next \<open>n\<close> bytes and \<open>nx n p\<close> the parser after that, both total; under
  the invariant of the buffer the reading functions return them.
\<close>

definition word_of_bytes :: "byte list \<Rightarrow> 'a::len word" where
  "word_of_bytes = foldl (\<lambda>w c. push_bit 8 w + ucast c) 0"

definition adv :: "buffer \<Rightarrow> nat \<Rightarrow> buffer" where
  "adv b n = (case buffer_remove_prefix b n of Inr b' \<Rightarrow> b' | Inl _ \<Rightarrow> b)"

lemma adv_ok [simp]:
  assumes "buffer_ok b"
  shows "buffer_ok (adv b n)" "n \<le> length (buffer_str b) \<Longrightarrow> buffer_remove_prefix b n = Inr (adv b n)"
    "n \<le> length (buffer_str b) \<Longrightarrow> buffer_str (adv b n) = drop n (buffer_str b)"
proof -
  show "buffer_ok (adv b n)"
    using assms buffer_remove_prefix_ok [OF assms, of n]
    by (cases "n \<le> length (buffer_str b)") (auto simp: adv_def buffer_remove_prefix_def)
  assume "n \<le> length (buffer_str b)"
  from buffer_remove_prefix_ok [OF assms this]
  show "buffer_remove_prefix b n = Inr (adv b n)" "buffer_str (adv b n) = drop n (buffer_str b)"
    by (auto simp: adv_def)
qed

definition rd :: "nat \<Rightarrow> net_parser \<Rightarrow> 'a::len word" where
  "rd n p = (if parser_error (check_size p n) then 0 else word_of_bytes (take n (buffer_str (np_buffer p))))"

definition nx :: "nat \<Rightarrow> net_parser \<Rightarrow> net_parser" where
  "nx n p = (if parser_error (check_size p n) then check_size p n else p\<lparr>np_buffer := adv (np_buffer p) n\<rparr>)"

lemma nx_ok [simp]: "buffer_ok (np_buffer p) \<Longrightarrow> buffer_ok (np_buffer (nx n p))"
  by (simp add: nx_def check_size_def)

lemma nx_enough:
  assumes "buffer_ok (np_buffer p)" and "np_error p = NoError" and "n \<le> length (buffer_str (np_buffer p))"
  shows "np_error (nx n p) = NoError" "buffer_str (np_buffer (nx n p)) = drop n (buffer_str (np_buffer p))"
    "rd n p = word_of_bytes (take n (buffer_str (np_buffer p)))"
  using assms by (simp_all add: nx_def rd_def check_size_def parser_error_def buf_size_def)

lemma nx_short:
  assumes "np_error p \<noteq> NoError \<or> length (buffer_str (np_buffer p)) < n"
  shows "np_error (nx n p) \<noteq> NoError" "np_buffer (nx n p) = np_buffer p" "rd n p = 0"
  using assms by (auto simp: nx_def rd_def check_size_def parser_error_def buf_size_def split: if_splits)

lemma parse_int_loop_eq:
  assumes "i \<le> len" and "len \<le> length (buffer_str b)"
  shows "parse_int_loop b len i ret =
    Inr (foldl (\<lambda>w c. push_bit 8 w + ucast c) ret (take (len - i) (drop i (buffer_str b))))"
  using assms
proof (induction b len i ret rule: parse_int_loop.induct)
  case (1 b len i ret)
  show ?case
  proof (cases "i < len")
    case True
    then have "len - i = Suc (len - (i + 1))" by simp
    then have "take (len - i) (drop i (buffer_str b)) =
        buffer_str b ! i # take (len - (i + 1)) (drop (i + 1) (buffer_str b))"
      using True "1.prems" by (simp only: Cons_nth_drop_Suc [symmetric] take_Suc_Cons) (simp add: Cons_nth_drop_Suc [symmetric])
    then show ?thesis using True 1 by (subst parse_int_loop.simps) (simp add: buffer_at_def)
  next
    case False
    then show ?thesis using "1.prems" by (subst parse_int_loop.simps) simp
  qed
qed

lemma parse_int_eq: "buffer_ok (np_buffer p) \<Longrightarrow> parse_int n p = Inr (rd n p, nx n p)"
  by (auto simp: parse_int_def Let_def rd_def nx_def check_size_def parse_int_loop_eq word_of_bytes_def
      parser_error_def buf_size_def)

lemma parse_uint_eq [simp]:
  assumes "buffer_ok (np_buffer p)"
  shows "parse_u32 p = Inr (rd 4 p, nx 4 p)" "parse_u16 p = Inr (rd 2 p, nx 2 p)" "parse_u8 p = Inr (rd 1 p, nx 1 p)"
  using assms by (simp_all add: parse_u32_def parse_u16_def parse_u8_def parse_int_eq)

lemma parser_remove_prefix_eq [simp]: "buffer_ok (np_buffer p) \<Longrightarrow> parser_remove_prefix p n = Inr (nx n p)"
  by (auto simp: parser_remove_prefix_def Let_def nx_def check_size_def parser_error_def buf_size_def)

section \<open>Big-endian bytes\<close>

definition nat_of_bytes :: "byte list \<Rightarrow> nat" where
  "nat_of_bytes = foldl (\<lambda>a c. 256 * a + unat c) 0"

definition be_bytes :: "nat \<Rightarrow> nat \<Rightarrow> byte list" where
  "be_bytes len v = map (\<lambda>i. of_nat (v div 256 ^ (len - i - 1))) [0 ..< len]"

lemma nat_of_bytes_snoc [simp]: "nat_of_bytes (bs @ [c]) = 256 * nat_of_bytes bs + unat c" "nat_of_bytes [] = 0"
  by (simp_all add: nat_of_bytes_def)

lemma word_of_bytes_nat: "(word_of_bytes bs :: 'a::len word) = of_nat (nat_of_bytes bs)"
proof (induction bs rule: rev_induct)
  case Nil
  then show ?case by (simp add: word_of_bytes_def)
next
  case (snoc c bs)
  have "(word_of_bytes (bs @ [c]) :: 'a word) = push_bit 8 (word_of_bytes bs) + ucast c" by (simp add: word_of_bytes_def)
  also have "\<dots> = of_nat (256 * nat_of_bytes bs + unat c)"
    by (simp add: snoc push_bit_eq_mult)
  finally show ?case by simp
qed

lemma length_be_bytes [simp]: "length (be_bytes len v) = len"
  by (simp add: be_bytes_def)

lemma be_bytes_Suc: "be_bytes (Suc len) v = be_bytes len (v div 256) @ [of_nat v]"
proof -
  have "v div 256 ^ (len - i) = v div 256 div 256 ^ (len - i - 1)" if "i < len" for i
    using that by (cases "len - i") (simp_all add: div_mult2_eq)
  then show ?thesis by (simp add: be_bytes_def)
qed

lemma nat_of_be_bytes: "nat_of_bytes (be_bytes len v) = v mod 256 ^ len"
proof (induction len arbitrary: v)
  case 0
  then show ?case by (simp add: be_bytes_def)
next
  case (Suc len)
  have "nat_of_bytes (be_bytes (Suc len) v) = 256 * (v div 256 mod 256 ^ len) + v mod 256"
    by (simp add: be_bytes_Suc Suc unat_of_nat)
  also have "\<dots> = v mod 256 ^ Suc len" using mod_mult2_eq [of v 256 "256 ^ len"] by simp
  finally show ?case .
qed

lemma unparse_int_eq: "unparse_int len s val = s @ be_bytes len (unat val)"
proof -
  have "foldl (\<lambda>s i. s @ [f i]) s xs = s @ map f xs" for f :: "nat \<Rightarrow> byte" and s xs
    by (induction xs arbitrary: s) simp_all
  moreover have "(ucast (drop_bit (k * 8) val AND 0xff) :: byte) = of_nat (unat val div 256 ^ k)" for k
  proof -
    have "(0xff :: 'a word) = mask 8" by (simp add: mask_eq_exp_minus_1)
    then have "(ucast (drop_bit (k * 8) val AND 0xff) :: byte) = ucast (drop_bit (k * 8) val)"
      by (simp only: take_bit_eq_mask [symmetric], intro bit_word_eqI) (auto simp: bit_simps dest: bit_imp_le_length)
    also have "\<dots> = of_nat (unat (drop_bit (k * 8) val))" by simp
    also have "unat (drop_bit (k * 8) val) = unat val div 2 ^ (k * 8)"
      by (metis unat_drop_bit_eq drop_bit_eq_div)
    also have "(of_nat (unat val div 2 ^ (k * 8)) :: byte) = of_nat (unat val div 256 ^ k)" by (simp add: mult.commute [of k] power_mult)
    finally show ?thesis .
  qed
  ultimately show ?thesis unfolding unparse_int_def be_bytes_def by simp
qed

lemma word_of_be_bytes:
  fixes w :: "'a::len word"
  assumes "LENGTH('a) \<le> 8 * len"
  shows "word_of_bytes (be_bytes len (unat w)) = w"
proof -
  have "unat w < 2 ^ LENGTH('a)" by simp
  also have "(2 ^ LENGTH('a) :: nat) \<le> 2 ^ (8 * len)" using assms by (intro power_increasing) simp_all
  finally have "unat w mod 256 ^ len = unat w" by (simp add: power_mult)
  then show ?thesis by (simp add: word_of_bytes_nat nat_of_be_bytes)
qed

lemma unparse_u_eq:
  "unparse_u32 s w = s @ be_bytes 4 (unat w)" "unparse_u16 s v = s @ be_bytes 2 (unat v)"
  "unparse_u8 s b = s @ [b]"
  by (simp_all add: unparse_u32_def unparse_u16_def unparse_u8_def unparse_int_eq be_bytes_def)

text \<open>What \<open>rd\<close> and \<open>nx\<close> do where the buffer begins with a written integer.\<close>

lemma read_back:
  assumes "buffer_ok (np_buffer p)" and "np_error p = NoError" and "buffer_str (np_buffer p) = be_bytes n (unat w) @ rest"
    and "LENGTH('a) \<le> 8 * n"
  shows "rd n p = (w :: 'a::len word)" "np_error (nx n p) = NoError" "buffer_str (np_buffer (nx n p)) = rest"
  using nx_enough(1,2) [OF assms(1,2), of n] nx_enough(3) [where ?'a = 'a, OF assms(1,2), of n] assms(3)
    word_of_be_bytes [OF assms(4), of w] by simp_all

lemma nx_noerror:
  "buffer_ok (np_buffer p) \<Longrightarrow>
     np_error (nx n p) = NoError \<longleftrightarrow> np_error p = NoError \<and> n \<le> length (buffer_str (np_buffer p))"
  using nx_enough(1) [of p n] nx_short(1) [of p n] by fastforce

lemma fold_nx_noerror:
  "buffer_ok (np_buffer p) \<Longrightarrow>
     np_error (fold nx ns p) = NoError \<longleftrightarrow> np_error p = NoError \<and> sum_list ns \<le> length (buffer_str (np_buffer p))"
proof (induction ns arbitrary: p)
  case (Cons n ns)
  then show ?case
    using nx_noerror [of p n] nx_enough(2) [of p n] by (cases "np_error (nx n p) = NoError") auto
qed simp

section \<open>Reading back what was written\<close>

text \<open>
  \<open>reads p s\<close>: the parser has no error and \<open>s\<close> in its buffer. \<open>yields c r x rest\<close>: a parsing function has
  returned the code \<open>c\<close>, the object \<open>x\<close> and a parser with \<open>rest\<close> in its buffer. One rule per primitive
  steps through a parsing function.
\<close>

definition reads :: "net_parser \<Rightarrow> byte list \<Rightarrow> bool" where
  "reads p s \<longleftrightarrow> buffer_ok (np_buffer p) \<and> np_error p = NoError \<and> buffer_str (np_buffer p) = s"

definition yields :: "ParseResult \<Rightarrow> (ParseResult \<times> 'x \<times> net_parser) res \<Rightarrow> 'x \<Rightarrow> byte list \<Rightarrow> bool" where
  "yields c r x rest \<longleftrightarrow> (\<exists>p. r = Inr (c, x, p) \<and> reads p rest)"

lemma reads_NetParser: "buffer_ok b \<Longrightarrow> reads (NetParser b) (buffer_str b)"
  by (simp add: reads_def NetParser_def)

lemma reads_error: "reads p s \<Longrightarrow> \<not> parser_error p \<and> np_error p = NoError"
  by (simp add: reads_def parser_error_def)

lemma reads_nx: "reads p s \<Longrightarrow> n \<le> length s \<Longrightarrow> reads (nx n p) (drop n s)"
  by (simp add: reads_def nx_enough)

lemma yields_u32:
  assumes "reads p (be_bytes 4 (unat w) @ s)" and "\<And>p'. reads p' s \<Longrightarrow> yields c (f (w, p')) x rest"
  shows "yields c (bind_res (parse_u32 p) f) x rest"
  using assms reads_nx [OF assms(1), of 4] read_back(1) [of p 4 w s] by (simp add: reads_def)

lemma yields_u16:
  assumes "reads p (be_bytes 2 (unat w) @ s)" and "\<And>p'. reads p' s \<Longrightarrow> yields c (f (w, p')) x rest"
  shows "yields c (bind_res (parse_u16 p) f) x rest"
  using assms reads_nx [OF assms(1), of 2] read_back(1) [of p 2 w s] by (simp add: reads_def)

lemma yields_u8:
  assumes "reads p (b # s)" and "\<And>p'. reads p' s \<Longrightarrow> yields c (f (b, p')) x rest"
  shows "yields c (bind_res (parse_u8 p) f) x rest"
  using assms reads_nx [OF assms(1), of 1] read_back(1) [of p 1 b s] by (simp add: reads_def be_bytes_def)

lemma yields_remove:
  assumes "reads p (s @ t)" and "length s = n" and "\<And>p'. reads p' t \<Longrightarrow> yields c (f p') x rest"
  shows "yields c (bind_res (parser_remove_prefix p n) f) x rest"
  using assms reads_nx [OF assms(1), of n] by (simp add: reads_def)

lemma yields_done: "reads p rest \<Longrightarrow> x = y \<Longrightarrow> yields c (Inr (c, x, p)) y rest"
  by (auto simp: yields_def)

lemma returns_u32:
  assumes "reads p (be_bytes 4 (unat w) @ s)" and "\<And>p'. reads p' s \<Longrightarrow> f (w, p') = r"
  shows "bind_res (parse_u32 p) f = r"
  using assms reads_nx [OF assms(1), of 4] read_back(1) [of p 4 w s] by (simp add: reads_def)

lemma returns_u16:
  assumes "reads p (be_bytes 2 (unat w) @ s)" and "\<And>p'. reads p' s \<Longrightarrow> f (w, p') = r"
  shows "bind_res (parse_u16 p) f = r"
  using assms reads_nx [OF assms(1), of 2] read_back(1) [of p 2 w s] by (simp add: reads_def)

lemma returns_u8:
  assumes "reads p (b # s)" and "\<And>p'. reads p' s \<Longrightarrow> f (b, p') = r"
  shows "bind_res (parse_u8 p) f = r"
  using assms reads_nx [OF assms(1), of 1] read_back(1) [of p 1 b s] by (simp add: reads_def be_bytes_def)

lemmas returns_step = returns_u32 returns_u16 returns_u8

lemmas yields_step = yields_u32 yields_u16 yields_u8

section \<open>Properties\<close>

text \<open>
  Writing a 32-bit integer and reading it back: whatever follows it in the buffer, \<^verbatim>\<open>NetParser::u32\<close>
  returns the value that \<^verbatim>\<open>NetUnparser::u32\<close> wrote, sets no error and leaves exactly the bytes that
  follow. The same holds for 16 and 8 bits.
\<close>

theorem parse_unparse:
  assumes "length s < 2 ^ 62"
  shows "\<exists>p32 p16 p8.
    parse_u32 (NetParser (Buffer (unparse_u32 [] w @ s))) = Inr (w, p32) \<and> np_error p32 = NoError \<and> buffer_str (np_buffer p32) = s \<and>
    parse_u16 (NetParser (Buffer (unparse_u16 [] v @ s))) = Inr (v, p16) \<and> np_error p16 = NoError \<and> buffer_str (np_buffer p16) = s \<and>
    parse_u8 (NetParser (Buffer (unparse_u8 [] b @ s))) = Inr (b, p8) \<and> np_error p8 = NoError \<and> buffer_str (np_buffer p8) = s"
proof -
  have b: "be_bytes (Suc 0) (unat b) = [b]" by (simp add: be_bytes_def)
  show ?thesis
    using assms read_back [of "NetParser (Buffer (be_bytes 4 (unat w) @ s))" 4 w s]
      read_back [of "NetParser (Buffer (be_bytes 2 (unat v) @ s))" 2 v s]
      read_back [of "NetParser (Buffer (b # s))" 1 b s]
    by (simp add: unparse_u_eq NetParser_def b)
qed

theorem parse_unparse_witness:
  "length [7 :: byte] < 2 ^ 62 \<and>
   (\<exists>p. parse_u32 (NetParser (Buffer (unparse_u32 [] 0xdeadbeef @ [7]))) = Inr (0xdeadbeef, p) \<and> buffer_str (np_buffer p) = [7])"
  using parse_unparse [where s = "[7]" and w = "0xdeadbeef"] by simp blast

end
