(* ===== verification/Internet_Checksum.thy ===== *)
theory Internet_Checksum
  imports Net_Parser
begin

text \<open>
  The class \<^verbatim>\<open>InternetChecksum\<close> of \<^verbatim>\<open>libsponge/util/util.{hh,cc}\<close>: a 32-bit sum of big-endian 16-bit words,
  folded and complemented. The lemmas relate it to arithmetic modulo 65535.
\<close>

section \<open>Definitions\<close>

record internet_checksum =
  ic_sum :: u32
  ic_parity :: bool

definition InternetChecksum :: "u32 \<Rightarrow> internet_checksum" where
  "InternetChecksum initial_sum = \<lparr>ic_sum = initial_sum, ic_parity = False\<rparr>"

definition ic_add_byte :: "internet_checksum \<Rightarrow> byte \<Rightarrow> internet_checksum" where
  "ic_add_byte k c =
     (let val = (ucast c :: u16);
          val = (if \<not> ic_parity k then push_bit 8 val else val)
      in k\<lparr>ic_sum := ic_sum k + ucast val, ic_parity := \<not> ic_parity k\<rparr>)"

definition ic_add :: "internet_checksum \<Rightarrow> byte list \<Rightarrow> internet_checksum" where
  "ic_add k data = foldl ic_add_byte k data"

text \<open>The \<^verbatim>\<open>while\<close> loop of \<^verbatim>\<open>value\<close>; each round makes the number smaller.\<close>

lemma fold_round_less:
  fixes ret :: u32
  assumes "0xffff < ret"
  shows "unat (drop_bit 16 ret + (ret AND 0xffff)) = unat ret div 65536 + unat ret mod 65536"
    and "unat (drop_bit 16 ret + (ret AND 0xffff)) < unat ret"
proof -
  have m: "(0xffff :: u32) = mask 16" by (simp add: mask_eq_exp_minus_1)
  have d: "unat (drop_bit 16 ret) = unat ret div 65536" using unat_drop_bit_div [of 16 ret] by simp
  have a: "unat (ret AND 0xffff) = unat ret mod 65536"
    using unat_take_bit_mod [of 16 ret] by (simp add: m take_bit_eq_mask)
  have lt: "65535 < unat ret" "unat ret < 4294967296"
    using assms unat_bounds(3) [of ret] by (simp_all add: word_less_nat_alt)
  have "unat ret div 65536 < 65536" "unat ret mod 65536 < 65536" using lt(2) by simp_all
  then show eq: "unat (drop_bit 16 ret + (ret AND 0xffff)) = unat ret div 65536 + unat ret mod 65536"
    by (simp add: unat_word_ariths d a)
  have "0 < unat ret div 65536" using lt(1) by (simp add: div_greater_zero_iff)
  moreover have "unat ret = unat ret div 65536 * 65536 + unat ret mod 65536" by simp
  ultimately show "unat (drop_bit 16 ret + (ret AND 0xffff)) < unat ret"
    unfolding eq by linarith
qed

function fold_sum :: "u32 \<Rightarrow> u32" where
  "fold_sum ret = (if 0xffff < ret then fold_sum (drop_bit 16 ret + (ret AND 0xffff)) else ret)"
  by pat_completeness auto
termination by (relation "measure unat") (use fold_round_less(2) in \<open>simp_all only: in_measure wf_measure\<close>)

declare fold_sum.simps [simp del]

definition ic_value :: "internet_checksum \<Rightarrow> u16" where
  "ic_value k = ucast (NOT (fold_sum (ic_sum k)))"

section \<open>The sum as a number\<close>

text \<open>The sum of the 16-bit words of a string; the flag says that the string starts with a low byte.\<close>

primrec sum16 :: "bool \<Rightarrow> byte list \<Rightarrow> nat" where
  "sum16 par [] = 0"
| "sum16 par (c # cs) = (if par then unat c else 256 * unat c) + sum16 (\<not> par) cs"

lemma sum16_append: "sum16 par (xs @ ys) = sum16 par xs + sum16 (par = even (length xs)) ys"
proof (induction xs arbitrary: par)
  case (Cons c cs)
  then show ?case by (cases par) simp_all
qed simp

lemma sum16_bound: "sum16 False xs \<le> 65535 * ((length xs + 1) div 2) \<and> sum16 True xs \<le> 255 + 65535 * (length xs div 2)"
proof (induction xs)
  case (Cons c cs)
  have "unat c \<le> 255" using unat_bounds(1) [of c] by simp
  then show ?case using Cons by auto
qed simp

lemma sum16_replicate_0 [simp]: "sum16 par (replicate n 0) = 0"
  by (induction n arbitrary: par) simp_all

lemma sum16_be_bytes_2: "sum16 False (be_bytes 2 (unat (w :: u16))) = unat w"
proof -
  have "be_bytes 2 (unat w) = [of_nat (unat w div 256), of_nat (unat w)]"
    using be_bytes_Suc [of 1 "unat w"] be_bytes_Suc [of 0 "unat w div 256"] by (simp add: numeral_2_eq_2 be_bytes_def)
  moreover have "unat w div 256 mod 256 = unat w div 256"
    using unat_bounds(2) [of w] by (simp add: less_mult_imp_div_less)
  ultimately show ?thesis by (simp add: unat_of_nat unat_ucast_mod)
qed

lemma ic_add_byte_eq:
  "ic_add_byte k c =
     k\<lparr>ic_sum := ic_sum k + of_nat (if ic_parity k then unat c else 256 * unat c), ic_parity := \<not> ic_parity k\<rparr>"
proof -
  have "unat (push_bit 8 (ucast c :: u16)) = 256 * unat c"
    using unat_bounds(1) [of c] by (simp add: push_bit_eq_mult unat_word_ariths unat_ucast_mod)
  moreover have "unat (ucast c :: u16) = unat c" using unat_bounds(1) [of c] by (simp add: unat_ucast_mod)
  moreover have "(ucast (x :: u16) :: u32) = of_nat (unat x)" for x by simp
  ultimately have "(ucast (if \<not> ic_parity k then push_bit 8 (ucast c) else ucast c :: u16) :: u32) =
      of_nat (if ic_parity k then unat c else 256 * unat c)"
    by (simp only: if_distrib [where f = unat] if_not_P if_P split: if_split) simp
  then show ?thesis by (simp only: ic_add_byte_def Let_def)
qed

lemma ic_add_eq:
  "ic_add k xs = k\<lparr>ic_sum := ic_sum k + of_nat (sum16 (ic_parity k) xs), ic_parity := (ic_parity k = even (length xs))\<rparr>"
  unfolding ic_add_def
  by (induction xs arbitrary: k) (auto simp: ic_add_byte_eq algebra_simps)

section \<open>Folding\<close>

lemma fold_sum_spec:
  "unat (fold_sum x) \<le> 65535 \<and> unat (fold_sum x) mod 65535 = unat x mod 65535 \<and> (fold_sum x = 0 \<longleftrightarrow> x = 0)"
proof (induction x rule: fold_sum.induct)
  case (1 x)
  show ?case
  proof (cases "0xffff < x")
    case True
    let ?y = "drop_bit 16 x + (x AND 0xffff)"
    have y: "unat ?y = unat x div 65536 + unat x mod 65536" by (rule fold_round_less(1) [OF True])
    have "unat x = unat x div 65536 * 65535 + (unat x div 65536 + unat x mod 65536)" by simp
    then have "unat x mod 65535 = unat ?y mod 65535" unfolding y by (metis mod_mult_self3)
    moreover have "0 < unat x div 65536" using True by (simp add: word_less_nat_alt div_greater_zero_iff)
    then have "?y \<noteq> 0" "x \<noteq> 0" using y by auto
    ultimately show ?thesis using "1.IH" [OF True] True by (subst (1 2 3) fold_sum.simps) simp
  next
    case False
    then show ?thesis by (subst (1 2 3) fold_sum.simps) (simp add: word_less_nat_alt)
  qed
qed

lemma ic_value_eq: "unat (ic_value k) = 65535 - unat (fold_sum (ic_sum k))"
proof -
  let ?f = "fold_sum (ic_sum k)"
  have f: "unat ?f \<le> 65535" using fold_sum_spec by simp
  have "NOT ?f = of_nat (4294967295 - unat ?f)"
    using f by (simp add: not_eq_complement of_nat_diff)
  then have "unat (NOT ?f) = 4294967295 - unat ?f" by (simp add: unat_of_nat)
  moreover have "(4294967295 - unat ?f) mod 65536 = 65535 - unat ?f"
  proof -
    have "4294967295 - unat ?f = (65535 - unat ?f) + 65535 * 65536" using f by simp
    then show ?thesis by (simp only: mod_mult_self1) simp
  qed
  ultimately show ?thesis by (simp add: ic_value_def unat_ucast_mod)
qed

lemma ic_value_0_iff: "ic_value k = 0 \<longleftrightarrow> ic_sum k \<noteq> 0 \<and> 65535 dvd unat (ic_sum k)"
proof -
  note f = fold_sum_spec [of "ic_sum k"]
  have "ic_value k = 0 \<longleftrightarrow> unat (fold_sum (ic_sum k)) = 65535"
    using ic_value_eq [of k] f by (auto simp: unat_eq_zero [symmetric])
  also have "\<dots> \<longleftrightarrow> fold_sum (ic_sum k) \<noteq> 0 \<and> unat (fold_sum (ic_sum k)) mod 65535 = 0"
    using f by (auto simp: unat_eq_zero [symmetric] le_less)
  finally show ?thesis using f by (simp add: dvd_eq_mod_eq_0)
qed

section \<open>Checksum fields\<close>

lemma ic_sum_unat:
  assumes "unat init + 65535 * ((length xs + 1) div 2) < 2 ^ 32"
  shows "unat (ic_sum (ic_add (InternetChecksum init) xs)) = unat init + sum16 False xs"
    "ic_parity (ic_add (InternetChecksum init) xs) = odd (length xs)"
proof -
  have "unat init + sum16 False xs < 4294967296" using sum16_bound [of xs] assms by simp
  then show "unat (ic_sum (ic_add (InternetChecksum init) xs)) = unat init + sum16 False xs"
    by (simp add: ic_add_eq InternetChecksum_def unat_word_ariths unat_of_nat)
qed (simp add: ic_add_eq InternetChecksum_def)

lemma ic_add_append: "ic_add (ic_add k xs) ys = ic_add k (xs @ ys)"
  by (simp add: ic_add_def)

lemma len3: "length (pre @ be_bytes 2 v @ post) + 1 = length pre + length post + 3"
  by simp

text \<open>
  A string with a 16-bit checksum field at an even offset, filled with the checksum of the string
  in which that field is zero, has checksum zero.
\<close>

lemma checksum_field:
  assumes "even (length pre)" and "unat init + 65535 * ((length pre + length post + 3) div 2) < 2 ^ 32"
  shows "ic_value (ic_add (InternetChecksum init)
    (pre @ be_bytes 2 (unat (ic_value (ic_add (InternetChecksum init) (pre @ be_bytes 2 0 @ post)))) @ post)) = 0"
proof -
  define z where "z = unat init + sum16 False pre + sum16 False post"
  define c where "c = ic_value (ic_add (InternetChecksum init) (pre @ be_bytes 2 0 @ post))"
  have bnd: "unat init + 65535 * ((length (pre @ be_bytes 2 v @ post) + 1) div 2) < 2 ^ 32" for v
    using assms(2) by (simp only: len3)
  have sum: "unat (ic_sum (ic_add (InternetChecksum init) (pre @ be_bytes 2 (unat (w :: u16)) @ post))) = z + unat w" for w
    using ic_sum_unat(1) [OF bnd] assms(1) sum16_be_bytes_2 [of w] by (simp add: sum16_append z_def)
  let ?k = "ic_add (InternetChecksum init) (pre @ be_bytes 2 0 @ post)"
  have z: "unat (ic_sum ?k) = z" using sum [of 0] by simp
  note f = fold_sum_spec [of "ic_sum ?k"]
  have c: "unat c = 65535 - unat (fold_sum (ic_sum ?k))" by (simp add: c_def ic_value_eq)
  have "(z + unat c) mod 65535 = (unat (fold_sum (ic_sum ?k)) + unat c) mod 65535"
    using f z by (metis mod_add_left_eq)
  then have "65535 dvd z + unat c" using c f by (simp add: dvd_eq_mod_eq_0)
  moreover have "z + unat c \<noteq> 0"
  proof
    assume "z + unat c = 0"
    then have "ic_sum ?k = 0" using z by (simp add: unat_eq_zero)
    then show False using c f \<open>z + unat c = 0\<close> by simp
  qed
  ultimately have "65535 dvd unat (ic_sum (ic_add (InternetChecksum init) (pre @ be_bytes 2 (unat c) @ post)))"
    "ic_sum (ic_add (InternetChecksum init) (pre @ be_bytes 2 (unat c) @ post)) \<noteq> 0"
    using sum [of c] by auto
  then show ?thesis unfolding c_def [symmetric] ic_value_0_iff by blast
qed

section \<open>Properties\<close>



end
