(* ===== verification/Wire_Format.thy ===== *)
theory Wire_Format
  imports Net_Parser
begin

text \<open>
  The contract of a wire format: a message that is fit to be sent is encoded without an exception, and whatever
  buffer holds its bytes is decoded to the same message, up to the fields the encoder fills in. A buffer
  may be a part of a larger one, as the payload of an enclosing format is.
\<close>

locale wire_format =
  fixes enc :: "'a \<Rightarrow> buffer_list res" and dec :: "buffer \<Rightarrow> (ParseResult \<times> 'a) res"
    and ok :: "'a \<Rightarrow> bool" and same :: "'a \<Rightarrow> 'a \<Rightarrow> bool"
  assumes same_sym: "same x y \<Longrightarrow> same y x" and same_trans: "same x y \<Longrightarrow> same y z \<Longrightarrow> same x z"
    and same_ok: "same x y \<Longrightarrow> ok x \<Longrightarrow> ok y"
    and wire: "ok x \<Longrightarrow> \<exists>bl. enc x = Inr bl \<and> length (concatenate bl) < 2 ^ 64 \<and>
      (\<forall>buf. buffer_ok buf \<and> buffer_str buf = concatenate bl \<longrightarrow> (\<exists>y. dec buf = Inr (NoError, y) \<and> same x y))"
begin

lemma decode:
  assumes "ok x" and "enc x = Inr bl" and "buffer_ok buf" and "buffer_str buf = concatenate bl"
  shows "\<exists>y. dec buf = Inr (NoError, y) \<and> same x y"
proof -
  obtain cl where cl: "enc x = Inr cl"
    "\<forall>buf. buffer_ok buf \<and> buffer_str buf = concatenate cl \<longrightarrow> (\<exists>y. dec buf = Inr (NoError, y) \<and> same x y)"
    using wire [OF assms(1)] by blast
  then have "cl = bl" using assms(2) by simp
  then show ?thesis using cl(2) assms(3,4) by blast
qed

lemma roundtrip:
  assumes "ok x"
  shows "\<exists>bl y. enc x = Inr bl \<and> dec (Buffer (concatenate bl)) = Inr (NoError, y) \<and> same x y"
proof -
  obtain bl where bl: "enc x = Inr bl" "length (concatenate bl) < 2 ^ 64" using wire [OF assms] by blast
  then obtain y where "dec (Buffer (concatenate bl)) = Inr (NoError, y)" "same x y"
    using decode [OF assms bl(1), of "Buffer (concatenate bl)"] by auto
  then show ?thesis using bl(1) by blast
qed

text \<open>The bytes determine the message.\<close>

lemma enc_inj:
  assumes "ok x" "ok y" and "enc x = Inr bl" "enc y = Inr cl" and "concatenate bl = concatenate cl"
  shows "same x y"
proof -
  obtain z where "dec (Buffer (concatenate bl)) = Inr (NoError, z)" "same x z"
    using roundtrip [OF assms(1)] assms(3) by auto
  moreover obtain w where "dec (Buffer (concatenate cl)) = Inr (NoError, w)" "same y w"
    using roundtrip [OF assms(2)] assms(4) by auto
  ultimately have "same x w" "same w y" using assms(5) same_sym [of y w] by simp_all
  then show ?thesis by (rule same_trans)
qed

text \<open>A message can be forwarded: what was decoded can be encoded and decoded again.\<close>

lemma relay:
  assumes "ok x" and "enc x = Inr bl" and "dec (Buffer (concatenate bl)) = Inr (NoError, y)"
  shows "\<exists>cl z. enc y = Inr cl \<and> dec (Buffer (concatenate cl)) = Inr (NoError, z) \<and> same x z"
proof -
  have y: "same x y" using roundtrip [OF assms(1)] assms(2,3) by auto
  then have "ok y" using same_ok assms(1) by blast
  then obtain cl z where "enc y = Inr cl" "dec (Buffer (concatenate cl)) = Inr (NoError, z)" "same y z"
    using roundtrip by blast
  then show ?thesis using same_trans [OF y] by blast
qed

end

end
