(* ===== verification/Wrapping_Integers.thy ===== *)
theory Wrapping_Integers
  imports Sponge_Prelude
begin

text \<open>
  \<^verbatim>\<open>libsponge/wrapping_integers.{hh,cc}\<close>: 32-bit sequence numbers relative to an initial sequence
  number, and the conversions \<open>wrap\<close> and \<open>unwrap\<close> between them and absolute 64-bit sequence
  numbers.
\<close>

section \<open>Definitions\<close>

text \<open>\<^verbatim>\<open>class WrappingInt32\<close>: the raw 32-bit value.\<close>

datatype WrappingInt32 = WrappingInt32 (raw_value: u32)

text \<open>The helper operators of the header: \<^verbatim>\<open>a - b\<close> (signed), \<^verbatim>\<open>==\<close>, \<^verbatim>\<open>!=\<close>, \<^verbatim>\<open>a + n\<close>, \<^verbatim>\<open>a - n\<close>.\<close>

definition wi_diff :: "WrappingInt32 \<Rightarrow> WrappingInt32 \<Rightarrow> int" where
  "wi_diff a b = sint (raw_value a - raw_value b)"

definition wi_eq :: "WrappingInt32 \<Rightarrow> WrappingInt32 \<Rightarrow> bool" where
  "wi_eq a b \<longleftrightarrow> raw_value a = raw_value b"

definition wi_neq :: "WrappingInt32 \<Rightarrow> WrappingInt32 \<Rightarrow> bool" where
  "wi_neq a b \<longleftrightarrow> \<not> wi_eq a b"

definition wi_add :: "WrappingInt32 \<Rightarrow> u32 \<Rightarrow> WrappingInt32" where
  "wi_add a b = WrappingInt32 (raw_value a + b)"

definition wi_sub :: "WrappingInt32 \<Rightarrow> u32 \<Rightarrow> WrappingInt32" where
  "wi_sub a b = wi_add a (- b)"

definition wrap :: "u64 \<Rightarrow> WrappingInt32 \<Rightarrow> WrappingInt32" where
  "wrap n isn = WrappingInt32 (raw_value isn + word_of_nat n)"

definition unwrap :: "WrappingInt32 \<Rightarrow> WrappingInt32 \<Rightarrow> u64 \<Rightarrow> u64" where
  "unwrap n isn checkpoint =
     (let num = unat (raw_value n - raw_value isn) in
      if num < checkpoint then
        let rank = add64 (sub64 checkpoint num) (2 ^ 31) div 2 ^ 32
        in add64 num (mul64 rank (2 ^ 32))
      else num)"

section \<open>Residues\<close>

text \<open>The 32-bit offset of a wrapped number is the absolute number modulo \<open>2 ^ 32\<close>.\<close>

lemma unat_word_of_nat_32: "unat (word_of_nat n :: u32) = n mod 2 ^ 32"
  by (simp add: unat_of_nat)

lemma wrap_offset: "unat (raw_value (wrap a isn) - raw_value isn) = a mod 2 ^ 32"
  by (simp add: wrap_def unat_of_nat)

lemma wrap_eq_iff: "wrap a isn = n \<longleftrightarrow> a mod 2 ^ 32 = unat (raw_value n - raw_value isn)"
proof
  assume "wrap a isn = n"
  then show "a mod 2 ^ 32 = unat (raw_value n - raw_value isn)"
    using wrap_offset [of a isn] by simp
next
  assume eq: "a mod 2 ^ 32 = unat (raw_value n - raw_value isn)"
  have "unat (word_of_nat a :: u32) = unat (raw_value n - raw_value isn)"
    using eq by (simp only: unat_word_of_nat_32)
  then have "(word_of_nat a :: u32) = raw_value n - raw_value isn"
    by (rule unsigned_word_eqI)
  then show "wrap a isn = n"
    by (cases n) (simp add: wrap_def)
qed

lemma wrap_eq_wrap_iff: "wrap a isn = wrap b isn \<longleftrightarrow> a mod 2 ^ 32 = b mod 2 ^ 32"
  by (simp only: wrap_eq_iff wrap_offset)

lemma wrap_0 [simp]: "wrap 0 isn = isn"
  by (cases isn) (simp add: wrap_def)

lemma mod_add64_mul64:
  "add64 a (mul64 r (2 ^ 32)) mod 2 ^ 32 = a mod 2 ^ 32"
proof -
  have "(2::nat) ^ 32 dvd 2 ^ 64" by (simp add: le_imp_power_dvd)
  then have "add64 a (mul64 r (2 ^ 32)) mod 2 ^ 32 = (a + r * 2 ^ 32 mod 2 ^ 64) mod 2 ^ 32"
    by (simp only: add64_def mul64_def mod_mod_cancel)
  also have "\<dots> = (a + (r * 2 ^ 32 mod 2 ^ 64) mod 2 ^ 32) mod 2 ^ 32"
    by (simp only: mod_add_right_eq)
  also have "\<dots> = a mod 2 ^ 32"
    using \<open>(2::nat) ^ 32 dvd 2 ^ 64\<close> by (simp only: mod_mod_cancel) simp
  finally show ?thesis .
qed

section \<open>Properties\<close>

text \<open>
  \<open>unwrap\<close> in closed form where the addition of \<open>2 ^ 31\<close> does not overflow: the offset plus the
  multiple of \<open>2 ^ 32\<close> nearest to the rest of the checkpoint.
\<close>

lemma unwrap_eq:
  assumes "c + 2 ^ 31 < 2 ^ 64"
  shows "unwrap n isn c =
    (let num = unat (raw_value n - raw_value isn) in
     if num < c then num + (c - num + 2 ^ 31) div 2 ^ 32 * 2 ^ 32 else num)"
proof (cases "unat (raw_value n - raw_value isn) < c")
  case False
  then show ?thesis by (simp add: unwrap_def Let_def)
next
  case True
  define num where "num = unat (raw_value n - raw_value isn)"
  define q where "q = (c - num + 2 ^ 31) div 2 ^ 32"
  have q: "q * 2 ^ 32 \<le> c - num + 2 ^ 31" unfolding q_def by (rule div_times_less_eq_dividend)
  have lt: "num < c" using True by (simp add: num_def)
  have "sub64 c num = c - num" using lt assms by (intro sub64_exact) auto
  moreover have "add64 (c - num) (2 ^ 31) = c - num + 2 ^ 31"
    using assms by (intro add64_exact) linarith
  moreover have "mul64 q (2 ^ 32) = q * 2 ^ 32" using q assms by (intro mul64_exact) linarith
  moreover have "add64 num (q * 2 ^ 32) = num + q * 2 ^ 32"
    using q lt assms by (intro add64_exact) linarith
  ultimately have "unwrap n isn c = num + q * 2 ^ 32"
    using lt unfolding unwrap_def Let_def num_def [symmetric] by (simp only: q_def if_True)
  then show ?thesis using lt unfolding Let_def num_def [symmetric] q_def by (simp only: if_True)
qed

lemma unwrap_residue: "unwrap n isn c mod 2 ^ 32 = unat (raw_value n - raw_value isn)"
proof -
  define num where "num = unat (raw_value n - raw_value isn)"
  have "num < 2 ^ 32" unfolding num_def using unsigned_less [of "raw_value n - raw_value isn"] by simp
  then show ?thesis
    unfolding unwrap_def Let_def num_def [symmetric]
    by (simp only: if_distrib [where f = "\<lambda>x. x mod 2 ^ 32"] mod_add64_mul64 mod_less if_cancel)
qed

text \<open>
  C26. Translating a relative sequence number to an absolute one and back gives the number again,
  for every initial sequence number and every checkpoint, wrap-around included.
\<close>

theorem wrap_unwrap: "wrap (unwrap n isn checkpoint) isn = n"
  by (simp only: wrap_eq_iff unwrap_residue)

text \<open>
  The number with a given residue modulo \<open>2 ^ 32\<close> that \<open>unwrap\<close> picks is within \<open>2 ^ 31\<close> of the
  checkpoint unless it is the smallest one of all.
\<close>

lemma unwrap_near:
  assumes "c + 2 ^ 31 < 2 ^ 64"
  shows "unwrap n isn c \<le> c + 2 ^ 31 \<and> c < unwrap n isn c + 2 ^ 31 \<or>
         c \<le> unwrap n isn c \<and> unwrap n isn c < 2 ^ 32"
proof -
  define num where "num = unat (raw_value n - raw_value isn)"
  have num: "num < 2 ^ 32"
    unfolding num_def using unsigned_less [of "raw_value n - raw_value isn"] by simp
  have eq: "unwrap n isn c = (if num < c then num + (c - num + 2 ^ 31) div 2 ^ 32 * 2 ^ 32 else num)"
    using unwrap_eq [OF assms, of n isn] unfolding Let_def num_def .
  have dm: "(c - num + 2 ^ 31) div 2 ^ 32 * 2 ^ 32 + (c - num + 2 ^ 31) mod 2 ^ 32 = c - num + 2 ^ 31"
    by (rule div_mult_mod_eq)
  have "(c - num + 2 ^ 31) mod 2 ^ 32 < 2 ^ 32" by simp
  with eq dm num show ?thesis by (cases "num < c") auto
qed

lemma same_residue_near:
  fixes a b :: nat
  assumes "a mod 2 ^ 32 = b mod 2 ^ 32" and "a < b + 2 ^ 32" and "b < a + 2 ^ 32"
  shows "a = b"
proof -
  obtain k l where "a = k * 2 ^ 32 + a mod 2 ^ 32" and "b = l * 2 ^ 32 + a mod 2 ^ 32"
    using assms(1) by (metis div_mult_mod_eq)
  with assms(2,3) have "k * 2 ^ 32 < (l + 1) * 2 ^ 32" and "l * 2 ^ 32 < (k + 1) * 2 ^ 32"
    by (simp_all add: algebra_simps)
  then have "k = l" by simp
  with \<open>a = _\<close> \<open>b = _\<close> show ?thesis by metis
qed

lemma unwrap_wrap_near:
  assumes "checkpoint + 2 ^ 31 < 2 ^ 64"
    and "a < checkpoint + 2 ^ 31" and "checkpoint < a + 2 ^ 31"
  shows "unwrap (wrap a isn) isn checkpoint = a"
proof (rule same_residue_near)
  show "unwrap (wrap a isn) isn checkpoint mod 2 ^ 32 = a mod 2 ^ 32"
    by (simp only: unwrap_residue wrap_offset)
  show "unwrap (wrap a isn) isn checkpoint < a + 2 ^ 32"
    and "a < unwrap (wrap a isn) isn checkpoint + 2 ^ 32"
    using unwrap_near [OF assms(1), of "wrap a isn" isn] assms(2,3) by auto
qed

text \<open>
  C27. Round trip: an absolute sequence number less than \<open>2 ^ 31\<close> away from the checkpoint survives
  the translation to 32 bits and back. This is what the receiver and the sender rely on.
\<close>

theorem unwrap_wrap:
  assumes "checkpoint + 2 ^ 31 < 2 ^ 64"
    and "a < checkpoint + 2 ^ 31" and "checkpoint < a + 2 ^ 31"
  shows "unwrap (wrap a isn) isn checkpoint = a"
  using assms by (rule unwrap_wrap_near)

theorem unwrap_wrap_witness:
  "(4294967300::nat) + 2 ^ 31 < 2 ^ 64 \<and> (4294967290::nat) < 4294967300 + 2 ^ 31 \<and>
   unwrap (wrap 4294967290 (WrappingInt32 17)) (WrappingInt32 17) 4294967300 = 4294967290"
  using unwrap_wrap [of 4294967300 4294967290 "WrappingInt32 17"] by simp

text \<open>
  C28. \<open>unwrap\<close> returns the absolute number closest to the checkpoint: no number with the same
  relative sequence number is nearer.
\<close>

theorem unwrap_closest:
  assumes "checkpoint + 2 ^ 31 < 2 ^ 64" and "wrap a isn = n"
  shows "\<bar>int (unwrap n isn checkpoint) - int checkpoint\<bar> \<le> \<bar>int a - int checkpoint\<bar>"
proof (rule ccontr)
  define u where "u = unwrap n isn checkpoint"
  assume "\<not> ?thesis"
  then have far: "\<bar>int a - int checkpoint\<bar> < \<bar>int u - int checkpoint\<bar>" by (simp add: u_def)
  have "a mod 2 ^ 32 = u mod 2 ^ 32"
    using assms(2) by (simp only: wrap_eq_iff u_def unwrap_residue)
  moreover have "u \<le> checkpoint + 2 ^ 31 \<and> checkpoint < u + 2 ^ 31 \<or> checkpoint \<le> u \<and> u < 2 ^ 32"
    unfolding u_def by (rule unwrap_near [OF assms(1)])
  then have "a < u + 2 ^ 32" and "u < a + 2 ^ 32"
    using far by auto
  ultimately have "a = u" by (rule same_residue_near)
  with far show False by simp
qed

theorem unwrap_closest_witness:
  "\<bar>int (unwrap (WrappingInt32 5) (WrappingInt32 0) 4294967290) - 4294967290\<bar> \<le> \<bar>int 5 - 4294967290\<bar>"
  using unwrap_closest [of 4294967290 5 "WrappingInt32 0" "WrappingInt32 5"] by (simp add: wrap_def)

end
