(* ===== verification/TCP_Segment.thy ===== *)
theory TCP_Segment
  imports Internet_Checksum Wire_Format Wrapping_Integers
begin

text \<open>
  \<^verbatim>\<open>libsponge/tcp_helpers/tcp_header.{hh,cc}\<close> and \<^verbatim>\<open>tcp_segment.{hh,cc}\<close>: the TCP header and segment and
  their wire format. Parsing threads the \<^verbatim>\<open>NetParser\<close> through the fields in the order of the code and
  returns the result code with the updated object and parser; serialising may throw. The lemmas show that
  parsing never throws, that it inverts serialising, checksum included, and what the length in
  sequence space is.
\<close>

section \<open>The TCP header\<close>

record TCPHeader =
  th_sport :: u16
  th_dport :: u16
  th_seqno :: WrappingInt32
  th_ackno :: WrappingInt32
  th_doff :: u8
  th_urg :: bool
  th_ack :: bool
  th_psh :: bool
  th_rst :: bool
  th_syn :: bool
  th_fin :: bool
  th_win :: u16
  th_cksum :: u16
  th_uptr :: u16

abbreviation (input) TCPHeader_LENGTH :: nat where
  "TCPHeader_LENGTH \<equiv> 20"

definition TCPHeader0 :: TCPHeader where
  "TCPHeader0 =
     \<lparr>th_sport = 0, th_dport = 0, th_seqno = WrappingInt32 0, th_ackno = WrappingInt32 0, th_doff = 5,
      th_urg = False, th_ack = False, th_psh = False, th_rst = False, th_syn = False, th_fin = False,
      th_win = 0, th_cksum = 0, th_uptr = 0\<rparr>"

definition tcp_header_parse :: "TCPHeader \<Rightarrow> net_parser \<Rightarrow> (ParseResult \<times> TCPHeader \<times> net_parser) res" where
  "tcp_header_parse h p =
     bind_res (parse_u16 p) (\<lambda>(sport, p).
     bind_res (parse_u16 p) (\<lambda>(dport, p).
     bind_res (parse_u32 p) (\<lambda>(seqno, p).
     bind_res (parse_u32 p) (\<lambda>(ackno, p).
     bind_res (parse_u8 p) (\<lambda>(doff_b, p).
     bind_res (parse_u8 p) (\<lambda>(fl_b, p).
     bind_res (parse_u16 p) (\<lambda>(win, p).
     bind_res (parse_u16 p) (\<lambda>(cksum, p).
     bind_res (parse_u16 p) (\<lambda>(uptr, p).
       let doff = drop_bit 4 doff_b;
           h = h\<lparr>th_sport := sport, th_dport := dport, th_seqno := WrappingInt32 seqno,
                 th_ackno := WrappingInt32 ackno, th_doff := doff,
                 th_urg := (fl_b AND 0x20 \<noteq> 0), th_ack := (fl_b AND 0x10 \<noteq> 0), th_psh := (fl_b AND 0x08 \<noteq> 0),
                 th_rst := (fl_b AND 0x04 \<noteq> 0), th_syn := (fl_b AND 0x02 \<noteq> 0), th_fin := (fl_b AND 0x01 \<noteq> 0),
                 th_win := win, th_cksum := cksum, th_uptr := uptr\<rparr>
       in if doff < 5 then Inr (HeaderTooShort, h, p)
          else
            bind_res (parser_remove_prefix p (unat doff * 4 - TCPHeader_LENGTH)) (\<lambda>p.
              if parser_error p then Inr (np_error p, h, p) else Inr (NoError, h, p)))))))))))"

definition tcp_flags :: "TCPHeader \<Rightarrow> u8" where
  "tcp_flags h =
     (if th_urg h then 0x20 else 0) OR (if th_ack h then 0x10 else 0) OR (if th_psh h then 0x08 else 0) OR
     (if th_rst h then 0x04 else 0) OR (if th_syn h then 0x02 else 0) OR (if th_fin h then 0x01 else 0)"

definition tcp_header_serialize :: "TCPHeader \<Rightarrow> byte list res" where
  "tcp_header_serialize h =
     (if th_doff h < 5 then Inl (Runtime_error ''TCP header too short'')
      else
        let ret = [];
            ret = unparse_u16 ret (th_sport h);
            ret = unparse_u16 ret (th_dport h);
            ret = unparse_u32 ret (raw_value (th_seqno h));
            ret = unparse_u32 ret (raw_value (th_ackno h));
            ret = unparse_u8 ret (push_bit 4 (th_doff h));
            ret = unparse_u8 ret (tcp_flags h);
            ret = unparse_u16 ret (th_win h);
            ret = unparse_u16 ret (th_cksum h);
            ret = unparse_u16 ret (th_uptr h)
        in Inr (resize ret (4 * unat (th_doff h))))"

section \<open>The TCP segment\<close>

record TCPSegment =
  ts_header :: TCPHeader
  ts_payload :: buffer

definition TCPSegment0 :: TCPSegment where
  "TCPSegment0 = \<lparr>ts_header = TCPHeader0, ts_payload = empty_Buffer\<rparr>"

definition tcp_segment_parse :: "TCPSegment \<Rightarrow> buffer \<Rightarrow> u32 \<Rightarrow> (ParseResult \<times> TCPSegment) res" where
  "tcp_segment_parse seg buf datagram_layer_checksum =
     (let check = ic_add (InternetChecksum datagram_layer_checksum) (buffer_str buf) in
      if ic_value check \<noteq> 0 then Inr (BadChecksum, seg)
      else
        bind_res (tcp_header_parse (ts_header seg) (NetParser buf)) (\<lambda>(_, h, p).
          Inr (np_error p, seg\<lparr>ts_header := h, ts_payload := np_buffer p\<rparr>)))"

definition length_in_sequence_space :: "TCPSegment \<Rightarrow> u64" where
  "length_in_sequence_space seg =
     length (buffer_str (ts_payload seg)) + (if th_syn (ts_header seg) then 1 else 0) +
     (if th_fin (ts_header seg) then 1 else 0)"

definition tcp_segment_serialize :: "TCPSegment \<Rightarrow> u32 \<Rightarrow> buffer_list res" where
  "tcp_segment_serialize seg datagram_layer_checksum =
     (let header_out = (ts_header seg)\<lparr>th_cksum := 0\<rparr> in
      bind_res (tcp_header_serialize header_out) (\<lambda>zero_checksum.
        let check = ic_add (InternetChecksum datagram_layer_checksum) zero_checksum;
            check = ic_add check (buffer_str (ts_payload seg));
            header_out = header_out\<lparr>th_cksum := ic_value check\<rparr>
        in bind_res (tcp_header_serialize header_out) (\<lambda>hdr.
             Inr (bl_append (bl_append [] (BufferList_of_string hdr)) (BufferList (ts_payload seg))))))"

section \<open>Segments of a stream\<close>

text \<open>
  A segment of the stream \<open>S\<close> with initial sequence number \<open>isn\<close>, at absolute sequence number \<open>num\<close>: the SYN
  has number 0 and the byte with index \<open>k\<close> has number \<open>k + 1\<close>; a FIN comes with the end of the stream; a
  segment without payload, such as an acknowledgment, may have any number.
\<close>

definition seg_index :: "TCPSegment \<Rightarrow> nat \<Rightarrow> nat" where
  "seg_index seg num = (if th_syn (ts_header seg) then num else num - 1)"

definition seg_at :: "byte list \<Rightarrow> WrappingInt32 \<Rightarrow> TCPSegment \<Rightarrow> nat \<Rightarrow> bool" where
  "seg_at S isn seg num \<longleftrightarrow>
     th_seqno (ts_header seg) = wrap num isn \<and>
     (if th_syn (ts_header seg) then num = 0 else 0 < num) \<and>
     (agrees S (seg_index seg num) (buffer_str (ts_payload seg)) \<or>
        buffer_str (ts_payload seg) = [] \<and> \<not> th_fin (ts_header seg)) \<and>
     (th_fin (ts_header seg) \<longrightarrow> seg_index seg num + length (buffer_str (ts_payload seg)) = length S)"

section \<open>Lemmas\<close>

text \<open>The bytes of a header in terms of big-endian fields, split at the checksum.\<close>

definition tcp_before_cksum :: "TCPHeader \<Rightarrow> byte list" where
  "tcp_before_cksum h =
     be_bytes 2 (unat (th_sport h)) @ be_bytes 2 (unat (th_dport h)) @
     be_bytes 4 (unat (raw_value (th_seqno h))) @ be_bytes 4 (unat (raw_value (th_ackno h))) @
     [push_bit 4 (th_doff h), tcp_flags h] @ be_bytes 2 (unat (th_win h))"

definition tcp_after_cksum :: "TCPHeader \<Rightarrow> byte list" where
  "tcp_after_cksum h = be_bytes 2 (unat (th_uptr h)) @ replicate (4 * unat (th_doff h) - 20) 0"

lemma length_tcp_parts [simp]:
  "length (tcp_before_cksum h) = 16" "length (tcp_after_cksum h) = 2 + (4 * unat (th_doff h) - 20)"
  by (simp_all add: tcp_before_cksum_def tcp_after_cksum_def)

lemma tcp_parts_cksum [simp]:
  "tcp_before_cksum (h\<lparr>th_cksum := c\<rparr>) = tcp_before_cksum h" "tcp_after_cksum (h\<lparr>th_cksum := c\<rparr>) = tcp_after_cksum h"
  by (simp_all add: tcp_before_cksum_def tcp_after_cksum_def tcp_flags_def)

lemma tcp_header_serialize_eq:
  assumes "5 \<le> th_doff h"
  shows "tcp_header_serialize h =
    Inr (tcp_before_cksum h @ be_bytes 2 (unat (th_cksum h)) @ tcp_after_cksum h)"
proof -
  have "20 \<le> 4 * unat (th_doff h)" using assms by (simp add: word_le_nat_alt)
  then show ?thesis
    using assms
    by (simp add: tcp_header_serialize_def Let_def unparse_u_eq resize_def tcp_before_cksum_def tcp_after_cksum_def not_less)
qed

lemma tcp_header_serialize_throws:
  "th_doff h < 5 \<Longrightarrow> tcp_header_serialize h = Inl (Runtime_error ''TCP header too short'')"
  by (simp add: tcp_header_serialize_def)

lemma tcp_flags_read:
  "tcp_flags h AND 0x20 \<noteq> 0 \<longleftrightarrow> th_urg h" "tcp_flags h AND 0x10 \<noteq> 0 \<longleftrightarrow> th_ack h" "tcp_flags h AND 0x08 \<noteq> 0 \<longleftrightarrow> th_psh h"
  "tcp_flags h AND 0x04 \<noteq> 0 \<longleftrightarrow> th_rst h" "tcp_flags h AND 0x02 \<noteq> 0 \<longleftrightarrow> th_syn h" "tcp_flags h AND 0x01 \<noteq> 0 \<longleftrightarrow> th_fin h"
  by (cases "th_urg h"; cases "th_ack h"; cases "th_psh h"; cases "th_rst h"; cases "th_syn h"; cases "th_fin h";
      simp add: tcp_flags_def)+

lemma nibble_shift:
  assumes "n < (16 :: u8)"
  shows "drop_bit 4 (push_bit 4 n) = n"
proof -
  have "unat n < 16" using assms by (simp add: word_less_nat_alt)
  then have "unat (push_bit 4 n) = unat n * 16" by (simp add: push_bit_eq_mult unat_word_ariths)
  then have "unat (drop_bit 4 (push_bit 4 n)) = unat n" using unat_drop_bit_div [of 4 "push_bit 4 n"] by simp
  then show ?thesis by (simp add: word_unat_eq_iff)
qed

text \<open>Parsing consumes the fields and the padding; it never throws.\<close>

lemma tcp_header_parse_total:
  assumes "buffer_ok (np_buffer p)"
  shows "\<exists>r h' p'. tcp_header_parse h p = Inr (r, h', p') \<and> buffer_ok (np_buffer p')"
  using assms by (simp add: tcp_header_parse_def Let_def del: One_nat_def)

lemma tcp_header_roundtrip:
  assumes "reads p (hdr @ rest)" and ser: "tcp_header_serialize h = Inr hdr" and "th_doff h < 16"
  shows "yields NoError (tcp_header_parse h0 p) h rest"
proof -
  have d5: "5 \<le> th_doff h" using ser tcp_header_serialize_throws [of h] by (cases "th_doff h < 5") auto
  then have d: "\<not> th_doff h < 5" "20 \<le> 4 * unat (th_doff h)" by (simp_all add: word_le_nat_alt word_less_nat_alt)
  have "reads p (be_bytes 2 (unat (th_sport h)) @ be_bytes 2 (unat (th_dport h)) @
      be_bytes 4 (unat (raw_value (th_seqno h))) @ be_bytes 4 (unat (raw_value (th_ackno h))) @
      push_bit 4 (th_doff h) # tcp_flags h # be_bytes 2 (unat (th_win h)) @
      be_bytes 2 (unat (th_cksum h)) @ be_bytes 2 (unat (th_uptr h)) @ replicate (4 * unat (th_doff h) - 20) 0 @ rest)"
    using assms(1) ser tcp_header_serialize_eq [OF d5] by (auto simp: tcp_before_cksum_def tcp_after_cksum_def)
  then show ?thesis
    unfolding tcp_header_parse_def
    apply -
    apply (erule yields_step, simp only: prod.case)+
    apply (simp add: nibble_shift [OF assms(3)] d tcp_flags_read Let_def)
    apply (erule yields_remove)
     apply (simp add: mult.commute)
    apply (auto intro!: yields_done TCPHeader.equality simp: reads_error)
    done
qed

text \<open>The bytes of a serialised segment, and that its checksum verifies.\<close>

lemma tcp_segment_serialize_eq:
  assumes "5 \<le> th_doff (ts_header seg)"
  shows "\<exists>c hdr. tcp_segment_serialize seg ck = Inr [Buffer hdr, ts_payload seg] \<and>
    tcp_header_serialize ((ts_header seg)\<lparr>th_cksum := c\<rparr>) = Inr hdr \<and>
    length hdr = 4 * unat (th_doff (ts_header seg)) \<and>
    (unat ck + 65535 * ((4 * unat (th_doff (ts_header seg)) + length (buffer_str (ts_payload seg)) + 1) div 2) < 2 ^ 32 \<longrightarrow>
     ic_value (ic_add (InternetChecksum ck) (hdr @ buffer_str (ts_payload seg))) = 0)"
proof -
  let ?h = "ts_header seg" and ?pay = "buffer_str (ts_payload seg)"
  let ?pre = "tcp_before_cksum ?h" and ?post = "tcp_after_cksum ?h"
  define c where "c = ic_value (ic_add (InternetChecksum ck) (?pre @ be_bytes 2 0 @ ?post @ ?pay))"
  define hdr where "hdr = ?pre @ be_bytes 2 (unat c) @ ?post"
  have ser: "tcp_header_serialize (?h\<lparr>th_cksum := v\<rparr>) = Inr (?pre @ be_bytes 2 (unat v) @ ?post)" for v
    using tcp_header_serialize_eq [of "?h\<lparr>th_cksum := v\<rparr>"] assms by simp
  have "ic_add (ic_add (InternetChecksum ck) (?pre @ be_bytes 2 0 @ ?post)) ?pay =
      ic_add (InternetChecksum ck) (?pre @ be_bytes 2 0 @ ?post @ ?pay)" by (simp add: ic_add_append)
  then have 1: "tcp_segment_serialize seg ck = Inr [Buffer hdr, ts_payload seg]"
    using ser [of 0] ser [of c]
    by (simp add: tcp_segment_serialize_def Let_def hdr_def c_def BufferList_of_string_def BufferList_def)
  have d: "20 \<le> 4 * unat (th_doff ?h)" using assms by (simp add: word_le_nat_alt)
  then have 2: "length hdr = 4 * unat (th_doff ?h)" by (simp add: hdr_def)
  have "ic_value (ic_add (InternetChecksum ck) (hdr @ ?pay)) = 0"
    if "unat ck + 65535 * ((4 * unat (th_doff ?h) + length ?pay + 1) div 2) < 2 ^ 32"
  proof -
    have "length ?pre + length (?post @ ?pay) + 3 = 4 * unat (th_doff ?h) + length ?pay + 1" using d by simp
    then have "unat ck + 65535 * ((length ?pre + length (?post @ ?pay) + 3) div 2) < 2 ^ 32"
      using that by (simp only:)
    from checksum_field [OF _ this] show ?thesis by (simp add: hdr_def c_def)
  qed
  then show ?thesis using 1 2 ser [of c] unfolding hdr_def by blast
qed

lemma tcp_segment_wire:
  assumes "5 \<le> th_doff (ts_header seg)" and "th_doff (ts_header seg) < 16"
    and "unat ck + 65535 * ((4 * unat (th_doff (ts_header seg)) + length (buffer_str (ts_payload seg)) + 1) div 2) < 2 ^ 32"
  shows "\<exists>bl c. tcp_segment_serialize seg ck = Inr bl \<and>
    length (concatenate bl) = 4 * unat (th_doff (ts_header seg)) + length (buffer_str (ts_payload seg)) \<and>
    length (concatenate bl) < 2 ^ 32 \<and>
    (\<forall>buf. buffer_ok buf \<and> buffer_str buf = concatenate bl \<longrightarrow>
      (\<exists>seg'. tcp_segment_parse seg0 buf ck = Inr (NoError, seg') \<and> ts_header seg' = (ts_header seg)\<lparr>th_cksum := c\<rparr> \<and>
         buffer_ok (ts_payload seg') \<and> buffer_str (ts_payload seg') = buffer_str (ts_payload seg)))"
proof -
  let ?pay = "buffer_str (ts_payload seg)"
  obtain c hdr where *: "tcp_segment_serialize seg ck = Inr [Buffer hdr, ts_payload seg]"
    "tcp_header_serialize ((ts_header seg)\<lparr>th_cksum := c\<rparr>) = Inr hdr"
    "length hdr = 4 * unat (th_doff (ts_header seg))"
    "ic_value (ic_add (InternetChecksum ck) (hdr @ ?pay)) = 0"
    using tcp_segment_serialize_eq [OF assms(1), of ck] assms(3) by blast
  have "65535 * ((length hdr + length ?pay + 1) div 2) < 2 ^ 32" using assms(3) unfolding *(3) [symmetric] by linarith
  then have "length (hdr @ ?pay) < 2 ^ 32" by auto
  moreover have "\<exists>seg'. tcp_segment_parse seg0 buf ck = Inr (NoError, seg') \<and> ts_header seg' = (ts_header seg)\<lparr>th_cksum := c\<rparr> \<and>
         buffer_ok (ts_payload seg') \<and> buffer_str (ts_payload seg') = ?pay"
    if buf: "buffer_ok buf" "buffer_str buf = hdr @ ?pay" for buf
  proof -
    have "reads (NetParser buf) (hdr @ ?pay)" using reads_NetParser [OF buf(1)] buf(2) by simp
    from tcp_header_roundtrip [OF this *(2), of "ts_header seg0"] assms(2) obtain p where
      "tcp_header_parse (ts_header seg0) (NetParser buf) = Inr (NoError, (ts_header seg)\<lparr>th_cksum := c\<rparr>, p)"
      "reads p ?pay" by (auto simp: yields_def)
    then show ?thesis using *(4) buf(2) by (auto simp: tcp_segment_parse_def reads_def)
  qed
  ultimately show ?thesis using *(1,3) by auto
qed

text \<open>A segment whose checksum cannot overflow, and segments that differ in the checksum only.\<close>

definition seg_ok :: "u32 \<Rightarrow> TCPSegment \<Rightarrow> bool" where
  "seg_ok ck seg \<longleftrightarrow>
     5 \<le> th_doff (ts_header seg) \<and> th_doff (ts_header seg) < 16 \<and>
     unat ck + 65535 * ((4 * unat (th_doff (ts_header seg)) + length (buffer_str (ts_payload seg)) + 1) div 2) < 2 ^ 32"

definition seg_same :: "TCPSegment \<Rightarrow> TCPSegment \<Rightarrow> bool" where
  "seg_same seg seg' \<longleftrightarrow>
     (\<exists>c. ts_header seg' = (ts_header seg)\<lparr>th_cksum := c\<rparr>) \<and> buffer_str (ts_payload seg') = buffer_str (ts_payload seg)"

interpretation tw: wire_format "\<lambda>seg. tcp_segment_serialize seg ck" "\<lambda>buf. tcp_segment_parse TCPSegment0 buf ck"
  "seg_ok ck" seg_same for ck
proof
  fix x y z
  show "seg_same x y \<Longrightarrow> seg_same y x"
    by (auto simp: seg_same_def intro!: exI [of _ "th_cksum (ts_header x)"])
  show "seg_same x y \<Longrightarrow> seg_same y z \<Longrightarrow> seg_same x z" by (auto simp: seg_same_def)
  show "seg_same x y \<Longrightarrow> seg_ok ck x \<Longrightarrow> seg_ok ck y" by (auto simp: seg_same_def seg_ok_def)
  assume "seg_ok ck x"
  then obtain bl c where bl: "tcp_segment_serialize x ck = Inr bl" "length (concatenate bl) < 2 ^ 32"
    and dec: "\<And>buf. buffer_ok buf \<Longrightarrow> buffer_str buf = concatenate bl \<Longrightarrow>
      \<exists>seg'. tcp_segment_parse TCPSegment0 buf ck = Inr (NoError, seg') \<and> ts_header seg' = (ts_header x)\<lparr>th_cksum := c\<rparr> \<and>
         buffer_ok (ts_payload seg') \<and> buffer_str (ts_payload seg') = buffer_str (ts_payload x)"
    using tcp_segment_wire [of x ck TCPSegment0] unfolding seg_ok_def by blast
  have "\<exists>y. tcp_segment_parse TCPSegment0 buf ck = Inr (NoError, y) \<and> seg_same x y"
    if "buffer_ok buf" "buffer_str buf = concatenate bl" for buf
    using dec [OF that] unfolding seg_same_def by blast
  moreover have "length (concatenate bl) < 2 ^ 64" using bl(2) by simp
  ultimately show "\<exists>bl. tcp_segment_serialize x ck = Inr bl \<and> length (concatenate bl) < 2 ^ 64 \<and>
      (\<forall>buf. buffer_ok buf \<and> buffer_str buf = concatenate bl \<longrightarrow>
         (\<exists>y. tcp_segment_parse TCPSegment0 buf ck = Inr (NoError, y) \<and> seg_same x y))"
    using bl(1) by blast
qed

section \<open>Properties\<close>

text \<open>
  C15. Round trip of a TCP segment: serialising a segment and parsing the bytes with the same pseudo-header
  checksum gives \<^verbatim>\<open>NoError\<close> and the same segment, whose checksum field is the one the serialiser
  computed; the parser's check of it succeeds. Header padding for a data offset above 5 is skipped.
\<close>

theorem tcp_segment_roundtrip:
  assumes "5 \<le> th_doff (ts_header seg)" and "th_doff (ts_header seg) < 16"
    and "unat ck + 65535 * ((4 * unat (th_doff (ts_header seg)) + length (buffer_str (ts_payload seg)) + 1) div 2) < 2 ^ 32"
  shows "\<exists>bl c seg'. tcp_segment_serialize seg ck = Inr bl \<and>
    tcp_segment_parse seg0 (Buffer (concatenate bl)) ck = Inr (NoError, seg') \<and>
    ts_header seg' = (ts_header seg)\<lparr>th_cksum := c\<rparr> \<and> buffer_str (ts_payload seg') = buffer_str (ts_payload seg)"
proof -
  from tcp_segment_wire [OF assms, of seg0] obtain bl c where bl: "tcp_segment_serialize seg ck = Inr bl"
    "length (concatenate bl) < 2 ^ 32"
    and *: "\<And>buf. buffer_ok buf \<Longrightarrow> buffer_str buf = concatenate bl \<Longrightarrow>
      \<exists>seg'. tcp_segment_parse seg0 buf ck = Inr (NoError, seg') \<and> ts_header seg' = (ts_header seg)\<lparr>th_cksum := c\<rparr> \<and>
         buffer_ok (ts_payload seg') \<and> buffer_str (ts_payload seg') = buffer_str (ts_payload seg)"
    by blast
  from * [of "Buffer (concatenate bl)"] bl show ?thesis by auto
qed

theorem tcp_segment_roundtrip_witness:
  "\<exists>bl c seg'. tcp_segment_serialize \<lparr>ts_header = TCPHeader0\<lparr>th_syn := True\<rparr>, ts_payload = Buffer [1, 2, 3]\<rparr> 17 = Inr bl \<and>
    tcp_segment_parse TCPSegment0 (Buffer (concatenate bl)) 17 = Inr (NoError, seg') \<and>
    ts_header seg' = TCPHeader0\<lparr>th_syn := True, th_cksum := c\<rparr> \<and> buffer_str (ts_payload seg') = [1, 2, 3]"
  using tcp_segment_roundtrip [of "\<lparr>ts_header = TCPHeader0\<lparr>th_syn := True\<rparr>, ts_payload = Buffer [1, 2, 3]\<rparr>" 17 TCPSegment0]
  by (simp add: TCPHeader0_def)

lemma tcp_header_parse_length:
  assumes "buffer_ok (np_buffer p)" and "tcp_header_parse h p = Inr (r, h', p')" and "np_error p' = NoError"
  shows "20 \<le> length (buffer_str (np_buffer p))"
proof -
  let ?p = "nx 2 (nx 2 (nx 2 (nx 1 (nx 1 (nx 4 (nx 4 (nx 2 (nx 2 p))))))))"
  have "p' = ?p \<or> (\<exists>n. p' = nx n ?p)"
    using assms(1,2) by (auto simp: tcp_header_parse_def Let_def split: if_splits)
  then have "np_error ?p = NoError" using assms(1,3) by (auto simp: nx_noerror)
  then have "np_error (fold nx [2, 2, 4, 4, 1, 1, 2, 2, 2] p) = NoError" by simp
  then show ?thesis unfolding fold_nx_noerror [OF assms(1)] by simp
qed

text \<open>
  C20. The error paths of \<^verbatim>\<open>TCPSegment::parse\<close>: it never throws, and it accepts a byte string (returns
  \<^verbatim>\<open>NoError\<close>) only if the checksum over the string and the pseudo-header is zero and the string holds at
  least the 20 bytes of the fixed header.
\<close>

theorem tcp_segment_parse_safe:
  assumes "buffer_ok buf"
  shows "\<exists>r seg'. tcp_segment_parse seg buf ck = Inr (r, seg') \<and>
    (r = NoError \<longrightarrow> ic_value (ic_add (InternetChecksum ck) (buffer_str buf)) = 0 \<and> 20 \<le> length (buffer_str buf))"
proof (cases "ic_value (ic_add (InternetChecksum ck) (buffer_str buf)) = 0")
  case True
  have ok: "buffer_ok (np_buffer (NetParser buf))" using assms by (simp add: NetParser_def)
  obtain r h' p' where "tcp_header_parse (ts_header seg) (NetParser buf) = Inr (r, h', p')"
    using tcp_header_parse_total [OF ok] by blast
  then show ?thesis
    using True tcp_header_parse_length [OF ok] by (simp add: tcp_segment_parse_def NetParser_def)
qed (simp add: tcp_segment_parse_def)

theorem tcp_segment_parse_safe_witness:
  "\<exists>r seg'. tcp_segment_parse TCPSegment0 (Buffer [1, 2, 3]) 0 = Inr (r, seg') \<and> r \<noteq> NoError"
  using tcp_segment_parse_safe [of "Buffer [1, 2, 3]" TCPSegment0 0] by auto

end
