(* ===== verification/TCP_Receiver.thy ===== *)
theory TCP_Receiver
  imports Stream_Reassembler TCP_Segment
begin

text \<open>
  \<^verbatim>\<open>libsponge/tcp_receiver.{hh,cc}\<close>: inbound segments are translated from 32-bit sequence numbers to stream
  indices and pushed into the reassembler; the acknowledgment number and the window are read off its
  output. A step relation describes a receiver that gets the segments of one stream in any order and a
  reader that takes bytes out.
\<close>

section \<open>Definitions\<close>

record tcp_receiver =
  rcv_reassembler :: stream_reassembler
  rcv_capacity :: u64
  rcv_set_syn :: bool
  rcv_set_fin :: bool
  rcv_isn :: WrappingInt32

definition TCPReceiver :: "u64 \<Rightarrow> tcp_receiver" where
  "TCPReceiver capacity =
     \<lparr>rcv_reassembler = StreamReassembler capacity, rcv_capacity = capacity, rcv_set_syn = False,
      rcv_set_fin = False, rcv_isn = WrappingInt32 0\<rparr>"

definition stream_out :: "tcp_receiver \<Rightarrow> byte_stream" where
  "stream_out r = sr_output (rcv_reassembler r)"

definition receiver_unassembled_bytes :: "tcp_receiver \<Rightarrow> u64" where
  "receiver_unassembled_bytes r = unassembled_bytes (rcv_reassembler r)"

definition segment_received :: "tcp_receiver \<Rightarrow> TCPSegment \<Rightarrow> tcp_receiver res" where
  "segment_received r seg =
     (let header = ts_header seg;
          syn = th_syn header;
          fin = th_fin header
      in if \<not> rcv_set_syn r \<and> \<not> syn then Inr r
      else
        let r = (if \<not> rcv_set_syn r then r\<lparr>rcv_set_syn := True, rcv_isn := th_seqno header\<rparr> else r);
            checkpoint = add64 (bytes_written (stream_out r)) 1;
            abs_seqno = unwrap (th_seqno header) (rcv_isn r) checkpoint;
            stream_index = add64 abs_seqno (if syn then 0 else 2 ^ 64 - 1)
        in bind_res (push_substring (rcv_reassembler r) (buffer_copy (ts_payload seg)) stream_index fin)
             (\<lambda>ra. let r = r\<lparr>rcv_reassembler := ra\<rparr> in Inr (if fin then r\<lparr>rcv_set_fin := True\<rparr> else r)))"

definition receiver_ackno :: "tcp_receiver \<Rightarrow> WrappingInt32 option" where
  "receiver_ackno r =
     (if \<not> rcv_set_syn r then None
      else
        let unassembled_index = add64 (bytes_written (stream_out r)) 1 in
        if input_ended (stream_out r) then Some (wrap (add64 unassembled_index 1) (rcv_isn r))
        else Some (wrap unassembled_index (rcv_isn r)))"

definition window_size :: "tcp_receiver \<Rightarrow> u64" where
  "window_size r = sub64 (rcv_capacity r) (buffer_size (stream_out r))"

section \<open>Invariant\<close>

text \<open>The 32-bit number of a segment determines its absolute number only within \<open>2 ^ 31\<close> of the checkpoint.\<close>

definition seg_near :: "tcp_receiver \<Rightarrow> nat \<Rightarrow> bool" where
  "seg_near r num \<longleftrightarrow>
     num < bytes_written (stream_out r) + 1 + 2 ^ 31 \<and> bytes_written (stream_out r) + 1 < num + 2 ^ 31"

definition rcv_inv :: "byte list \<Rightarrow> WrappingInt32 \<Rightarrow> tcp_receiver \<Rightarrow> bool" where
  "rcv_inv S isn r \<longleftrightarrow>
     sr_safe S (rcv_reassembler r) \<and> sr_capacity (rcv_reassembler r) = rcv_capacity r \<and>
     length S + 2 ^ 32 < 2 ^ 64 \<and>
     (if rcv_set_syn r then rcv_isn r = isn else rcv_reassembler r = StreamReassembler (rcv_capacity r))"

lemma rcv_inv_TCPReceiver:
  "length S + capacity < 2 ^ 64 \<Longrightarrow> length S + 2 ^ 32 < 2 ^ 64 \<Longrightarrow> rcv_inv S isn (TCPReceiver capacity)"
  using sr_safe_StreamReassembler [of S capacity]
  by (simp add: rcv_inv_def TCPReceiver_def StreamReassembler_def [of capacity] )

text \<open>The translation to a stream index is right for the segments that are near.\<close>

lemma seg_index_correct:
  assumes "rcv_inv S isn r" and "seg_at S isn seg num" and "seg_near r num" and "rcv_isn r = isn"
  shows "add64 (unwrap (th_seqno (ts_header seg)) (rcv_isn r) (add64 (bytes_written (stream_out r)) 1))
    (if th_syn (ts_header seg) then 0 else 2 ^ 64 - 1) = seg_index seg num"
proof -
  have bw: "bytes_written (stream_out r) \<le> length S" "length S + 2 ^ 32 < 2 ^ 64"
    using assms(1) sr_core_bounds(2) [of S "rcv_reassembler r"]
    by (simp_all add: rcv_inv_def sr_safe_def sr_core_def stream_out_def)
  then have cp: "add64 (bytes_written (stream_out r)) 1 = bytes_written (stream_out r) + 1" by (simp add: add64_exact)
  have num: "num < 2 ^ 64" using assms(3) bw by (simp add: seg_near_def)
  have "unwrap (wrap num isn) isn (bytes_written (stream_out r) + 1) = num"
    using assms(3) bw by (intro unwrap_wrap_near) (simp_all add: seg_near_def)
  moreover have "add64 num (2 ^ 64 - 1) = num - 1" if "0 < num"
  proof -
    have "num + (2 ^ 64 - 1) = (num - 1) + 2 ^ 64" using that by simp
    then have "add64 num (2 ^ 64 - 1) = ((num - 1) + 2 ^ 64) mod 2 ^ 64" by (simp only: add64_def)
    then show ?thesis using num by simp
  qed
  ultimately show ?thesis
    using assms(2,4) num cp by (simp add: seg_at_def seg_index_def split: if_splits)
qed

lemma rcv_inv_syn:
  assumes "rcv_inv S isn r" and "seg_at S isn seg num" and "rcv_set_syn r \<or> th_syn (ts_header seg)"
  defines "r1 \<equiv> (if \<not> rcv_set_syn r then r\<lparr>rcv_set_syn := True, rcv_isn := th_seqno (ts_header seg)\<rparr> else r)"
  shows "rcv_inv S isn r1" "rcv_isn r1 = isn" "rcv_set_syn r1" "rcv_reassembler r1 = rcv_reassembler r"
  using assms by (auto simp: rcv_inv_def seg_at_def wrap_0)

lemma segment_received_step:
  assumes "rcv_inv S isn r" and "seg_at S isn seg num" and "seg_near r num" and "rcv_set_syn r \<or> th_syn (ts_header seg)"
  shows "\<exists>ra. push_substring (rcv_reassembler r) (buffer_str (ts_payload seg)) (seg_index seg num) (th_fin (ts_header seg)) = Inr ra \<and>
    sr_safe S ra \<and> sr_capacity ra = sr_capacity (rcv_reassembler r) \<and>
    bytes_read (sr_output ra) = bytes_read (stream_out r) \<and> bytes_written (stream_out r) \<le> bytes_written (sr_output ra) \<and>
    segment_received r seg =
      Inr (r\<lparr>rcv_reassembler := ra, rcv_set_syn := True, rcv_isn := isn,
             rcv_set_fin := (rcv_set_fin r \<or> th_fin (ts_header seg))\<rparr>)"
proof -
  define r1 where "r1 = (if \<not> rcv_set_syn r then r\<lparr>rcv_set_syn := True, rcv_isn := th_seqno (ts_header seg)\<rparr> else r)"
  note r1 = rcv_inv_syn [OF assms(1,2,4), folded r1_def]
  have so: "stream_out r1 = stream_out r" using r1(4) by (simp add: stream_out_def)
  then have "seg_near r1 num" using assms(3) by (simp add: seg_near_def)
  note idx = seg_index_correct [OF r1(1) assms(2) this r1(2)]
  have safe: "sr_safe S (rcv_reassembler r)" and len: "length S + 2 ^ 32 < 2 ^ 64"
    using assms(1) by (simp_all add: rcv_inv_def)
  have num: "seg_index seg num < 2 ^ 64"
    using assms(1,3) sr_core_bounds(2) [of S "rcv_reassembler r"]
    by (auto simp: seg_near_def seg_index_def rcv_inv_def sr_safe_def sr_core_def stream_out_def)
  have agr: "agrees S (seg_index seg num) (buffer_str (ts_payload seg)) \<or>
      bytes_read (sr_output (rcv_reassembler r)) + sr_capacity (rcv_reassembler r) < seg_index seg num \<or>
      buffer_str (ts_payload seg) = [] \<and> seg_index seg num < 2 ^ 64"
    and fin: "th_fin (ts_header seg) \<Longrightarrow> seg_index seg num + length (buffer_str (ts_payload seg)) = length S"
    using assms(2) num by (auto simp: seg_at_def)
  have "th_fin (ts_header seg) \<Longrightarrow> add64 (seg_index seg num) (length (buffer_str (ts_payload seg))) = length S"
    using fin len by (simp add: add64_exact)
  from push_substring_safe_step [OF safe agr this] obtain ra where
    ra: "push_substring (rcv_reassembler r) (buffer_str (ts_payload seg)) (seg_index seg num) (th_fin (ts_header seg)) = Inr ra"
    "sr_safe S ra" "sr_unassembled_index (rcv_reassembler r) \<le> sr_unassembled_index ra"
    "sr_capacity ra = sr_capacity (rcv_reassembler r)" "bytes_read (sr_output ra) = bytes_read (stream_out r)"
    by (auto simp: stream_out_def)
  have "segment_received r seg =
      bind_res (push_substring (rcv_reassembler r1) (buffer_str (ts_payload seg)) (seg_index seg num) (th_fin (ts_header seg)))
        (\<lambda>ra. let r = r1\<lparr>rcv_reassembler := ra\<rparr> in Inr (if th_fin (ts_header seg) then r\<lparr>rcv_set_fin := True\<rparr> else r))"
    using assms(4) unfolding segment_received_def Let_def r1_def [symmetric] idx buffer_copy_def by auto
  also have "\<dots> = Inr (r\<lparr>rcv_reassembler := ra, rcv_set_syn := True, rcv_isn := isn,
             rcv_set_fin := (rcv_set_fin r \<or> th_fin (ts_header seg))\<rparr>)"
    using ra(1) r1 by (auto simp: r1_def Let_def intro!: tcp_receiver.equality)
  finally show ?thesis using ra safe by (auto simp: sr_safe_def sr_core_def stream_out_def)
qed

lemma segment_received_inv:
  assumes "rcv_inv S isn r" and "seg_at S isn seg num" and "seg_near r num" and "rcv_set_syn r \<or> th_syn (ts_header seg)"
  shows "\<exists>r'. segment_received r seg = Inr r' \<and> rcv_inv S isn r' \<and> rcv_set_syn r' \<and>
    bytes_read (stream_out r') = bytes_read (stream_out r) \<and> bytes_written (stream_out r) \<le> bytes_written (stream_out r')"
  using segment_received_step [OF assms] assms(1) by (auto simp: rcv_inv_def stream_out_def)

section \<open>Reachable states\<close>

text \<open>
  The receiver with the bytes its reader has taken. Before the SYN any other segment is ignored; after
  that the segments of one stream arrive, in any order and any number of times.
\<close>

inductive rcv_step ::
  "byte list \<Rightarrow> WrappingInt32 \<Rightarrow> tcp_receiver \<times> byte list \<Rightarrow> tcp_receiver \<times> byte list \<Rightarrow> bool"
  for S isn
where
  ignored: "\<not> rcv_set_syn r \<Longrightarrow> \<not> th_syn (ts_header seg) \<Longrightarrow> segment_received r seg = Inr r' \<Longrightarrow>
    rcv_step S isn (r, d) (r', d)"
| arrives: "seg_at S isn seg num \<Longrightarrow> seg_near r num \<Longrightarrow> rcv_set_syn r \<or> th_syn (ts_header seg) \<Longrightarrow>
    segment_received r seg = Inr r' \<Longrightarrow> rcv_step S isn (r, d) (r', d)"
| reads: "bs_read (stream_out r) n = (out, bytes) \<Longrightarrow>
    rcv_step S isn (r, d) (r\<lparr>rcv_reassembler := (rcv_reassembler r)\<lparr>sr_output := out\<rparr>\<rparr>, d @ bytes)"

definition rcv_reach :: "byte list \<Rightarrow> WrappingInt32 \<Rightarrow> u64 \<Rightarrow> tcp_receiver \<Rightarrow> byte list \<Rightarrow> bool" where
  "rcv_reach S isn capacity r d \<longleftrightarrow> (rcv_step S isn)\<^sup>*\<^sup>* (TCPReceiver capacity, []) (r, d)"

definition rcv_state :: "byte list \<Rightarrow> WrappingInt32 \<Rightarrow> tcp_receiver \<times> byte list \<Rightarrow> bool" where
  "rcv_state S isn x \<longleftrightarrow>
     rcv_inv S isn (fst x) \<and> agrees S 0 (snd x) \<and> bytes_read (stream_out (fst x)) = length (snd x) \<and>
     (\<not> rcv_set_syn (fst x) \<longrightarrow> snd x = [])"

lemma rcv_state_read:
  assumes "rcv_state S isn (r, d)" and "bs_read (stream_out r) n = (out, bytes)"
  shows "rcv_state S isn (r\<lparr>rcv_reassembler := (rcv_reassembler r)\<lparr>sr_output := out\<rparr>\<rparr>, d @ bytes)"
proof -
  let ?s = "stream_out r"
  have out: "out = pop_output ?s n" and bytes: "bytes = take n (bs_byte_stream ?s)"
    using assms(2) by (simp_all add: bs_read_eq)
  have safe: "sr_safe S (rcv_reassembler r)" using assms(1) by (simp add: rcv_state_def rcv_inv_def)
  then have at: "bs_at S ?s" "length S < 2 ^ 64"
    using sr_core_bounds(1) [of S "rcv_reassembler r"] by (simp_all add: sr_safe_def sr_core_def stream_out_def)
  have "bytes_read out = bytes_read ?s + length bytes" using bs_at_pop [OF at, of n] by (simp add: out bytes min.commute)
  moreover have "agrees S 0 (d @ bytes)"
    using assms(1) at(1) agrees_take [of S "bytes_read ?s"] by (simp add: rcv_state_def agrees_append bs_at_def bytes)
  moreover have "sr_safe S ((rcv_reassembler r)\<lparr>sr_output := out\<rparr>)"
    using sr_safe_read [OF safe] by (simp add: out stream_out_def)
  moreover have "out = ?s \<and> bytes = []" if "\<not> rcv_set_syn r"
  proof -
    have "?s = ByteStream (rcv_capacity r)" using assms(1) that by (simp add: rcv_state_def rcv_inv_def stream_out_def StreamReassembler_def)
    then show ?thesis by (simp add: out bytes ByteStream_def pop_output_def)
  qed
  ultimately show ?thesis
    using assms(1) by (auto simp: rcv_state_def rcv_inv_def stream_out_def intro: stream_reassembler.equality)
qed

lemma rcv_state_step: "rcv_step S isn x y \<Longrightarrow> rcv_state S isn x \<Longrightarrow> rcv_state S isn y"
proof (induction rule: rcv_step.induct)
  case (ignored r seg r' d)
  then show ?case by (simp add: segment_received_def)
next
  case (arrives seg num r r' d)
  then have "rcv_inv S isn r" by (simp add: rcv_state_def)
  from segment_received_inv [OF this arrives.hyps(1-3)] arrives show ?case by (auto simp: rcv_state_def)
next
  case (reads r n out bytes d)
  then show ?case by (intro rcv_state_read)
qed

lemma rcv_reach_state:
  assumes "rcv_reach S isn capacity r d" and "length S + capacity < 2 ^ 64" and "length S + 2 ^ 32 < 2 ^ 64"
  shows "rcv_state S isn (r, d)" "rcv_capacity r = capacity"
proof -
  have "rcv_state S isn y \<and> rcv_capacity (fst y) = capacity" if "(rcv_step S isn)\<^sup>*\<^sup>* (TCPReceiver capacity, []) y" for y
    using that
  proof (induction rule: rtranclp_induct)
    case base
    have "bytes_read (stream_out (TCPReceiver capacity)) = 0"
      by (simp add: TCPReceiver_def stream_out_def StreamReassembler_def ByteStream_def bytes_read_def)
    then show ?case
      using rcv_inv_TCPReceiver [OF assms(2,3)] by (simp add: rcv_state_def) (simp add: TCPReceiver_def)
  next
    case (step x y)
    have "rcv_capacity (fst y) = rcv_capacity (fst x)"
      using step.hyps(2) by cases (auto simp: segment_received_def Let_def bind_res_Inr_iff split: if_splits)
    then show ?case using step rcv_state_step by simp
  qed
  then show "rcv_state S isn (r, d)" "rcv_capacity r = capacity" using assms(1) by (auto simp: rcv_reach_def)
qed

section \<open>Properties\<close>

text \<open>
  C7. The receiver delivers the peer's stream: in every state reachable by the arrival of segments of the
  stream \<open>S\<close> (lost, duplicated, reordered or cut anyhow, within \<open>2 ^ 31\<close> of the assembled part) and by reads, the
  bytes the reader took followed by the buffered ones are a prefix of \<open>S\<close>, all of it once the input
  has ended; the acknowledgment number is that of the first byte still missing (absent before the
  SYN, one more after the FIN), the window is the free part of the capacity, and no further segment of
  the stream makes \<^verbatim>\<open>segment_received\<close> throw.
\<close>

theorem receiver_delivers_prefix:
  assumes "length S + capacity < 2 ^ 64" and "length S + 2 ^ 32 < 2 ^ 64" and "rcv_reach S isn capacity r d"
  shows "d @ bs_byte_stream (stream_out r) = take (bytes_written (stream_out r)) S \<and>
    (input_ended (stream_out r) \<longrightarrow> d @ bs_byte_stream (stream_out r) = S) \<and>
    receiver_ackno r =
      (if rcv_set_syn r
       then Some (wrap (bytes_written (stream_out r) + (if input_ended (stream_out r) then 2 else 1)) isn)
       else None) \<and>
    window_size r + buffer_size (stream_out r) = capacity \<and>
    (\<forall>seg num. seg_at S isn seg num \<and> seg_near r num \<longrightarrow> (\<exists>r'. segment_received r seg = Inr r'))"
proof -
  let ?s = "stream_out r"
  note state = rcv_reach_state [OF assms(3,1,2)]
  have inv: "rcv_inv S isn r" "agrees S 0 d" "bytes_read ?s = length d" using state by (simp_all add: rcv_state_def)
  then have core: "sr_core S (rcv_reassembler r)" and eof: "sr_eof_ok S (rcv_reassembler r)"
    by (simp_all add: rcv_inv_def sr_safe_def)
  have "agrees S 0 (d @ bs_byte_stream ?s)" "length (d @ bs_byte_stream ?s) = bytes_written ?s"
    using core inv(2,3) by (simp_all add: agrees_append sr_core_def bs_at_def stream_out_def)
  then have pre: "d @ bs_byte_stream ?s = take (bytes_written ?s) S" by (simp add: agrees_def)
  moreover have "input_ended ?s \<longrightarrow> bytes_written ?s = length S"
    using core eof by (auto simp: sr_eof_ok_def sr_core_def stream_out_def)
  moreover have bw: "bytes_written ?s \<le> length S" "buffer_size ?s \<le> capacity"
    using core state(2) inv(1) sr_core_bounds(2,5) [OF core]
    by (simp_all add: sr_core_def stream_out_def rcv_inv_def buffer_size_def)
  moreover have "receiver_ackno r = (if rcv_set_syn r then Some (wrap (bytes_written ?s + (if input_ended ?s then 2 else 1)) isn)
      else None)"
    using inv(1) bw(1) assms(2) by (auto simp: receiver_ackno_def Let_def add64_assoc rcv_inv_def add64_exact)
  moreover have "window_size r + buffer_size ?s = capacity"
    using bw(2) state(2) assms(1) by (simp add: window_size_def sub64_exact)
  moreover have "\<exists>r'. segment_received r seg = Inr r'" if "seg_at S isn seg num" "seg_near r num" for seg num
    using segment_received_inv [OF inv(1) that] by (cases "rcv_set_syn r \<or> th_syn (ts_header seg)") (auto simp: segment_received_def)
  ultimately show ?thesis by auto
qed

theorem receiver_delivers_prefix_witness:
  "\<exists>r. segment_received (TCPReceiver 8)
      \<lparr>ts_header = TCPHeader0\<lparr>th_syn := True, th_seqno := WrappingInt32 5\<rparr>, ts_payload = Buffer [1, 2]\<rparr> = Inr r \<and>
    window_size r + buffer_size (stream_out r) = 8 \<and>
    receiver_ackno r = Some (wrap (bytes_written (stream_out r) + (if input_ended (stream_out r) then 2 else 1)) (WrappingInt32 5))"
proof -
  let ?seg = "\<lparr>ts_header = TCPHeader0\<lparr>th_syn := True, th_seqno := WrappingInt32 5\<rparr>, ts_payload = Buffer [1, 2]\<rparr>"
  have at: "seg_at [1, 2, 3] (WrappingInt32 5) ?seg 0"
    by (simp add: seg_at_def seg_index_def agrees_def wrap_0 TCPHeader0_def)
  have near: "seg_near (TCPReceiver 8) 0"
    by (simp add: seg_near_def TCPReceiver_def stream_out_def StreamReassembler_def ByteStream_def bytes_written_def)
  obtain r where r: "segment_received (TCPReceiver 8) ?seg = Inr r" "rcv_set_syn r"
    using segment_received_inv [OF rcv_inv_TCPReceiver at near] by auto
  have "rcv_step [1, 2, 3] (WrappingInt32 5) (TCPReceiver 8, []) (r, [])"
    by (rule rcv_step.arrives [OF at near _ r(1)]) simp
  then have "rcv_reach [1, 2, 3] (WrappingInt32 5) 8 r []" by (auto simp: rcv_reach_def)
  then show ?thesis
    using receiver_delivers_prefix [of "[1, 2, 3]" 8 "WrappingInt32 5" r "[]"] r by simp
qed



end
