(* ===== verification/TCP_Sender.thy ===== *)
theory TCP_Sender
  imports Byte_Stream TCP_Segment
begin

text \<open>
  \<^verbatim>\<open>libsponge/tcp_sender.{hh,cc}\<close>: the retransmission timer and the sender, which cuts the outbound stream
  into segments that fit the peer's window, keeps the unacknowledged ones and retransmits the oldest
  one when the timer expires. Queues are lists with the front first. The two loops of
  \<^verbatim>\<open>fill_window\<close> terminate because every successful \<^verbatim>\<open>push_segment\<close> uses up a byte of the stream, the SYN or
  the FIN; this is the measure of their termination proofs.
\<close>

section \<open>The timer\<close>

record timer =
  tm_init_RTO :: u64
  tm_cur_RTO :: u64
  tm_elapsed_time :: u64
  tm_running :: bool

definition Timer :: "u64 \<Rightarrow> timer" where
  "Timer RTO = \<lparr>tm_init_RTO = RTO, tm_cur_RTO = RTO, tm_elapsed_time = 0, tm_running = False\<rparr>"

definition timer_start :: "timer \<Rightarrow> timer" where
  "timer_start t = t\<lparr>tm_elapsed_time := 0, tm_running := True\<rparr>"

definition timer_stop :: "timer \<Rightarrow> timer" where
  "timer_stop t = t\<lparr>tm_running := False\<rparr>"

definition timer_reset :: "timer \<Rightarrow> timer" where
  "timer_reset t = t\<lparr>tm_cur_RTO := tm_init_RTO t\<rparr>"

definition reset_double :: "timer \<Rightarrow> timer" where
  "reset_double t = t\<lparr>tm_cur_RTO := mul64 (tm_cur_RTO t) 2\<rparr>"

definition check_running :: "timer \<Rightarrow> bool" where
  "check_running t = tm_running t"

definition timer_tick :: "timer \<Rightarrow> u64 \<Rightarrow> timer" where
  "timer_tick t ms = (if check_running t then t\<lparr>tm_elapsed_time := add64 (tm_elapsed_time t) ms\<rparr> else t)"

definition check_expired :: "timer \<Rightarrow> bool" where
  "check_expired t \<longleftrightarrow> tm_running t \<and> tm_cur_RTO t \<le> tm_elapsed_time t"

section \<open>The sender\<close>

definition MAX_PAYLOAD_SIZE :: nat where
  "MAX_PAYLOAD_SIZE = 1000"

record tcp_sender =
  snd_isn :: WrappingInt32
  snd_segments_out :: "TCPSegment list"
  snd_initial_retransmission_timeout :: u32
  snd_stream :: byte_stream
  snd_next_seqno :: u64
  snd_recv_ackno :: u64
  snd_set_syn :: bool
  snd_set_fin :: bool
  snd_timer :: timer
  snd_consecutive_retransmissions_cnt :: u64
  snd_window_size :: u64
  snd_bytes_in_flight :: u64
  snd_segments_unackno :: "TCPSegment list"

text \<open>The last argument is the number that \<^verbatim>\<open>random_device\<close> gives.\<close>

definition TCPSender :: "u64 \<Rightarrow> u16 \<Rightarrow> WrappingInt32 option \<Rightarrow> u32 \<Rightarrow> tcp_sender" where
  "TCPSender capacity retx_timeout fixed_isn random =
     \<lparr>snd_isn = (case fixed_isn of Some isn \<Rightarrow> isn | None \<Rightarrow> WrappingInt32 random),
      snd_segments_out = [], snd_initial_retransmission_timeout = ucast retx_timeout,
      snd_stream = ByteStream capacity, snd_next_seqno = 0, snd_recv_ackno = 0, snd_set_syn = False,
      snd_set_fin = False, snd_timer = Timer (unat retx_timeout), snd_consecutive_retransmissions_cnt = 0,
      snd_window_size = 1, snd_bytes_in_flight = 0, snd_segments_unackno = []\<rparr>"

definition next_seqno :: "tcp_sender \<Rightarrow> WrappingInt32" where
  "next_seqno s = wrap (snd_next_seqno s) (snd_isn s)"

definition bytes_in_flight :: "tcp_sender \<Rightarrow> u64" where
  "bytes_in_flight s = snd_bytes_in_flight s"

definition consecutive_retransmissions :: "tcp_sender \<Rightarrow> u32" where
  "consecutive_retransmissions s = of_nat (snd_consecutive_retransmissions_cnt s)"

text \<open>\<^verbatim>\<open>push_segment\<close> returns whether it sent the segment, which it fills in, and the new state.\<close>

definition push_segment :: "tcp_sender \<Rightarrow> TCPSegment \<Rightarrow> u64 \<Rightarrow> bool \<times> tcp_sender" where
  "push_segment s segment len =
     (let (s, segment) =
            (if \<not> snd_set_syn s
             then (s\<lparr>snd_set_syn := True\<rparr>, segment\<lparr>ts_header := (ts_header segment)\<lparr>th_syn := True\<rparr>\<rparr>)
             else (s, segment));
          syn = (if th_syn (ts_header segment) then 1 else 0)
      in if len < syn then (False, s)
      else
        let payload_size = min MAX_PAYLOAD_SIZE (min (sub64 len syn) (buffer_size (snd_stream s)));
            (stream, payload) = bs_read (snd_stream s) payload_size;
            s = s\<lparr>snd_stream := stream\<rparr>;
            segment = segment\<lparr>ts_payload := Buffer payload\<rparr>;
            (s, segment) =
              (if \<not> snd_set_fin s \<and> bs_eof (snd_stream s) \<and> length_in_sequence_space segment < len
               then (s\<lparr>snd_set_fin := True\<rparr>, segment\<lparr>ts_header := (ts_header segment)\<lparr>th_fin := True\<rparr>\<rparr>)
               else (s, segment));
            segment_lenth = length_in_sequence_space segment
        in if segment_lenth \<le> 0 then (False, s)
        else
          let segment = segment\<lparr>ts_header := (ts_header segment)\<lparr>th_seqno := next_seqno s\<rparr>\<rparr> in
          (True,
           s\<lparr>snd_segments_out := snd_segments_out s @ [segment],
             snd_timer := (if \<not> check_running (snd_timer s) then timer_start (snd_timer s) else snd_timer s),
             snd_segments_unackno := snd_segments_unackno s @ [segment],
             snd_next_seqno := add64 (snd_next_seqno s) segment_lenth,
             snd_bytes_in_flight := add64 (snd_bytes_in_flight s) segment_lenth\<rparr>))"

text \<open>What the loops use up: the buffered bytes, the SYN and the FIN.\<close>

definition unsent :: "tcp_sender \<Rightarrow> nat" where
  "unsent s =
     length (bs_byte_stream (snd_stream s)) + (if snd_set_syn s then 0 else 1) + (if snd_set_fin s then 0 else 1)"

text \<open>The parts of the segment that \<^verbatim>\<open>push_segment\<close> makes out of a fresh one.\<close>

definition new_payload :: "tcp_sender \<Rightarrow> u64 \<Rightarrow> byte list" where
  "new_payload s len =
     take (min MAX_PAYLOAD_SIZE (sub64 len (if snd_set_syn s then 0 else 1))) (bs_byte_stream (snd_stream s))"

definition new_fin :: "tcp_sender \<Rightarrow> u64 \<Rightarrow> bool" where
  "new_fin s len \<longleftrightarrow>
     \<not> snd_set_fin s \<and> input_ended (snd_stream s) \<and> new_payload s len = bs_byte_stream (snd_stream s) \<and>
     length (new_payload s len) + (if snd_set_syn s then 0 else 1) < len"

definition new_segment :: "tcp_sender \<Rightarrow> u64 \<Rightarrow> TCPSegment" where
  "new_segment s len =
     \<lparr>ts_header = TCPHeader0\<lparr>th_syn := (\<not> snd_set_syn s), th_fin := new_fin s len, th_seqno := next_seqno s\<rparr>,
      ts_payload = Buffer (new_payload s len)\<rparr>"

lemma tcp_sender_same [simp]:
  "snd_set_syn s \<Longrightarrow> s\<lparr>snd_set_syn := True\<rparr> = s" "snd_set_fin s \<Longrightarrow> s\<lparr>snd_set_fin := True\<rparr> = s"
  by (auto intro: tcp_sender.equality)

lemma push_segment_eq:
  "push_segment s TCPSegment0 len =
     (if len = 0 \<and> \<not> snd_set_syn s then (False, s\<lparr>snd_set_syn := True\<rparr>)
      else
        let segment = new_segment s len;
            s' = s\<lparr>snd_set_syn := True, snd_stream := pop_output (snd_stream s) (length (new_payload s len)),
                  snd_set_fin := (snd_set_fin s \<or> new_fin s len)\<rparr>
        in if length_in_sequence_space segment = 0 then (False, s')
           else
             (True, s'\<lparr>snd_segments_out := snd_segments_out s @ [segment],
                snd_timer := (if \<not> check_running (snd_timer s) then timer_start (snd_timer s) else snd_timer s),
                snd_segments_unackno := snd_segments_unackno s @ [segment],
                snd_next_seqno := add64 (snd_next_seqno s) (length_in_sequence_space segment),
                snd_bytes_in_flight := add64 (snd_bytes_in_flight s) (length_in_sequence_space segment)\<rparr>))"
proof (cases "len = 0 \<and> \<not> snd_set_syn s")
  case True
  then show ?thesis by (simp add: push_segment_def TCPSegment0_def TCPHeader0_def)
next
  case False
  define s1 where "s1 = s\<lparr>snd_set_syn := True\<rparr>"
  define seg1 where "seg1 = (if \<not> snd_set_syn s then TCPSegment0\<lparr>ts_header := (ts_header TCPSegment0)\<lparr>th_syn := True\<rparr>\<rparr> else TCPSegment0)"
  define syn where "syn = (if snd_set_syn s then 0 else 1 :: nat)"
  have start: "(if \<not> snd_set_syn s
             then (s\<lparr>snd_set_syn := True\<rparr>, TCPSegment0\<lparr>ts_header := (ts_header TCPSegment0)\<lparr>th_syn := True\<rparr>\<rparr>)
             else (s, TCPSegment0)) = (s1, seg1)"
    by (simp add: s1_def seg1_def)
  have syn: "(if th_syn (ts_header seg1) then 1 else 0) = syn" "\<not> len < syn"
    using False by (auto simp: seg1_def syn_def TCPSegment0_def TCPHeader0_def)
  let ?pay = "new_payload s len" and ?str = "snd_stream s"
  have pay: "?pay = take (length ?pay) (bs_byte_stream ?str)"
    "length ?pay = min MAX_PAYLOAD_SIZE (min (sub64 len syn) (buffer_size (snd_stream s1)))"
    by (auto simp: new_payload_def syn_def buffer_size_def s1_def min_def)
  then have rd: "bs_read (snd_stream s1) (min MAX_PAYLOAD_SIZE (min (sub64 len syn) (buffer_size (snd_stream s1)))) =
      (pop_output ?str (length ?pay), ?pay)"
    by (simp add: bs_read_eq s1_def)
  have "drop (length ?pay) (bs_byte_stream ?str) = [] \<longleftrightarrow> ?pay = bs_byte_stream ?str"
    using pay(1) by (metis append_take_drop_id append.right_neutral drop_all order.refl)
  then have eof: "bs_eof (pop_output ?str (length ?pay)) \<longleftrightarrow> input_ended ?str \<and> ?pay = bs_byte_stream ?str"
    by (simp add: bs_eof_def buffer_empty_def pop_output_stream input_ended_def)
  have len: "length_in_sequence_space (seg1\<lparr>ts_payload := Buffer ?pay\<rparr>) = length ?pay + syn"
    by (simp add: length_in_sequence_space_def seg1_def syn_def TCPSegment0_def TCPHeader0_def)
  let ?s2 = "s1\<lparr>snd_stream := pop_output ?str (length ?pay)\<rparr>" and ?seg2 = "seg1\<lparr>ts_payload := Buffer ?pay\<rparr>"
  have fin: "\<not> snd_set_fin ?s2 \<and> bs_eof (snd_stream ?s2) \<and> length_in_sequence_space ?seg2 < len \<longleftrightarrow> new_fin s len"
    unfolding len new_fin_def by (simp add: eof s1_def syn_def)
  define s3 where "s3 = ?s2\<lparr>snd_set_fin := (snd_set_fin s \<or> new_fin s len)\<rparr>"
  define seg3 where "seg3 = (if new_fin s len then ?seg2\<lparr>ts_header := (ts_header ?seg2)\<lparr>th_fin := True\<rparr>\<rparr> else ?seg2)"
  have pair: "(if new_fin s len
       then (?s2\<lparr>snd_set_fin := True\<rparr>, ?seg2\<lparr>ts_header := (ts_header ?seg2)\<lparr>th_fin := True\<rparr>\<rparr>)
       else (?s2, ?seg2)) = (s3, seg3)"
    by (auto simp: s3_def seg3_def s1_def intro!: tcp_sender.equality)
  have seg: "seg3\<lparr>ts_header := (ts_header seg3)\<lparr>th_seqno := next_seqno s3\<rparr>\<rparr> = new_segment s len"
    by (simp add: seg3_def seg1_def s3_def s1_def new_segment_def TCPSegment0_def TCPHeader0_def next_seqno_def)
  have lens: "length_in_sequence_space seg3 = length_in_sequence_space (new_segment s len)"
    by (simp add: seg [symmetric] length_in_sequence_space_def)
  have frame: "snd_segments_out s3 = snd_segments_out s" "snd_timer s3 = snd_timer s"
    "snd_segments_unackno s3 = snd_segments_unackno s" "snd_next_seqno s3 = snd_next_seqno s"
    "snd_bytes_in_flight s3 = snd_bytes_in_flight s"
    by (simp_all add: s3_def s1_def)
  show ?thesis
    unfolding push_segment_def start if_not_P [OF False]
    by (simp only: Let_def prod.case syn if_False rd fin pair lens seg frame le_zero_eq) (simp only: s3_def s1_def)
qed

lemma push_segment_uses_up:
  assumes "push_segment s TCPSegment0 len = (True, s')"
  shows "unsent s' < unsent s"
proof -
  have "length_in_sequence_space (new_segment s len) \<noteq> 0"
    and s': "snd_set_syn s'" "snd_stream s' = pop_output (snd_stream s) (length (new_payload s len))"
      "snd_set_fin s' = (snd_set_fin s \<or> new_fin s len)"
    using assms by (auto simp: push_segment_eq Let_def split: if_splits)
  then have "new_payload s len \<noteq> [] \<or> \<not> snd_set_syn s \<or> new_fin s len"
    by (auto simp: length_in_sequence_space_def new_segment_def split: if_splits)
  moreover have "length (new_payload s len) \<le> length (bs_byte_stream (snd_stream s))" by (simp add: new_payload_def)
  moreover have "new_fin s len \<Longrightarrow> \<not> snd_set_fin s" by (simp add: new_fin_def)
  ultimately show ?thesis
    using s'(1) unfolding unsent_def s'(2,3) pop_output_stream length_drop by (cases "new_payload s len") auto
qed

text \<open>The loop of \<^verbatim>\<open>fill_window\<close> for a zero window, which is treated as a window of one.\<close>

function fill_zero_window :: "tcp_sender \<Rightarrow> tcp_sender" where
  "fill_zero_window s =
     (if bytes_in_flight s = 0 then
        case push_segment s TCPSegment0 1 of (sent, s') \<Rightarrow> if sent then fill_zero_window s' else s'
      else s)"
  by pat_completeness auto
termination
  by (relation "measure unsent") (auto dest!: sym [of _ "push_segment _ _ _"] intro: push_segment_uses_up)

definition fill_window_size :: "tcp_sender \<Rightarrow> u64" where
  "fill_window_size s =
     (if bytes_in_flight s < snd_window_size s then sub64 (snd_window_size s) (bytes_in_flight s) else 0)"

function fill_open_window :: "tcp_sender \<Rightarrow> tcp_sender" where
  "fill_open_window s =
     (case push_segment s TCPSegment0 (fill_window_size s) of (sent, s') \<Rightarrow> if sent then fill_open_window s' else s')"
  by pat_completeness auto
termination
  by (relation "measure unsent") (auto dest!: sym [of _ "push_segment _ _ _"] intro: push_segment_uses_up)

declare fill_zero_window.simps [simp del] fill_open_window.simps [simp del]

definition fill_window :: "tcp_sender \<Rightarrow> tcp_sender" where
  "fill_window s = (if snd_window_size s = 0 then fill_zero_window s else fill_open_window s)"

text \<open>The \<^verbatim>\<open>while\<close> loop of \<^verbatim>\<open>ack_received\<close>: the flag, the queue and the bytes in flight.\<close>

fun ack_loop :: "WrappingInt32 \<Rightarrow> u64 \<Rightarrow> u64 \<Rightarrow> bool \<Rightarrow> TCPSegment list \<Rightarrow> u64 \<Rightarrow> bool \<times> TCPSegment list \<times> u64" where
  "ack_loop isn next recv flag [] n = (flag, [], n)"
| "ack_loop isn next recv flag (segment # q) n =
     (let segment_abs_seqno = unwrap (th_seqno (ts_header segment)) isn next;
          segment_lenth = length_in_sequence_space segment
      in if add64 segment_abs_seqno segment_lenth \<le> recv
         then ack_loop isn next recv True q (sub64 n segment_lenth)
         else (flag, segment # q, n))"

definition ack_received :: "tcp_sender \<Rightarrow> WrappingInt32 \<Rightarrow> u16 \<Rightarrow> tcp_sender" where
  "ack_received s ackno window =
     (let abs_ackno = unwrap ackno (snd_isn s) (snd_recv_ackno s) in
      if snd_next_seqno s < abs_ackno \<or> abs_ackno < snd_recv_ackno s then s
      else
        let (ack_update_flag, q, n) =
              ack_loop (snd_isn s) (snd_next_seqno s) abs_ackno False (snd_segments_unackno s) (snd_bytes_in_flight s);
            s = s\<lparr>snd_recv_ackno := abs_ackno, snd_segments_unackno := q, snd_bytes_in_flight := n\<rparr>;
            s = (if ack_update_flag
                 then s\<lparr>snd_consecutive_retransmissions_cnt := 0, snd_timer := timer_start (timer_reset (snd_timer s))\<rparr>
                 else s);
            s = (if snd_segments_unackno s = [] then s\<lparr>snd_timer := timer_stop (snd_timer s)\<rparr> else s)
        in fill_window (s\<lparr>snd_window_size := unat window\<rparr>))"

definition sender_tick :: "tcp_sender \<Rightarrow> u64 \<Rightarrow> tcp_sender" where
  "sender_tick s ms =
     (let s = (if check_running (snd_timer s) then s\<lparr>snd_timer := timer_tick (snd_timer s) ms\<rparr> else s) in
      if check_expired (snd_timer s) \<and> snd_segments_unackno s \<noteq> [] then
        let s = s\<lparr>snd_segments_out := snd_segments_out s @ [hd (snd_segments_unackno s)]\<rparr>;
            s = (if 0 < snd_window_size s
                 then s\<lparr>snd_consecutive_retransmissions_cnt := add64 (snd_consecutive_retransmissions_cnt s) 1,
                        snd_timer := reset_double (snd_timer s)\<rparr>
                 else s)
        in s\<lparr>snd_timer := timer_start (snd_timer s)\<rparr>
      else s)"

definition send_empty_segment :: "tcp_sender \<Rightarrow> tcp_sender" where
  "send_empty_segment s =
     (let segment = TCPSegment0\<lparr>ts_header := (ts_header TCPSegment0)\<lparr>th_seqno := next_seqno s\<rparr>\<rparr>
      in s\<lparr>snd_segments_out := snd_segments_out s @ [segment]\<rparr>)"

definition send_empty_segment_flags :: "tcp_sender \<Rightarrow> bool \<Rightarrow> bool \<Rightarrow> bool \<Rightarrow> tcp_sender" where
  "send_empty_segment_flags s SYN FIN RST =
     (let segment = TCPSegment0\<lparr>ts_header := (ts_header TCPSegment0)\<lparr>th_seqno := next_seqno s\<rparr>\<rparr>;
          s = (if SYN then s\<lparr>snd_set_syn := True\<rparr> else s);
          s = (if FIN then s\<lparr>snd_set_fin := True\<rparr> else s);
          segment = segment\<lparr>ts_header := (ts_header segment)\<lparr>th_syn := SYN, th_fin := FIN, th_rst := RST\<rparr>\<rparr>
      in s\<lparr>snd_next_seqno := add64 (snd_next_seqno s) (length_in_sequence_space segment),
           snd_segments_out := snd_segments_out s @ [segment]\<rparr>)"

section \<open>Invariant\<close>

text \<open>
  \<open>W\<close> is everything written to the outbound stream so far. The unacknowledged segments are consecutive
  segments of it, from the first sequence number in flight to the next one to be sent.
\<close>

fun seq_chain :: "byte list \<Rightarrow> WrappingInt32 \<Rightarrow> nat \<Rightarrow> TCPSegment list \<Rightarrow> nat \<Rightarrow> bool" where
  "seq_chain W isn a [] b \<longleftrightarrow> a = b"
| "seq_chain W isn a (seg # q) b \<longleftrightarrow>
     seg_at W isn seg a \<and> 0 < length_in_sequence_space seg \<and>
     length (buffer_str (ts_payload seg)) \<le> MAX_PAYLOAD_SIZE \<and>
     seq_chain W isn (a + length_in_sequence_space seg) q b"

lemma seq_chain_le: "seq_chain W isn a q b \<Longrightarrow> a \<le> b"
  by (induction W isn a q b rule: seq_chain.induct) auto

lemma seq_chain_snoc:
  "seq_chain W isn a (q @ [seg]) b \<longleftrightarrow>
     (\<exists>c. seq_chain W isn a q c \<and> seg_at W isn seg c \<and> 0 < length_in_sequence_space seg \<and>
       length (buffer_str (ts_payload seg)) \<le> MAX_PAYLOAD_SIZE \<and> b = c + length_in_sequence_space seg)"
  by (induction q arbitrary: a) auto

text \<open>A segment in the outbound queue: a reset, or a segment of the stream up to the next sequence number.\<close>

definition out_ok :: "byte list \<Rightarrow> WrappingInt32 \<Rightarrow> nat \<Rightarrow> TCPSegment \<Rightarrow> bool" where
  "out_ok W isn b seg \<longleftrightarrow>
     length (buffer_str (ts_payload seg)) \<le> MAX_PAYLOAD_SIZE \<and>
     (th_rst (ts_header seg) \<or> (\<exists>a. seg_at W isn seg a \<and> a + length_in_sequence_space seg \<le> b))"

lemma out_ok_mono: "out_ok W isn b seg \<Longrightarrow> b \<le> b' \<Longrightarrow> out_ok W isn b' seg"
  by (auto simp: out_ok_def intro: order_trans)

lemma seq_chain_out_ok: "seq_chain W isn a q b \<Longrightarrow> seg \<in> set q \<Longrightarrow> out_ok W isn b seg"
  using seq_chain_le by (induction W isn a q b rule: seq_chain.induct) (fastforce simp: out_ok_def)+

definition snd_inv :: "byte list \<Rightarrow> tcp_sender \<Rightarrow> bool" where
  "snd_inv W s \<longleftrightarrow>
     length W + 2 ^ 32 < 2 ^ 64 \<and>
     bs_at W (snd_stream s) \<and> bytes_written (snd_stream s) = length W \<and>
     snd_next_seqno s =
       (if snd_set_syn s then 1 else 0) + bytes_read (snd_stream s) + (if snd_set_fin s then 1 else 0) \<and>
     (\<not> snd_set_syn s \<longrightarrow> snd_next_seqno s = 0) \<and>
     (snd_set_fin s \<longrightarrow> input_ended (snd_stream s) \<and> bs_byte_stream (snd_stream s) = []) \<and>
     snd_bytes_in_flight s \<le> snd_next_seqno s \<and>
     seq_chain W (snd_isn s) (snd_next_seqno s - snd_bytes_in_flight s) (snd_segments_unackno s) (snd_next_seqno s) \<and>
     snd_next_seqno s - snd_bytes_in_flight s \<le> snd_recv_ackno s \<and> snd_recv_ackno s \<le> snd_next_seqno s \<and>
     snd_window_size s \<le> 65535 \<and> snd_bytes_in_flight s \<le> 65535 \<and>
     (\<forall>seg \<in> set (snd_segments_out s). out_ok W (snd_isn s) (snd_next_seqno s) seg)"

lemma snd_inv_TCPSender: "capacity < 2 ^ 64 \<Longrightarrow> snd_inv [] (TCPSender capacity timeout fixed random)"
  by (simp add: snd_inv_def TCPSender_def bs_at_def ByteStream_def bs_inv_def bytes_read_def bytes_written_def)

lemma snd_inv_next_seqno: "snd_inv W s \<Longrightarrow> snd_next_seqno s \<le> length W + 2"
  using bs_at_bound [of W "snd_stream s"] by (auto simp: snd_inv_def bs_at_def)

text \<open>A new segment continues the stream where the last one ended.\<close>

lemma new_segment_at:
  assumes "snd_inv W s"
  shows "seg_at W (snd_isn s) (new_segment s len) (snd_next_seqno s) \<or> length_in_sequence_space (new_segment s len) = 0"
    and "length (buffer_str (ts_payload (new_segment s len))) \<le> MAX_PAYLOAD_SIZE"
    and "len < 2 ^ 64 \<Longrightarrow> len \<noteq> 0 \<or> snd_set_syn s \<Longrightarrow> length_in_sequence_space (new_segment s len) \<le> len"
proof -
  have at: "bs_at W (snd_stream s)" "bytes_written (snd_stream s) = length W" using assms by (simp_all add: snd_inv_def)
  have agr: "agrees W (bytes_read (snd_stream s)) (new_payload s len)"
    using at(1) unfolding new_payload_def by (intro agrees_take) (simp add: bs_at_def)
  show "length (buffer_str (ts_payload (new_segment s len))) \<le> MAX_PAYLOAD_SIZE"
    by (simp add: new_segment_def new_payload_def)
  show "length_in_sequence_space (new_segment s len) \<le> len" if "len < 2 ^ 64" "len \<noteq> 0 \<or> snd_set_syn s"
  proof -
    have "sub64 len (if snd_set_syn s then 0 else 1) = len - (if snd_set_syn s then 0 else 1)"
      using that by (intro sub64_exact) auto
    then have "length (new_payload s len) + (if snd_set_syn s then 0 else 1) \<le> len"
      using that by (auto simp: new_payload_def)
    then show ?thesis by (auto simp: length_in_sequence_space_def new_segment_def new_fin_def)
  qed
  show "seg_at W (snd_isn s) (new_segment s len) (snd_next_seqno s) \<or> length_in_sequence_space (new_segment s len) = 0"
  proof (cases "snd_set_fin s")
    case True
    then have "new_payload s len = []" "snd_set_syn s" "\<not> new_fin s len"
      using assms by (auto simp: snd_inv_def new_payload_def new_fin_def)
    then show ?thesis by (simp add: length_in_sequence_space_def new_segment_def TCPHeader0_def)
  next
    case False
    have idx: "seg_index (new_segment s len) (snd_next_seqno s) = bytes_read (snd_stream s)"
      using False assms by (auto simp: seg_index_def new_segment_def snd_inv_def TCPHeader0_def)
    have "bytes_read (snd_stream s) + length (new_payload s len) = length W" if "new_fin s len"
      using that at by (auto simp: new_fin_def bs_at_def)
    then show ?thesis
      using assms False agr by (auto simp: seg_at_def idx) (auto simp: new_segment_def next_seqno_def snd_inv_def TCPHeader0_def)
  qed
qed


lemma snd_inv_stream:
  assumes "snd_inv W s"
  shows "bs_at W (snd_stream s)" "length W < 2 ^ 64" "bytes_read (snd_stream s) + length (bs_byte_stream (snd_stream s)) = length W"
  using assms by (auto simp: snd_inv_def bs_at_def)

lemma push_segment_sent:
  assumes "snd_inv W s" and "snd_bytes_in_flight s + len \<le> 65535" and "len \<noteq> 0 \<or> snd_set_syn s"
    and "length_in_sequence_space (new_segment s len) \<noteq> 0"
  shows "push_segment s TCPSegment0 len =
    (True, s\<lparr>snd_set_syn := True, snd_stream := pop_output (snd_stream s) (length (new_payload s len)),
      snd_set_fin := (snd_set_fin s \<or> new_fin s len), snd_segments_out := snd_segments_out s @ [new_segment s len],
      snd_timer := (if \<not> check_running (snd_timer s) then timer_start (snd_timer s) else snd_timer s),
      snd_segments_unackno := snd_segments_unackno s @ [new_segment s len],
      snd_next_seqno := snd_next_seqno s + length_in_sequence_space (new_segment s len),
      snd_bytes_in_flight := snd_bytes_in_flight s + length_in_sequence_space (new_segment s len)\<rparr>)"
proof -
  have "length_in_sequence_space (new_segment s len) \<le> len"
    using new_segment_at(3) [OF assms(1), of len] assms(2,3) by simp
  moreover have "snd_next_seqno s \<le> length W + 2" "length W + 2 ^ 32 < 2 ^ 64"
    using snd_inv_next_seqno [OF assms(1)] assms(1) by (simp_all add: snd_inv_def)
  ultimately show ?thesis
    using assms(2-4) by (auto simp: push_segment_eq Let_def add64_exact)
qed

lemma push_segment_sends:
  assumes "snd_inv W s" and "snd_bytes_in_flight s + len \<le> 65535" and "len \<noteq> 0 \<or> snd_set_syn s"
    and nz: "length_in_sequence_space (new_segment s len) \<noteq> 0"
  defines "s' \<equiv> snd (push_segment s TCPSegment0 len)"
  shows "snd_inv W s' \<and> snd_bytes_in_flight s' \<le> snd_bytes_in_flight s + len"
proof -
  let ?seg = "new_segment s len" and ?n = "length_in_sequence_space (new_segment s len)"
  have seg: "seg_at W (snd_isn s) ?seg (snd_next_seqno s)" "length (buffer_str (ts_payload ?seg)) \<le> MAX_PAYLOAD_SIZE" "?n \<le> len"
    using new_segment_at [OF assms(1), of len] assms(2,3) nz by auto
  note s' = s'_def [unfolded push_segment_sent [OF assms(1-4)] snd_conv]
  note stream = snd_inv_stream [OF assms(1)]
  have "length (new_payload s len) \<le> length (bs_byte_stream (snd_stream s))" by (simp add: new_payload_def)
  then have pop: "bs_at W (snd_stream s')" "bytes_read (snd_stream s') = bytes_read (snd_stream s) + length (new_payload s len)"
    "bytes_written (snd_stream s') = bytes_written (snd_stream s)" "input_ended (snd_stream s') = input_ended (snd_stream s)"
    using bs_at_pop [OF stream(1,2), of "length (new_payload s len)"]
    by (simp_all add: s' bytes_written_def input_ended_def)
  have n: "?n = length (new_payload s len) + (if snd_set_syn s then 0 else 1) + (if new_fin s len then 1 else 0)"
    by (simp add: length_in_sequence_space_def new_segment_def)
  have fin: "\<not> (snd_set_fin s \<and> new_fin s len)" "snd_set_fin s \<Longrightarrow> snd_set_syn s \<and> new_payload s len = []"
    using assms(1) by (auto simp: new_fin_def snd_inv_def new_payload_def split: if_splits)
  have nxt: "snd_next_seqno s' = 1 + bytes_read (snd_stream s') + (if snd_set_fin s' then 1 else 0)"
    using fin n pop(2) assms(1) by (auto simp: s' snd_inv_def)
  have "snd_bytes_in_flight s \<le> snd_next_seqno s" using assms(1) by (simp add: snd_inv_def)
  then have start: "snd_next_seqno s' - snd_bytes_in_flight s' = snd_next_seqno s - snd_bytes_in_flight s" by (simp add: s')
  have chain: "seq_chain W (snd_isn s) (snd_next_seqno s - snd_bytes_in_flight s) (snd_segments_unackno s @ [?seg]) (snd_next_seqno s + ?n)"
    using assms(1) seg nz by (auto simp: seq_chain_snoc snd_inv_def)
  have "out_ok W (snd_isn s) (snd_next_seqno s + ?n) ?seg" using seg by (auto simp: out_ok_def)
  moreover have "\<forall>x \<in> set (snd_segments_out s). out_ok W (snd_isn s) (snd_next_seqno s) x"
    using assms(1) unfolding snd_inv_def by blast
  ultimately have "\<forall>x \<in> set (snd_segments_out s'). out_ok W (snd_isn s) (snd_next_seqno s') x"
    by (auto simp: s' intro: out_ok_mono)
  moreover have "bs_byte_stream (snd_stream s') = []" if "snd_set_fin s'"
    using that assms(1) by (auto simp: s' pop_output_stream new_fin_def snd_inv_def)
  ultimately show ?thesis
    using assms(1,2) pop nxt chain start seg(3)
    unfolding snd_inv_def by (auto simp: s' new_fin_def)
qed

lemma push_segment_idle:
  assumes "snd_inv W s" and "len \<noteq> 0 \<or> snd_set_syn s" and "length_in_sequence_space (new_segment s len) = 0"
  shows "push_segment s TCPSegment0 len = (False, s)"
proof -
  have "new_payload s len = []" "snd_set_syn s" "\<not> new_fin s len"
    using assms(3) by (auto simp: length_in_sequence_space_def new_segment_def split: if_splits)
  moreover have "pop_output (snd_stream s) 0 = snd_stream s"
    using assms(1) by (auto simp: pop_output_def snd_inv_def bs_at_def bs_inv_def intro!: byte_stream.equality)
  ultimately show ?thesis
    using assms(2,3) by (auto simp: push_segment_eq Let_def intro!: tcp_sender.equality)
qed


section \<open>Filling the window\<close>

text \<open>What sending new segments leaves alone, and what only grows.\<close>

definition snd_grows :: "tcp_sender \<Rightarrow> tcp_sender \<Rightarrow> bool" where
  "snd_grows s s' \<longleftrightarrow>
     snd_isn s' = snd_isn s \<and> snd_window_size s' = snd_window_size s \<and> snd_recv_ackno s' = snd_recv_ackno s \<and>
     snd_consecutive_retransmissions_cnt s' = snd_consecutive_retransmissions_cnt s \<and>
     tm_cur_RTO (snd_timer s') = tm_cur_RTO (snd_timer s) \<and> tm_init_RTO (snd_timer s') = tm_init_RTO (snd_timer s) \<and>
     snd_next_seqno s \<le> snd_next_seqno s' \<and> snd_bytes_in_flight s \<le> snd_bytes_in_flight s' \<and>
     input_ended (snd_stream s') = input_ended (snd_stream s) \<and> bs_error (snd_stream s') = bs_error (snd_stream s) \<and>
     bs_capacity (snd_stream s') = bs_capacity (snd_stream s) \<and>
     (\<exists>new. snd_segments_out s' = snd_segments_out s @ new \<and> snd_segments_unackno s' = snd_segments_unackno s @ new)"

lemma snd_grows_refl [simp]: "snd_grows s s"
  by (simp add: snd_grows_def)

lemma snd_grows_trans: "snd_grows s t \<Longrightarrow> snd_grows t u \<Longrightarrow> snd_grows s u"
  by (auto simp: snd_grows_def)

lemma push_segment_grows:
  assumes "snd_inv W s" and "snd_bytes_in_flight s + len \<le> 65535" and "len \<noteq> 0 \<or> snd_set_syn s"
  shows "snd_grows s (snd (push_segment s TCPSegment0 len))"
proof (cases "length_in_sequence_space (new_segment s len) = 0")
  case True
  then show ?thesis using push_segment_idle [OF assms(1,3)] by simp
next
  case False
  then show ?thesis
    unfolding push_segment_sent [OF assms False] by (simp add: snd_grows_def timer_start_def input_ended_def)
qed

text \<open>Nothing is left to send: no SYN, no byte and no FIN.\<close>

definition snd_done :: "tcp_sender \<Rightarrow> bool" where
  "snd_done s \<longleftrightarrow>
     snd_set_syn s \<and> bs_byte_stream (snd_stream s) = [] \<and> (input_ended (snd_stream s) \<longrightarrow> snd_set_fin s)"

lemma push_segment_idle_done:
  assumes "0 < len" and "len < 2 ^ 64" and "length_in_sequence_space (new_segment s len) = 0"
  shows "snd_done s"
proof -
  have "new_payload s len = []" and syn: "snd_set_syn s" and "\<not> new_fin s len"
    using assms(3) by (auto simp: length_in_sequence_space_def new_segment_def split: if_splits)
  moreover from this have "bs_byte_stream (snd_stream s) = []"
    using assms(1,2) by (auto simp: new_payload_def MAX_PAYLOAD_SIZE_def)
  ultimately show ?thesis using assms(1) by (auto simp: snd_done_def new_fin_def)
qed

lemma snd_inv_no_syn: "snd_inv W s \<Longrightarrow> \<not> snd_set_syn s \<Longrightarrow> snd_bytes_in_flight s = 0"
  by (auto simp: snd_inv_def)

lemma fill_open_window_spec:
  assumes "snd_inv W s" and "0 < snd_window_size s"
  shows "snd_inv W (fill_open_window s) \<and> snd_grows s (fill_open_window s) \<and>
    snd_bytes_in_flight (fill_open_window s) \<le> max (snd_bytes_in_flight s) (snd_window_size s) \<and>
    (snd_window_size s \<le> snd_bytes_in_flight (fill_open_window s) \<or> snd_done (fill_open_window s))"
  using assms
proof (induction s rule: fill_open_window.induct)
  case (1 s)
  let ?len = "fill_window_size s"
  have win: "snd_window_size s \<le> 65535" using "1.prems"(1) by (simp add: snd_inv_def)
  have len: "?len = snd_window_size s - snd_bytes_in_flight s"
    using win by (simp add: fill_window_size_def bytes_in_flight_def sub64_exact)
  have ok: "snd_bytes_in_flight s + ?len \<le> 65535" "?len \<noteq> 0 \<or> snd_set_syn s"
    using "1.prems" win len snd_inv_no_syn [OF "1.prems"(1)] by (auto simp: snd_inv_def)
  show ?case
  proof (cases "length_in_sequence_space (new_segment s ?len) = 0")
    case True
    then have "fill_open_window s = s"
      using push_segment_idle [OF "1.prems"(1) ok(2)] by (subst fill_open_window.simps) simp
    then show ?thesis
      using "1.prems" win len push_segment_idle_done [OF _ _ True] by (cases "?len = 0") auto
  next
    case False
    let ?s = "snd (push_segment s TCPSegment0 ?len)"
    have push: "push_segment s TCPSegment0 ?len = (True, ?s)"
      using push_segment_sent [OF "1.prems"(1) ok False] by simp
    then have "fst (push_segment s TCPSegment0 ?len)" by (metis fst_conv)
    then have loop: "fill_open_window s = fill_open_window ?s"
      by (subst fill_open_window.simps) (simp add: case_prod_beta)
    have step: "snd_inv W ?s" "snd_bytes_in_flight ?s \<le> snd_bytes_in_flight s + ?len" "snd_grows s ?s"
      using push_segment_sends [OF "1.prems"(1) ok False] push_segment_grows [OF "1.prems"(1) ok] by auto
    then have win': "snd_window_size ?s = snd_window_size s" by (simp add: snd_grows_def)
    have "snd_bytes_in_flight s + ?len \<le> max (snd_bytes_in_flight s) (snd_window_size s)" using len by auto
    then have "snd_bytes_in_flight ?s \<le> max (snd_bytes_in_flight s) (snd_window_size s)"
      using step(2) by (rule order_trans [rotated])
    then show ?thesis
      using "1.IH" [OF push [symmetric]] step(1,3) win' "1.prems"(2) unfolding loop by (auto intro: snd_grows_trans)
  qed
qed


lemma fill_zero_window_spec:
  assumes "snd_inv W s" and "snd_window_size s = 0"
  shows "snd_inv W (fill_zero_window s) \<and> snd_grows s (fill_zero_window s) \<and>
    snd_bytes_in_flight (fill_zero_window s) \<le> max (snd_bytes_in_flight s) 1 \<and>
    (1 \<le> snd_bytes_in_flight (fill_zero_window s) \<or> snd_done (fill_zero_window s))"
proof (cases "snd_bytes_in_flight s = 0")
  case True
  then have ok: "snd_bytes_in_flight s + 1 \<le> 65535" "(1::nat) \<noteq> 0 \<or> snd_set_syn s" by simp_all
  show ?thesis
  proof (cases "length_in_sequence_space (new_segment s 1) = 0")
    case idle: True
    then have "fill_zero_window s = s"
      using push_segment_idle [OF assms(1), of 1] True by (subst fill_zero_window.simps) (simp add: bytes_in_flight_def)
    then show ?thesis using assms(1) push_segment_idle_done [OF _ _ idle] by simp
  next
    case False
    let ?s = "snd (push_segment s TCPSegment0 1)"
    have step: "snd_inv W ?s" "snd_bytes_in_flight ?s \<le> snd_bytes_in_flight s + 1" "snd_grows s ?s"
      using push_segment_sends [OF assms(1) ok False] push_segment_grows [OF assms(1) ok] by auto
    have sent: "fst (push_segment s TCPSegment0 1)" "snd_bytes_in_flight ?s \<noteq> 0"
      using False unfolding push_segment_sent [OF assms(1) ok False] by simp_all
    then have "fill_zero_window ?s = ?s" by (subst fill_zero_window.simps) (simp add: bytes_in_flight_def)
    then have "fill_zero_window s = ?s"
      using sent True by (subst fill_zero_window.simps) (simp add: bytes_in_flight_def case_prod_beta)
    then show ?thesis using step sent True by simp
  qed
next
  case False
  then have "fill_zero_window s = s" by (subst fill_zero_window.simps) (simp add: bytes_in_flight_def)
  then show ?thesis using assms(1) False by simp
qed

lemma fill_window_spec:
  assumes "snd_inv W s"
  shows "snd_inv W (fill_window s)" "snd_grows s (fill_window s)"
    "snd_bytes_in_flight (fill_window s) \<le> max (snd_bytes_in_flight s) (max 1 (snd_window_size s))"
    "max 1 (snd_window_size s) \<le> snd_bytes_in_flight (fill_window s) \<or> snd_done (fill_window s)"
  using fill_zero_window_spec [OF assms] fill_open_window_spec [OF assms]
  by (cases "snd_window_size s = 0"; simp add: fill_window_def)+

section \<open>Acknowledgments, time and empty segments\<close>

lemma seg_at_unwrap:
  assumes "seg_at W isn seg a" and "a \<le> b" and "b < a + 2 ^ 31" and "b + 2 ^ 31 < 2 ^ 64"
  shows "unwrap (th_seqno (ts_header seg)) isn b = a"
  using assms by (auto simp: seg_at_def intro: unwrap_wrap_near)

lemma ack_loop_spec:
  assumes "seq_chain W isn a q b" and "b + 2 ^ 31 < 2 ^ 64" and "b < a + 2 ^ 31" and "recv \<le> b" and "a \<le> recv"
    and "ack_loop isn b recv flag q (b - a) = (flag', q', n')"
  shows "\<exists>c. n' = b - c \<and> a \<le> c \<and> c \<le> recv \<and> seq_chain W isn c q' b \<and>
    (\<forall>seg q''. q' = seg # q'' \<longrightarrow> recv < c + length_in_sequence_space seg) \<and>
    (flag' \<longleftrightarrow> flag \<or> a < c) \<and> (\<exists>acked. q = acked @ q')"
  using assms
proof (induction q arbitrary: a flag)
  case Nil
  then show ?case by auto
next
  case (Cons seg q)
  let ?n = "length_in_sequence_space seg"
  have seg: "seg_at W isn seg a" "0 < ?n" "seq_chain W isn (a + ?n) q b" using Cons.prems(1) by simp_all
  then have le: "a + ?n \<le> b" using seq_chain_le by blast
  have un: "unwrap (th_seqno (ts_header seg)) isn b = a"
    using seg_at_unwrap [OF seg(1)] le Cons.prems(2,3) by simp
  have ex: "add64 a ?n = a + ?n" "sub64 (b - a) ?n = b - (a + ?n)"
    using le Cons.prems(2) by (simp_all add: u64_simps)
  show ?case
  proof (cases "a + ?n \<le> recv")
    case True
    then have "ack_loop isn b recv True q (b - (a + ?n)) = (flag', q', n')"
      using Cons.prems(6) un ex by simp
    then obtain c where "n' = b - c" "a + ?n \<le> c" "c \<le> recv" "seq_chain W isn c q' b"
      "\<forall>seg q''. q' = seg # q'' \<longrightarrow> recv < c + length_in_sequence_space seg" "flag'" "\<exists>acked. q = acked @ q'"
      using Cons.IH [OF seg(3) Cons.prems(2) _ Cons.prems(4) True, of True] Cons.prems(3) by auto
    moreover from this(7) obtain acked where "q = acked @ q'" by blast
    ultimately show ?thesis using seg(2) by (intro exI [of _ c]) (auto intro: exI [of _ "seg # acked"])
  next
    case False
    then have "flag' = flag" "q' = seg # q" "n' = b - a" using Cons.prems(6) un ex by simp_all
    then show ?thesis using False Cons.prems seg by (intro exI [of _ a]) auto
  qed
qed

text \<open>
  An acknowledgment for an absolute number \<open>a\<close> between the last one and the next to be sent: the
  segments that end at or before \<open>a\<close> leave the queue; if there were any, the timer restarts with the
  initial timeout and the count of retransmissions is zero; the window is then filled.
\<close>

definition ack_state :: "byte list \<Rightarrow> tcp_sender \<Rightarrow> nat \<Rightarrow> u16 \<Rightarrow> tcp_sender \<Rightarrow> bool" where
  "ack_state W s a window t \<longleftrightarrow>
     snd_inv W t \<and> snd_recv_ackno t = a \<and> snd_window_size t = unat window \<and>
     snd_next_seqno t = snd_next_seqno s \<and> snd_segments_out t = snd_segments_out s \<and>
     snd_stream t = snd_stream s \<and> snd_set_syn t = snd_set_syn s \<and> snd_set_fin t = snd_set_fin s \<and>
     snd_isn t = snd_isn s \<and>
     (\<exists>acked. snd_segments_unackno s = acked @ snd_segments_unackno t \<and>
       (if acked = [] then snd_consecutive_retransmissions_cnt t = snd_consecutive_retransmissions_cnt s \<and>
            tm_cur_RTO (snd_timer t) = tm_cur_RTO (snd_timer s)
        else snd_consecutive_retransmissions_cnt t = 0 \<and>
            tm_cur_RTO (snd_timer t) = tm_init_RTO (snd_timer s) \<and> tm_elapsed_time (snd_timer t) = 0)) \<and>
     tm_init_RTO (snd_timer t) = tm_init_RTO (snd_timer s) \<and>
     (snd_segments_unackno t = [] \<longrightarrow> \<not> check_running (snd_timer t)) \<and>
     (\<forall>seg q. snd_segments_unackno t = seg # q \<longrightarrow>
        a < snd_next_seqno t - snd_bytes_in_flight t + length_in_sequence_space seg)"

text \<open>The sequence numbers a chain covers determine where it starts.\<close>

definition seq_len :: "TCPSegment list \<Rightarrow> nat" where
  "seq_len q = sum_list (map length_in_sequence_space q)"

lemma seq_chain_len: "seq_chain W isn a q b \<Longrightarrow> b = a + seq_len q \<and> (q \<noteq> [] \<longrightarrow> a < b)"
  by (induction W isn a q b rule: seq_chain.induct) (auto simp: seq_len_def)

lemma seq_chain_start_unique: "seq_chain W isn a q b \<Longrightarrow> seq_chain W isn c q b \<Longrightarrow> a = c"
  using seq_chain_len [of W isn a q b] seq_chain_len [of W isn c q b] by simp

lemma seq_chain_prefix_empty:
  assumes "seq_chain W isn a (p @ q) b" and "seq_chain W isn a q b"
  shows "p = []"
proof (rule ccontr)
  assume "p \<noteq> []"
  then obtain seg p' where p: "p = seg # p'" by (cases p) auto
  then have "0 < length_in_sequence_space seg" using assms(1) by simp
  then show False using seq_chain_len [OF assms(1)] seq_chain_len [OF assms(2)] p by (simp add: seq_len_def)
qed

lemma ack_received_state:
  assumes "snd_inv W s" and "unwrap ackno (snd_isn s) (snd_recv_ackno s) = a"
    and "snd_recv_ackno s \<le> a" and "a \<le> snd_next_seqno s"
  shows "\<exists>t. ack_state W s a window t \<and> ack_received s ackno window = fill_window t"
proof -
  let ?b = "snd_next_seqno s" and ?n = "snd_bytes_in_flight s"
  obtain flag q n where run: "ack_loop (snd_isn s) ?b a False (snd_segments_unackno s) ?n = (flag, q, n)"
    by (metis prod_cases3)
  have inv: "?n \<le> ?b" "seq_chain W (snd_isn s) (?b - ?n) (snd_segments_unackno s) ?b" "?b - ?n \<le> snd_recv_ackno s" "?n \<le> 65535"
    using assms(1) unfolding snd_inv_def by blast+
  have "?b \<le> length W + 2" "length W + 2 ^ 32 < 2 ^ 64"
    using snd_inv_next_seqno [OF assms(1)] assms(1) by (simp_all add: snd_inv_def)
  then have bnd: "?b + 2 ^ 31 < 2 ^ 64" "?b < ?b - ?n + 2 ^ 31" "?b - (?b - ?n) = ?n" using inv(1,4) by simp_all
  obtain c where c: "n = ?b - c" "?b - ?n \<le> c" "c \<le> a" "seq_chain W (snd_isn s) c q ?b"
    "\<forall>seg q'. q = seg # q' \<longrightarrow> a < c + length_in_sequence_space seg" "flag \<longleftrightarrow> ?b - ?n < c"
    "\<exists>acked. snd_segments_unackno s = acked @ q"
    using ack_loop_spec [OF inv(2) bnd(1,2) assms(4) order_trans [OF inv(3) assms(3)], of False flag q n] run bnd(3) by auto
  define s1 where "s1 = s\<lparr>snd_recv_ackno := a, snd_segments_unackno := q, snd_bytes_in_flight := n\<rparr>"
  define s2 where "s2 = (if flag
       then s1\<lparr>snd_consecutive_retransmissions_cnt := 0, snd_timer := timer_start (timer_reset (snd_timer s1))\<rparr> else s1)"
  define s3 where "s3 = (if snd_segments_unackno s2 = [] then s2\<lparr>snd_timer := timer_stop (snd_timer s2)\<rparr> else s2)"
  define t where "t = s3\<lparr>snd_window_size := unat window\<rparr>"
  have "ack_received s ackno window = fill_window t"
    using assms(2-4) run unfolding ack_received_def Let_def
    by (simp add: t_def s3_def s2_def s1_def)
  moreover have "ack_state W s a window t"
  proof -
    have frame: "snd_recv_ackno t = a" "snd_segments_unackno t = q" "snd_bytes_in_flight t = n" "snd_window_size t = unat window"
      "snd_next_seqno t = ?b" "snd_segments_out t = snd_segments_out s" "snd_stream t = snd_stream s"
      "snd_set_syn t = snd_set_syn s" "snd_set_fin t = snd_set_fin s" "snd_isn t = snd_isn s"
      "tm_init_RTO (snd_timer t) = tm_init_RTO (snd_timer s)" "q = [] \<longrightarrow> \<not> check_running (snd_timer t)"
      by (simp_all add: t_def s3_def s2_def s1_def timer_start_def timer_reset_def timer_stop_def check_running_def)
    have rto: "if flag then snd_consecutive_retransmissions_cnt t = 0 \<and>
            tm_cur_RTO (snd_timer t) = tm_init_RTO (snd_timer s) \<and> tm_elapsed_time (snd_timer t) = 0
        else snd_consecutive_retransmissions_cnt t = snd_consecutive_retransmissions_cnt s \<and>
            tm_cur_RTO (snd_timer t) = tm_cur_RTO (snd_timer s)"
      by (simp add: t_def s3_def s2_def s1_def timer_start_def timer_reset_def timer_stop_def)
    have nc: "?b - n = c" "n \<le> ?n" "n \<le> ?b" using c(1-3) assms(4) inv(1) by auto
    have "unat window \<le> 65535" using unat_bounds(2) [of window] by simp
    then have "snd_inv W t" using assms(1,4) c(3,4) nc frame(1-10) inv(4) unfolding snd_inv_def by auto
    moreover obtain acked where acked: "snd_segments_unackno s = acked @ q" using c(7) by blast
    have "acked = [] \<longleftrightarrow> \<not> flag"
    proof
      assume "acked = []"
      then have "seq_chain W (snd_isn s) (?b - ?n) q ?b" "seq_chain W (snd_isn s) c q ?b" using acked inv(2) c(4) by simp_all
      then show "\<not> flag" using c(2,6) by (metis seq_chain_start_unique less_irrefl)
    next
      assume "\<not> flag"
      then have "seq_chain W (snd_isn s) (?b - ?n) (acked @ q) ?b" "seq_chain W (snd_isn s) (?b - ?n) q ?b"
        using c(2,4,6) acked inv(2) by (simp_all add: le_antisym)
      then show "acked = []" by (metis seq_chain_prefix_empty)
    qed
    ultimately show ?thesis using frame nc(1) rto acked c(5) unfolding ack_state_def by auto
  qed
  ultimately show ?thesis by blast
qed

lemma ack_received_inv:
  assumes "snd_inv W s"
  shows "snd_inv W (ack_received s ackno window)" "snd_isn (ack_received s ackno window) = snd_isn s"
    "snd_next_seqno s \<le> snd_next_seqno (ack_received s ackno window)"
    "\<exists>new. snd_segments_out (ack_received s ackno window) = snd_segments_out s @ new"
    "input_ended (snd_stream (ack_received s ackno window)) = input_ended (snd_stream s)"
proof -
  let ?a = "unwrap ackno (snd_isn s) (snd_recv_ackno s)" and ?s = "ack_received s ackno window"
  have "snd_inv W ?s \<and> snd_isn ?s = snd_isn s \<and> snd_next_seqno s \<le> snd_next_seqno ?s \<and>
      (\<exists>new. snd_segments_out ?s = snd_segments_out s @ new) \<and> input_ended (snd_stream ?s) = input_ended (snd_stream s)"
  proof (cases "snd_recv_ackno s \<le> ?a \<and> ?a \<le> snd_next_seqno s")
    case True
    then obtain t where t: "ack_state W s ?a window t" "?s = fill_window t"
      using ack_received_state [OF assms refl] by blast
    then have "snd_inv W t" by (simp add: ack_state_def)
    from fill_window_spec(1,2) [OF this] show ?thesis using t by (auto simp: ack_state_def snd_grows_def)
  next
    case False
    then have "?s = s" by (auto simp: ack_received_def Let_def)
    then show ?thesis using assms by simp
  qed
  then show "snd_inv W ?s" "snd_isn ?s = snd_isn s" "snd_next_seqno s \<le> snd_next_seqno ?s"
    "\<exists>new. snd_segments_out ?s = snd_segments_out s @ new" "input_ended (snd_stream ?s) = input_ended (snd_stream s)" by blast+
qed

text \<open>A tick either only lets the timer run or also retransmits the oldest segment.\<close>

definition tick_expires :: "tcp_sender \<Rightarrow> u64 \<Rightarrow> bool" where
  "tick_expires s ms \<longleftrightarrow>
     tm_running (snd_timer s) \<and> tm_cur_RTO (snd_timer s) \<le> add64 (tm_elapsed_time (snd_timer s)) ms \<and>
     snd_segments_unackno s \<noteq> []"

lemma sender_tick_eq:
  "sender_tick s ms =
     (if tick_expires s ms then
        s\<lparr>snd_segments_out := snd_segments_out s @ [hd (snd_segments_unackno s)],
          snd_consecutive_retransmissions_cnt :=
            (if 0 < snd_window_size s then add64 (snd_consecutive_retransmissions_cnt s) 1
             else snd_consecutive_retransmissions_cnt s),
          snd_timer := (snd_timer s)\<lparr>tm_elapsed_time := 0,
            tm_cur_RTO := (if 0 < snd_window_size s then mul64 (tm_cur_RTO (snd_timer s)) 2 else tm_cur_RTO (snd_timer s))\<rparr>\<rparr>
      else if tm_running (snd_timer s)
      then s\<lparr>snd_timer := (snd_timer s)\<lparr>tm_elapsed_time := add64 (tm_elapsed_time (snd_timer s)) ms\<rparr>\<rparr>
      else s)"
  by (auto simp: sender_tick_def tick_expires_def Let_def check_running_def check_expired_def timer_tick_def timer_start_def
      reset_double_def intro!: tcp_sender.equality timer.equality)

lemma sender_tick_inv:
  assumes "snd_inv W s"
  shows "snd_inv W (sender_tick s ms)"
proof -
  have "out_ok W (snd_isn s) (snd_next_seqno s) (hd (snd_segments_unackno s))" if "snd_segments_unackno s \<noteq> []"
    using assms that seq_chain_out_ok hd_in_set unfolding snd_inv_def by blast
  then show ?thesis
    using assms by (auto simp: sender_tick_eq snd_inv_def tick_expires_def)
qed

lemma send_empty_segment_inv:
  assumes "snd_inv W s" and "snd_set_syn s"
  shows "snd_inv W (send_empty_segment s)"
proof -
  let ?seg = "TCPSegment0\<lparr>ts_header := (ts_header TCPSegment0)\<lparr>th_seqno := next_seqno s\<rparr>\<rparr>"
  have "0 < snd_next_seqno s" using assms by (simp add: snd_inv_def)
  then have "seg_at W (snd_isn s) ?seg (snd_next_seqno s)"
    by (simp add: seg_at_def TCPSegment0_def TCPHeader0_def next_seqno_def)
  moreover have "length_in_sequence_space ?seg = 0" "buffer_str (ts_payload ?seg) = []"
    by (simp_all add: length_in_sequence_space_def TCPSegment0_def TCPHeader0_def)
  ultimately have "out_ok W (snd_isn s) (snd_next_seqno s) ?seg" by (auto simp: out_ok_def)
  then show ?thesis using assms(1) by (auto simp: send_empty_segment_def snd_inv_def Let_def)
qed

lemma send_rst_inv:
  assumes "snd_inv W s"
  shows "snd_inv W (send_empty_segment_flags s False False True)"
proof -
  have "snd_next_seqno s < 2 ^ 64" using snd_inv_next_seqno [OF assms] assms by (simp add: snd_inv_def)
  then show ?thesis
    using assms
    by (auto simp: send_empty_segment_flags_def snd_inv_def Let_def length_in_sequence_space_def TCPSegment0_def
        TCPHeader0_def out_ok_def)
qed

text \<open>The writer's side of the outbound stream.\<close>

lemma seg_at_extend:
  assumes "seg_at W isn seg a" and "\<not> th_fin (ts_header seg)"
  shows "seg_at (W @ X) isn seg a"
  using assms by (auto simp: seg_at_def agrees_def)

lemma seg_at_no_fin:
  assumes "seg_at W isn seg a" and "a + length_in_sequence_space seg \<le> b" and "b \<le> length W + 1"
  shows "\<not> th_fin (ts_header seg)"
  using assms by (auto simp: seg_at_def seg_index_def length_in_sequence_space_def split: if_splits)

lemma seq_chain_extend:
  assumes "seq_chain W isn a q b" and "b \<le> length W + 1"
  shows "seq_chain (W @ X) isn a q b"
  using assms
proof (induction W isn a q b rule: seq_chain.induct)
  case (2 W isn a seg q b)
  then have "a + length_in_sequence_space seg \<le> b" using seq_chain_le by auto
  then show ?case using 2 seg_at_no_fin [of W isn seg a b] seg_at_extend [of W isn seg a X] by simp
qed simp

lemma out_ok_extend: "out_ok W isn b seg \<Longrightarrow> b \<le> length W + 1 \<Longrightarrow> out_ok (W @ X) isn b seg"
  using seg_at_no_fin seg_at_extend by (fastforce simp: out_ok_def)

lemma bs_at_extend: "bs_at W s \<Longrightarrow> bs_at (W @ X) s"
  by (auto simp: bs_at_def agrees_def)

lemma stream_write_inv:
  assumes "snd_inv W s" and "length W + length data + 2 ^ 32 < 2 ^ 64"
  shows "snd_inv (W @ take (snd (bs_write (snd_stream s) data)) data) (s\<lparr>snd_stream := fst (bs_write (snd_stream s) data)\<rparr>)"
proof (cases "input_ended (snd_stream s)")
  case True
  then have "bs_write (snd_stream s) data = (snd_stream s, 0)" by (simp add: bs_write_def)
  then show ?thesis using assms(1) by simp
next
  case False
  let ?w = "bs_write (snd_stream s) data" and ?d = "take (snd (bs_write (snd_stream s) data)) data"
  let ?W = "W @ ?d"
  have fin: "\<not> snd_set_fin s" using False assms(1) by (simp add: snd_inv_def)
  have bw: "bytes_written (snd_stream s) = length W" using assms(1) by (simp add: snd_inv_def)
  have nxt: "snd_next_seqno s \<le> length W + 1"
    using assms(1) fin snd_inv_stream(3) [OF assms(1)] by (auto simp: snd_inv_def)
  have n: "snd ?w \<le> length data" by (simp add: bs_write_def Let_def)
  have "bs_write (snd_stream s) ?d = ?w"
    using n by (auto simp: bs_write_def Let_def False)
  moreover have "agrees ?W (bytes_written (snd_stream s)) ?d" by (auto simp: agrees_def bw min_def)
  ultimately have at: "bs_at ?W (fst ?w)" "bytes_written (fst ?w) = length W + snd ?w"
    using bs_at_write [of ?W "snd_stream s" ?d] bs_at_extend [OF snd_inv_stream(1) [OF assms(1)], of ?d] assms(2) bw n by auto
  have chain: "seq_chain ?W (snd_isn s) (snd_next_seqno s - snd_bytes_in_flight s) (snd_segments_unackno s) (snd_next_seqno s)"
    using assms(1) seq_chain_extend nxt unfolding snd_inv_def by blast
  have out: "\<forall>seg \<in> set (snd_segments_out s). out_ok ?W (snd_isn s) (snd_next_seqno s) seg"
    using assms(1) out_ok_extend nxt unfolding snd_inv_def by blast
  have "bytes_read (fst ?w) = bytes_read (snd_stream s)" by (simp add: bytes_read_def)
  then show ?thesis
    using assms at chain out fin n unfolding snd_inv_def by auto
qed

lemma end_input_snd_inv: "snd_inv W s \<Longrightarrow> snd_inv W (s\<lparr>snd_stream := end_input (snd_stream s)\<rparr>)"
  by (auto simp: snd_inv_def bs_at_def bytes_read_def bytes_written_def input_ended_def)

lemma set_error_snd_inv: "snd_inv W s \<Longrightarrow> snd_inv W (s\<lparr>snd_stream := set_error (snd_stream s)\<rparr>)"
  by (auto simp: snd_inv_def bs_at_def bytes_read_def bytes_written_def input_ended_def)

lemma pop_out_snd_inv: "snd_inv W s \<Longrightarrow> set q \<subseteq> set (snd_segments_out s) \<Longrightarrow> snd_inv W (s\<lparr>snd_segments_out := q\<rparr>)"
  by (auto simp: snd_inv_def)

section \<open>Runs\<close>

text \<open>
  The calls that the connection makes, with the bytes written so far as ghost state. An empty segment
  is sent only after the SYN.
\<close>

datatype snd_op =
    Write_bytes "byte list"
  | End_bytes
  | Fill
  | Ack WrappingInt32 u16
  | Tick u64
  | Empty

fun snd_step :: "byte list \<times> tcp_sender \<Rightarrow> snd_op \<Rightarrow> byte list \<times> tcp_sender" where
  "snd_step (W, s) (Write_bytes data) =
     (let (stream, n) = bs_write (snd_stream s) data in (W @ take n data, s\<lparr>snd_stream := stream\<rparr>))"
| "snd_step (W, s) End_bytes = (W, s\<lparr>snd_stream := end_input (snd_stream s)\<rparr>)"
| "snd_step (W, s) Fill = (W, fill_window s)"
| "snd_step (W, s) (Ack ackno window) = (W, ack_received s ackno window)"
| "snd_step (W, s) (Tick ms) = (W, sender_tick s ms)"
| "snd_step (W, s) Empty = (W, if snd_set_syn s then send_empty_segment s else s)"

fun op_bytes :: "snd_op \<Rightarrow> nat" where
  "op_bytes (Write_bytes data) = length data"
| "op_bytes _ = 0"

definition snd_run :: "tcp_sender \<Rightarrow> snd_op list \<Rightarrow> byte list \<times> tcp_sender" where
  "snd_run s ops = foldl snd_step ([], s) ops"

lemma snd_step_inv:
  assumes "snd_inv W s" and "length W + op_bytes x + 2 ^ 32 < 2 ^ 64" and "snd_step (W, s) x = (W', s')"
  shows "snd_inv W' s' \<and> length W' \<le> length W + op_bytes x \<and> snd_isn s' = snd_isn s"
proof (cases x)
  case (Write_bytes data)
  have "snd (bs_write (snd_stream s) data) \<le> length data" by (simp add: bs_write_def Let_def)
  then show ?thesis
    using assms Write_bytes stream_write_inv [OF assms(1), of data] by (auto simp: case_prod_beta)
next
  case End_bytes
  then show ?thesis using assms end_input_snd_inv by auto
next
  case Fill
  then show ?thesis using assms fill_window_spec [OF assms(1)] by (auto simp: snd_grows_def)
next
  case (Ack ackno window)
  then show ?thesis using assms ack_received_inv [OF assms(1)] by auto
next
  case (Tick ms)
  then show ?thesis using assms sender_tick_inv [OF assms(1)] by (auto simp: sender_tick_eq)
next
  case Empty
  then show ?thesis using assms send_empty_segment_inv [OF assms(1)] by (auto simp: send_empty_segment_def Let_def)
qed

lemma snd_run_inv:
  assumes "capacity < 2 ^ 64" and "sum_list (map op_bytes ops) + 2 ^ 32 < 2 ^ 64"
    and "snd_run (TCPSender capacity timeout fixed random) ops = (W, s)"
  shows "snd_inv W s \<and> length W \<le> sum_list (map op_bytes ops) \<and> snd_isn s = snd_isn (TCPSender capacity timeout fixed random)"
  using assms(2,3)
proof (induction ops arbitrary: W s rule: rev_induct)
  case Nil
  then show ?case using snd_inv_TCPSender [OF assms(1)] by (auto simp: snd_run_def)
next
  case (snoc x ops)
  obtain W1 s1 where run: "snd_run (TCPSender capacity timeout fixed random) ops = (W1, s1)" by force
  with snoc have IH: "snd_inv W1 s1" "length W1 \<le> sum_list (map op_bytes ops)"
    "snd_isn s1 = snd_isn (TCPSender capacity timeout fixed random)" by auto
  have "snd_step (W1, s1) x = (W, s)" using snoc.prems(2) run by (simp add: snd_run_def)
  then show ?case using snd_step_inv [OF IH(1), of x W s] IH(2,3) snoc.prems(1) by simp
qed

section \<open>Properties\<close>

text \<open>
  C6. Whatever sequence of writes, acknowledgments (also wrong ones), windows and ticks the sender gets: every
  segment it has put out carries, at its sequence number, exactly the bytes written to the stream
  (the SYN is number 0, the FIN only follows the last byte), has at most 1000 bytes of payload and lies
  below the next sequence number; the unacknowledged segments are consecutive up to that number,
  \<^verbatim>\<open>bytes_in_flight\<close> is their length in sequence space, and it stays within \<open>2 ^ 16\<close>.
\<close>

theorem sender_segments_correct:
  assumes "capacity < 2 ^ 64" and "sum_list (map op_bytes ops) + 2 ^ 32 < 2 ^ 64"
    and "snd_run (TCPSender capacity timeout fixed random) ops = (W, s)"
  shows "(\<forall>seg \<in> set (snd_segments_out s). length (buffer_str (ts_payload seg)) \<le> 1000 \<and>
      (th_rst (ts_header seg) \<or>
       (\<exists>a. seg_at W (snd_isn s) seg a \<and> a + length_in_sequence_space seg \<le> snd_next_seqno s))) \<and>
    seq_chain W (snd_isn s) (snd_next_seqno s - bytes_in_flight s) (snd_segments_unackno s) (snd_next_seqno s) \<and>
    bytes_in_flight s = sum_list (map length_in_sequence_space (snd_segments_unackno s)) \<and>
    bytes_in_flight s < 2 ^ 16"
proof -
  have inv: "snd_inv W s" using snd_run_inv [OF assms] by simp
  then have chain: "seq_chain W (snd_isn s) (snd_next_seqno s - snd_bytes_in_flight s) (snd_segments_unackno s) (snd_next_seqno s)"
    and out: "\<forall>seg \<in> set (snd_segments_out s). out_ok W (snd_isn s) (snd_next_seqno s) seg"
    and le: "snd_bytes_in_flight s \<le> snd_next_seqno s" "snd_bytes_in_flight s \<le> 65535"
    unfolding snd_inv_def by blast+
  have "snd_bytes_in_flight s = sum_list (map length_in_sequence_space (snd_segments_unackno s))"
    using seq_chain_len [OF chain] le(1) unfolding seq_len_def by linarith
  then show ?thesis
    using chain out le(2) by (auto simp: bytes_in_flight_def out_ok_def MAX_PAYLOAD_SIZE_def)
qed

theorem sender_segments_correct_witness:
  "bytes_in_flight (snd (snd_run (TCPSender 10 100 (Some (WrappingInt32 7)) 0) [Write_bytes [1, 2], Fill])) < 2 ^ 16"
  using sender_segments_correct [of 10 "[Write_bytes [1, 2], Fill]" 100 "Some (WrappingInt32 7)" 0]
  by (cases "snd_run (TCPSender 10 100 (Some (WrappingInt32 7)) 0) [Write_bytes [1, 2], Fill]") simp

text \<open>
  C12. \<^verbatim>\<open>fill_window\<close> respects the peer's window and uses it: the bytes in flight never exceed the window (a
  zero window counts as one) unless they did before, and afterwards the window is full or there is
  nothing left to send, neither SYN nor bytes nor FIN.
\<close>

theorem fill_window_fills:
  assumes "snd_inv W s"
  shows "bytes_in_flight (fill_window s) \<le> max (bytes_in_flight s) (max 1 (snd_window_size s)) \<and>
    (max 1 (snd_window_size s) \<le> bytes_in_flight (fill_window s) \<or>
     snd_set_syn (fill_window s) \<and> bs_byte_stream (snd_stream (fill_window s)) = [] \<and>
     (input_ended (snd_stream s) \<longrightarrow> snd_set_fin (fill_window s)))"
  using fill_window_spec [OF assms] by (auto simp: bytes_in_flight_def snd_done_def snd_grows_def)

theorem fill_window_fills_witness:
  "bytes_in_flight (fill_window (TCPSender 10 100 None 0)) \<le> 1"
  using fill_window_fills [OF snd_inv_TCPSender, of 10 100 None 0]
  by (simp add: bytes_in_flight_def TCPSender_def)

text \<open>
  C11. An acknowledgment \<open>a\<close> between the last acknowledged number and the next to be sent removes from the
  retransmission queue exactly the segments that end at or before \<open>a\<close>; if it removes any, the
  retransmission count is zero, the timeout is the initial one and the timer starts anew; if none is
  left the timer stops. Then the new window is filled. An acknowledgment outside this range changes nothing.
\<close>

theorem ack_received_exact:
  assumes "snd_inv W s" and "snd_recv_ackno s \<le> a" and "a \<le> snd_next_seqno s"
  shows "\<exists>t acked. ack_received s (wrap a (snd_isn s)) window = fill_window t \<and> snd_inv W t \<and>
    snd_segments_unackno s = acked @ snd_segments_unackno t \<and>
    snd_recv_ackno t = a \<and> snd_window_size t = unat window \<and>
    (snd_segments_unackno t = [] \<longrightarrow> \<not> check_running (snd_timer t)) \<and>
    (\<forall>seg q. snd_segments_unackno t = seg # q \<longrightarrow>
      a < snd_next_seqno t - bytes_in_flight t + length_in_sequence_space seg) \<and>
    snd_next_seqno t - bytes_in_flight t \<le> a \<and>
    (acked \<noteq> [] \<longrightarrow> snd_consecutive_retransmissions_cnt t = 0 \<and>
       tm_cur_RTO (snd_timer t) = tm_init_RTO (snd_timer s) \<and> tm_elapsed_time (snd_timer t) = 0)"
proof -
  have inv: "snd_next_seqno s - snd_bytes_in_flight s \<le> snd_recv_ackno s" "snd_bytes_in_flight s \<le> 65535"
    "snd_next_seqno s \<le> length W + 2" "length W + 2 ^ 32 < 2 ^ 64"
    using assms(1) snd_inv_next_seqno [OF assms(1)] unfolding snd_inv_def by blast+
  have "unwrap (wrap a (snd_isn s)) (snd_isn s) (snd_recv_ackno s) = a"
    using inv assms(2,3) by (intro unwrap_wrap_near) simp_all
  from ack_received_state [OF assms(1) this assms(2,3)] obtain t where
    t: "ack_state W s a window t" "ack_received s (wrap a (snd_isn s)) window = fill_window t" by blast
  then have "snd_next_seqno t - snd_bytes_in_flight t \<le> a" unfolding ack_state_def snd_inv_def by metis
  then show ?thesis using t unfolding ack_state_def bytes_in_flight_def by auto
qed

theorem ack_received_exact_witness:
  "\<exists>t. ack_received (TCPSender 10 100 (Some (WrappingInt32 7)) 0) (wrap 0 (WrappingInt32 7)) 5 = fill_window t \<and> snd_window_size t = 5"
  using ack_received_exact [OF snd_inv_TCPSender, of 10 100 "Some (WrappingInt32 7)" 0 0 5]
  by (auto simp: TCPSender_def)


text \<open>Every operation keeps the timeout at the initial one doubled once for each counted retransmission.\<close>

definition rto_inv :: "tcp_sender \<Rightarrow> bool" where
  "rto_inv s \<longleftrightarrow>
     tm_cur_RTO (snd_timer s) = tm_init_RTO (snd_timer s) * 2 ^ snd_consecutive_retransmissions_cnt s mod 2 ^ 64 \<and>
     tm_init_RTO (snd_timer s) < 2 ^ 64"

lemma rto_inv_grows: "rto_inv s \<Longrightarrow> snd_grows s s' \<Longrightarrow> rto_inv s'"
  by (auto simp: rto_inv_def snd_grows_def)

lemma rto_inv_tick:
  assumes "rto_inv s" and "snd_consecutive_retransmissions_cnt s + 1 < 2 ^ 64"
  shows "rto_inv (sender_tick s ms)"
proof -
  let ?i = "tm_init_RTO (snd_timer s)" and ?n = "snd_consecutive_retransmissions_cnt s"
  have "mul64 (?i * 2 ^ ?n mod 2 ^ 64) 2 = ?i * 2 ^ (?n + 1) mod 2 ^ 64"
    by (simp only: mul64_def mod_mult_left_eq) (simp add: ac_simps)
  then show ?thesis using assms by (simp add: sender_tick_eq rto_inv_def add64_exact)
qed

lemma rto_inv_ack:
  assumes "snd_inv W s" and "rto_inv s"
  shows "rto_inv (ack_received s ackno window)"
    "snd_consecutive_retransmissions_cnt (ack_received s ackno window) \<le> snd_consecutive_retransmissions_cnt s"
proof -
  let ?a = "unwrap ackno (snd_isn s) (snd_recv_ackno s)"
  have "rto_inv (ack_received s ackno window) \<and>
    snd_consecutive_retransmissions_cnt (ack_received s ackno window) \<le> snd_consecutive_retransmissions_cnt s"
  proof (cases "snd_recv_ackno s \<le> ?a \<and> ?a \<le> snd_next_seqno s")
    case True
    then obtain t where t: "ack_state W s ?a window t" "ack_received s ackno window = fill_window t"
      using ack_received_state [OF assms(1) refl] by blast
    then have "snd_inv W t" and "rto_inv t" "snd_consecutive_retransmissions_cnt t \<le> snd_consecutive_retransmissions_cnt s"
      using assms(2) by (auto simp: ack_state_def rto_inv_def split: if_splits)
    then show ?thesis using fill_window_spec(2) [of W t] rto_inv_grows t(2) by (auto simp: snd_grows_def)
  next
    case False
    then have "ack_received s ackno window = s" by (auto simp: ack_received_def Let_def)
    then show ?thesis using assms(2) by simp
  qed
  then show "rto_inv (ack_received s ackno window)"
    "snd_consecutive_retransmissions_cnt (ack_received s ackno window) \<le> snd_consecutive_retransmissions_cnt s" by blast+
qed

lemma snd_step_rto:
  assumes "snd_inv W s" and "rto_inv s" and "snd_consecutive_retransmissions_cnt s + 1 < 2 ^ 64"
  shows "rto_inv (snd (snd_step (W, s) x)) \<and>
    snd_consecutive_retransmissions_cnt (snd (snd_step (W, s) x)) \<le> snd_consecutive_retransmissions_cnt s + 1"
proof (cases x)
  case Fill
  then show ?thesis
    using fill_window_spec(2) [OF assms(1)] rto_inv_grows [OF assms(2)] by (auto simp: snd_grows_def)
next
  case (Ack ackno window)
  then show ?thesis using rto_inv_ack [OF assms(1,2), of ackno window] by simp
next
  case (Tick ms)
  then show ?thesis using rto_inv_tick [OF assms(2,3), of ms] assms(3) by (simp add: sender_tick_eq add64_exact)
qed (use assms in \<open>simp_all add: rto_inv_def send_empty_segment_def Let_def case_prod_beta\<close>)

lemma snd_step_init:
  assumes "snd_inv W s"
  shows "tm_init_RTO (snd_timer (snd (snd_step (W, s) x))) = tm_init_RTO (snd_timer s)"
proof (cases x)
  case Fill
  then show ?thesis using fill_window_spec(2) [OF assms] by (simp add: snd_grows_def)
next
  case (Ack ackno window)
  let ?a = "unwrap ackno (snd_isn s) (snd_recv_ackno s)"
  show ?thesis
  proof (cases "snd_recv_ackno s \<le> ?a \<and> ?a \<le> snd_next_seqno s")
    case True
    then obtain t where t: "ack_state W s ?a window t" "ack_received s ackno window = fill_window t"
      using ack_received_state [OF assms refl] by blast
    then show ?thesis using fill_window_spec(2) [of W t] Ack by (simp add: ack_state_def snd_grows_def)
  next
    case False
    then have "ack_received s ackno window = s" by (auto simp: ack_received_def Let_def)
    then show ?thesis using Ack by simp
  qed
qed (simp_all add: sender_tick_eq send_empty_segment_def Let_def case_prod_beta)

lemma snd_run_rto:
  assumes "capacity < 2 ^ 64" and "sum_list (map op_bytes ops) + 2 ^ 32 < 2 ^ 64" and "length ops < 2 ^ 64"
    and "snd_run (TCPSender capacity timeout fixed random) ops = (W, s)"
  shows "rto_inv s \<and> snd_consecutive_retransmissions_cnt s \<le> length ops \<and> tm_init_RTO (snd_timer s) = unat timeout"
  using assms(2-4)
proof (induction ops arbitrary: W s rule: rev_induct)
  case Nil
  then show ?case
    using unat_bounds(2) [of timeout] by (auto simp: snd_run_def rto_inv_def TCPSender_def Timer_def)
next
  case (snoc x ops)
  obtain W1 s1 where run: "snd_run (TCPSender capacity timeout fixed random) ops = (W1, s1)" by force
  then have inv: "snd_inv W1 s1" using snd_run_inv [OF assms(1) _ run] snoc.prems(1) by simp
  have IH: "rto_inv s1" "snd_consecutive_retransmissions_cnt s1 \<le> length ops" "tm_init_RTO (snd_timer s1) = unat timeout"
    using snoc run by auto
  have step: "snd_step (W1, s1) x = (W, s)" using snoc.prems(3) run by (simp add: snd_run_def)
  have "snd_consecutive_retransmissions_cnt s1 + 1 < 2 ^ 64" using IH(2) snoc.prems(2) by simp
  from snd_step_rto [OF inv IH(1) this, of x] step IH(2,3) snd_step_init [OF inv, of x] show ?case by simp
qed

text \<open>The timer runs exactly while segments are unacknowledged.\<close>

definition timer_inv :: "tcp_sender \<Rightarrow> bool" where
  "timer_inv s \<longleftrightarrow> (tm_running (snd_timer s) \<longleftrightarrow> snd_segments_unackno s \<noteq> [])"

lemma push_segment_timer: "timer_inv s \<Longrightarrow> timer_inv (snd (push_segment s TCPSegment0 len))"
  by (auto simp: push_segment_eq Let_def timer_inv_def timer_start_def check_running_def)

text \<open>What \<^verbatim>\<open>push_segment\<close> keeps, the two loops of \<^verbatim>\<open>fill_window\<close> keep.\<close>

lemma fill_window_keeps:
  assumes "\<And>s len. P s \<Longrightarrow> P (snd (push_segment s TCPSegment0 len))" and "P s"
  shows "P (fill_window s)"
proof -
  have "P s \<Longrightarrow> P (fill_open_window s)" for s
  proof (induction s rule: fill_open_window.induct)
    case (1 s)
    then show ?case using assms(1) [of s "fill_window_size s"] by (subst fill_open_window.simps) (auto split: prod.splits)
  qed
  moreover have "P s \<Longrightarrow> P (fill_zero_window s)" for s
  proof (induction s rule: fill_zero_window.induct)
    case (1 s)
    then show ?case using assms(1) [of s 1] by (subst fill_zero_window.simps) (auto split: prod.splits)
  qed
  ultimately show ?thesis using assms(2) by (simp add: fill_window_def)
qed

lemma fill_window_timer: "timer_inv s \<Longrightarrow> timer_inv (fill_window s)"
  by (rule fill_window_keeps [where P = timer_inv, OF push_segment_timer])

lemma ack_loop_flag:
  "ack_loop isn b recv flag q n = (flag', q', n') \<Longrightarrow> (flag \<longrightarrow> flag') \<and> (q' = q \<or> flag') \<and> (q = [] \<longrightarrow> q' = [])"
  by (induction isn b recv flag q n rule: ack_loop.induct) (auto simp: Let_def split: if_splits)

lemma ack_received_timer:
  assumes "timer_inv s"
  shows "timer_inv (ack_received s ackno window)"
proof -
  obtain flag q n where run: "ack_loop (snd_isn s) (snd_next_seqno s) (unwrap ackno (snd_isn s) (snd_recv_ackno s)) False
      (snd_segments_unackno s) (snd_bytes_in_flight s) = (flag, q, n)" by (metis prod_cases3)
  show ?thesis
  proof (cases "snd_next_seqno s < unwrap ackno (snd_isn s) (snd_recv_ackno s) \<or>
      unwrap ackno (snd_isn s) (snd_recv_ackno s) < snd_recv_ackno s")
    case True
    then show ?thesis using assms by (simp add: ack_received_def)
  next
    case False
    show ?thesis
      unfolding ack_received_def Let_def if_not_P [OF False] run prod.case
      by (rule fill_window_timer)
        (use assms ack_loop_flag [OF run] in \<open>auto simp: timer_inv_def timer_start_def timer_stop_def timer_reset_def\<close>)
  qed
qed

lemma snd_step_timer:
  assumes "timer_inv s"
  shows "timer_inv (snd (snd_step (W, s) x))"
proof (cases x)
  case Fill
  then show ?thesis using fill_window_timer [OF assms] by simp
next
  case (Ack ackno window)
  then show ?thesis using ack_received_timer [OF assms] by simp
qed (use assms in \<open>auto simp: sender_tick_eq send_empty_segment_def Let_def case_prod_beta timer_inv_def tick_expires_def\<close>)

lemma snd_run_timer: "timer_inv (snd (snd_run (TCPSender capacity timeout fixed random) ops))"
proof (induction ops rule: rev_induct)
  case Nil
  then show ?case by (simp add: snd_run_def timer_inv_def TCPSender_def Timer_def)
next
  case (snoc x ops)
  then show ?case using snd_step_timer by (simp add: snd_run_def) (metis prod.collapse)
qed



text \<open>
  C14. Exponential back-off: after any sequence of operations the retransmission timeout is the
  initial one times two to the number of consecutive retransmissions (modulo \<open>2 ^ 64\<close>, the width of the code's
  integer), so that ten timeouts in a row wait 1, 2, 4, ..., 512 times the initial timeout.
\<close>

theorem sender_backoff:
  assumes "capacity < 2 ^ 64" and "sum_list (map op_bytes ops) + 2 ^ 32 < 2 ^ 64" and "length ops < 2 ^ 64"
    and "snd_run (TCPSender capacity timeout fixed random) ops = (W, s)"
  shows "tm_cur_RTO (snd_timer s) = unat timeout * 2 ^ snd_consecutive_retransmissions_cnt s mod 2 ^ 64"
  using snd_run_rto [OF assms] by (simp add: rto_inv_def)

theorem sender_backoff_witness:
  "\<exists>W s. snd_run (TCPSender 10 100 None 0) [Fill, Tick 100] = (W, s) \<and>
     tm_cur_RTO (snd_timer s) = 100 * 2 ^ snd_consecutive_retransmissions_cnt s mod 2 ^ 64"
  using sender_backoff [of 10 "[Fill, Tick 100]" 100 None 0]
  by (cases "snd_run (TCPSender 10 100 None 0) [Fill, Tick 100]") simp

end
