(* ===== verification/TCP_State.thy ===== *)
theory TCP_State
  imports TCP_Receiver TCP_Sender
begin

text \<open>
  \<^verbatim>\<open>libsponge/tcp_helpers/tcp_state.{hh,cc}\<close>: a summary of a connection's state and its correspondence with the
  state names of the TCP specification. As in the code the summaries of sender and receiver are strings.
\<close>

section \<open>Definitions\<close>

definition R_ERROR :: string where "R_ERROR = ''error (connection was reset)''"
definition R_LISTEN :: string where "R_LISTEN = ''waiting for SYN: ackno is empty''"
definition R_SYN_RECV :: string where "R_SYN_RECV = ''SYN received (ackno exists), and input to stream hasn't ended''"
definition R_FIN_RECV :: string where "R_FIN_RECV = ''input to stream has ended''"

definition S_ERROR :: string where "S_ERROR = ''error (connection was reset)''"
definition S_CLOSED :: string where "S_CLOSED = ''waiting for stream to begin (no SYN sent)''"
definition S_SYN_SENT :: string where "S_SYN_SENT = ''stream started but nothing acknowledged''"
definition S_SYN_ACKED :: string where "S_SYN_ACKED = ''stream ongoing''"
definition S_FIN_SENT :: string where "S_FIN_SENT = ''stream finished (FIN sent) but not fully acknowledged''"
definition S_FIN_ACKED :: string where "S_FIN_ACKED = ''stream finished and fully acknowledged''"

lemmas summary_defs = R_ERROR_def R_LISTEN_def R_SYN_RECV_def R_FIN_RECV_def S_ERROR_def S_CLOSED_def
  S_SYN_SENT_def S_SYN_ACKED_def S_FIN_SENT_def S_FIN_ACKED_def

record tcp_state =
  st_sender :: string
  st_receiver :: string
  st_active :: bool
  st_linger_after_streams_finish :: bool

datatype State =
  LISTEN | SYN_RCVD | SYN_SENT | ESTABLISHED | CLOSE_WAIT | LAST_ACK | FIN_WAIT_1 | FIN_WAIT_2 | CLOSING
  | TIME_WAIT | CLOSED | RESET

definition TCPState_of :: "State \<Rightarrow> tcp_state" where
  "TCPState_of state =
     (case state of
        LISTEN \<Rightarrow> \<lparr>st_sender = S_CLOSED, st_receiver = R_LISTEN, st_active = True, st_linger_after_streams_finish = True\<rparr>
      | SYN_RCVD \<Rightarrow> \<lparr>st_sender = S_SYN_SENT, st_receiver = R_SYN_RECV, st_active = True, st_linger_after_streams_finish = True\<rparr>
      | SYN_SENT \<Rightarrow> \<lparr>st_sender = S_SYN_SENT, st_receiver = R_LISTEN, st_active = True, st_linger_after_streams_finish = True\<rparr>
      | ESTABLISHED \<Rightarrow> \<lparr>st_sender = S_SYN_ACKED, st_receiver = R_SYN_RECV, st_active = True, st_linger_after_streams_finish = True\<rparr>
      | CLOSE_WAIT \<Rightarrow> \<lparr>st_sender = S_SYN_ACKED, st_receiver = R_FIN_RECV, st_active = True, st_linger_after_streams_finish = False\<rparr>
      | LAST_ACK \<Rightarrow> \<lparr>st_sender = S_FIN_SENT, st_receiver = R_FIN_RECV, st_active = True, st_linger_after_streams_finish = False\<rparr>
      | CLOSING \<Rightarrow> \<lparr>st_sender = S_FIN_SENT, st_receiver = R_FIN_RECV, st_active = True, st_linger_after_streams_finish = True\<rparr>
      | FIN_WAIT_1 \<Rightarrow> \<lparr>st_sender = S_FIN_SENT, st_receiver = R_SYN_RECV, st_active = True, st_linger_after_streams_finish = True\<rparr>
      | FIN_WAIT_2 \<Rightarrow> \<lparr>st_sender = S_FIN_ACKED, st_receiver = R_SYN_RECV, st_active = True, st_linger_after_streams_finish = True\<rparr>
      | TIME_WAIT \<Rightarrow> \<lparr>st_sender = S_FIN_ACKED, st_receiver = R_FIN_RECV, st_active = True, st_linger_after_streams_finish = True\<rparr>
      | RESET \<Rightarrow> \<lparr>st_sender = S_ERROR, st_receiver = R_ERROR, st_active = False, st_linger_after_streams_finish = False\<rparr>
      | CLOSED \<Rightarrow> \<lparr>st_sender = S_FIN_ACKED, st_receiver = R_FIN_RECV, st_active = False, st_linger_after_streams_finish = False\<rparr>)"

definition receiver_state_summary :: "tcp_receiver \<Rightarrow> string" where
  "receiver_state_summary receiver =
     (if bs_error (stream_out receiver) then R_ERROR
      else if receiver_ackno receiver = None then R_LISTEN
      else if input_ended (stream_out receiver) then R_FIN_RECV
      else R_SYN_RECV)"

definition sender_state_summary :: "tcp_sender \<Rightarrow> string" where
  "sender_state_summary sender =
     (if bs_error (snd_stream sender) then S_ERROR
      else if snd_next_seqno sender = 0 then S_CLOSED
      else if snd_next_seqno sender = bytes_in_flight sender then S_SYN_SENT
      else if \<not> bs_eof (snd_stream sender) then S_SYN_ACKED
      else if snd_next_seqno sender < add64 (bytes_written (snd_stream sender)) 2 then S_SYN_ACKED
      else if bytes_in_flight sender \<noteq> 0 then S_FIN_SENT
      else S_FIN_ACKED)"

definition TCPState :: "tcp_sender \<Rightarrow> tcp_receiver \<Rightarrow> bool \<Rightarrow> bool \<Rightarrow> tcp_state" where
  "TCPState sender receiver active linger =
     \<lparr>st_sender = sender_state_summary sender, st_receiver = receiver_state_summary receiver, st_active = active,
      st_linger_after_streams_finish = (if active then linger else False)\<rparr>"

definition tcp_state_eq :: "tcp_state \<Rightarrow> tcp_state \<Rightarrow> bool" where
  "tcp_state_eq a b \<longleftrightarrow>
     st_active a = st_active b \<and> st_linger_after_streams_finish a = st_linger_after_streams_finish b \<and>
     st_sender a = st_sender b \<and> st_receiver a = st_receiver b"

definition tcp_state_name :: "tcp_state \<Rightarrow> string" where
  "tcp_state_name s =
     ''sender=`'' @ st_sender s @ ''`, receiver=`'' @ st_receiver s @ ''`, active='' @
     (if st_active s then ''1'' else ''0'') @ '', linger_after_streams_finish='' @
     (if st_linger_after_streams_finish s then ''1'' else ''0'')"

section \<open>Properties\<close>

text \<open>
  The comparison of state summaries tells the states of the TCP specification apart: the summaries of
  two of the twelve official states are equal only if the states are.
\<close>

theorem tcp_states_distinct: "tcp_state_eq (TCPState_of a) (TCPState_of b) \<longleftrightarrow> a = b"
  by (cases a; cases b) (simp_all add: tcp_state_eq_def TCPState_of_def summary_defs)

text \<open>
  C22. What the summary of the sender means: in every state the sender can be in and whose stream has no
  error, it says CLOSED before the SYN is sent, SYN_SENT until the SYN is acknowledged, FIN_SENT or
  FIN_ACKED exactly if the FIN was sent, according to whether something is unacknowledged, and
  SYN_ACKED otherwise; although the code infers this from sequence numbers alone.
\<close>

theorem sender_summary_meaning:
  assumes "snd_inv W s" and "\<not> bs_error (snd_stream s)"
  shows "sender_state_summary s =
    (if \<not> snd_set_syn s then S_CLOSED
     else if bytes_in_flight s = snd_next_seqno s then S_SYN_SENT
     else if \<not> snd_set_fin s then S_SYN_ACKED
     else if snd_segments_unackno s \<noteq> [] then S_FIN_SENT else S_FIN_ACKED)"
proof -
  have inv: "snd_next_seqno s = (if snd_set_syn s then 1 else 0) + bytes_read (snd_stream s) + (if snd_set_fin s then 1 else 0)"
    "\<not> snd_set_syn s \<longrightarrow> snd_next_seqno s = 0" "bytes_written (snd_stream s) = length W"
    "snd_set_fin s \<longrightarrow> input_ended (snd_stream s) \<and> bs_byte_stream (snd_stream s) = []"
    "snd_bytes_in_flight s \<le> snd_next_seqno s" "length W + 2 ^ 32 < 2 ^ 64"
    "seq_chain W (snd_isn s) (snd_next_seqno s - snd_bytes_in_flight s) (snd_segments_unackno s) (snd_next_seqno s)"
    using assms(1) unfolding snd_inv_def by blast+
  have "snd_segments_unackno s \<noteq> [] \<longleftrightarrow> snd_bytes_in_flight s \<noteq> 0"
    using seq_chain_len [OF inv(7)] inv(5) by (cases "snd_segments_unackno s") (auto simp: seq_len_def)
  moreover have "bytes_read (snd_stream s) + length (bs_byte_stream (snd_stream s)) = length W"
    by (rule snd_inv_stream(3) [OF assms(1)])
  ultimately show ?thesis
    using assms(2) inv(1-6)
    by (auto simp: sender_state_summary_def bytes_in_flight_def add64_exact bs_eof_def buffer_empty_def input_ended_def)
qed

theorem sender_summary_meaning_witness:
  "sender_state_summary (TCPSender 10 100 None 0) = S_CLOSED"
  using sender_summary_meaning [OF snd_inv_TCPSender, of 10 100 None 0] by (simp add: TCPSender_def ByteStream_def)

end
