(* ===== verification/TCP_Connection.thy ===== *)
theory TCP_Connection
  imports TCP_State
begin

text \<open>
  \<^verbatim>\<open>libsponge/tcp_connection.{hh,cc}\<close> and the class \<^verbatim>\<open>TCPConfig\<close> of \<^verbatim>\<open>tcp_helpers/tcp_config.hh\<close>: an endpoint of a TCP
  connection, made of a sender and a receiver. Every method is a function on the connection record;
  \<^verbatim>\<open>segment_received\<close> may pass on an exception of the reassembler, which is shown never to happen for
  the segments of a stream.
\<close>

section \<open>Definitions\<close>

definition DEFAULT_CAPACITY :: nat where
  "DEFAULT_CAPACITY = 64000"

definition TIMEOUT_DFLT :: u16 where
  "TIMEOUT_DFLT = 1000"

definition MAX_RETX_ATTEMPTS :: u32 where
  "MAX_RETX_ATTEMPTS = 8"

record TCPConfig =
  rt_timeout :: u16
  recv_capacity :: u64
  send_capacity :: u64
  fixed_isn :: "WrappingInt32 option"

definition TCPConfig0 :: TCPConfig where
  "TCPConfig0 =
     \<lparr>rt_timeout = TIMEOUT_DFLT, recv_capacity = DEFAULT_CAPACITY, send_capacity = DEFAULT_CAPACITY, fixed_isn = None\<rparr>"

record tcp_connection =
  tc_cfg :: TCPConfig
  tc_receiver :: tcp_receiver
  tc_sender :: tcp_sender
  tc_segments_out :: "TCPSegment list"
  tc_linger_after_streams_finish :: bool
  tc_time_since_last_segment_received :: u64
  tc_is_active :: bool

definition TCPConnection :: "TCPConfig \<Rightarrow> u32 \<Rightarrow> tcp_connection" where
  "TCPConnection cfg random =
     \<lparr>tc_cfg = cfg, tc_receiver = TCPReceiver (recv_capacity cfg),
      tc_sender = TCPSender (send_capacity cfg) (rt_timeout cfg) (fixed_isn cfg) random,
      tc_segments_out = [], tc_linger_after_streams_finish = True,
      tc_time_since_last_segment_received = 0, tc_is_active = True\<rparr>"

definition remaining_outbound_capacity :: "tcp_connection \<Rightarrow> u64" where
  "remaining_outbound_capacity c = remaining_capacity (snd_stream (tc_sender c))"

definition conn_bytes_in_flight :: "tcp_connection \<Rightarrow> u64" where
  "conn_bytes_in_flight c = bytes_in_flight (tc_sender c)"

definition conn_unassembled_bytes :: "tcp_connection \<Rightarrow> u64" where
  "conn_unassembled_bytes c = receiver_unassembled_bytes (tc_receiver c)"

definition time_since_last_segment_received :: "tcp_connection \<Rightarrow> u64" where
  "time_since_last_segment_received c = tc_time_since_last_segment_received c"

definition active :: "tcp_connection \<Rightarrow> bool" where
  "active c = tc_is_active c"

definition inbound_stream :: "tcp_connection \<Rightarrow> byte_stream" where
  "inbound_stream c = stream_out (tc_receiver c)"

definition conn_state :: "tcp_connection \<Rightarrow> tcp_state" where
  "conn_state c = TCPState (tc_sender c) (tc_receiver c) (active c) (tc_linger_after_streams_finish c)"

text \<open>One round of the loop of \<^verbatim>\<open>segment_assemble_send\<close>: the receiver's part of an outbound segment.\<close>

definition assemble_segment :: "tcp_receiver \<Rightarrow> TCPSegment \<Rightarrow> TCPSegment" where
  "assemble_segment r segment =
     (let h = ts_header segment;
          h = (case receiver_ackno r of Some ackno \<Rightarrow> h\<lparr>th_ack := True, th_ackno := ackno\<rparr> | None \<Rightarrow> h)
      in segment\<lparr>ts_header := h\<lparr>th_win := of_nat (min 65535 (window_size r))\<rparr>\<rparr>)"

fun assemble_loop_send :: "tcp_receiver \<Rightarrow> TCPSegment list \<Rightarrow> TCPSegment list \<Rightarrow> TCPSegment list" where
  "assemble_loop_send r [] out = out"
| "assemble_loop_send r (segment # q) out = assemble_loop_send r q (out @ [assemble_segment r segment])"

definition segment_assemble_send :: "tcp_connection \<Rightarrow> tcp_connection" where
  "segment_assemble_send c =
     c\<lparr>tc_segments_out := assemble_loop_send (tc_receiver c) (snd_segments_out (tc_sender c)) (tc_segments_out c),
       tc_sender := (tc_sender c)\<lparr>snd_segments_out := []\<rparr>\<rparr>"

definition set_receiver_error :: "tcp_receiver \<Rightarrow> tcp_receiver" where
  "set_receiver_error r =
     r\<lparr>rcv_reassembler := (rcv_reassembler r)\<lparr>sr_output := set_error (sr_output (rcv_reassembler r))\<rparr>\<rparr>"

definition set_shutdown :: "tcp_connection \<Rightarrow> bool \<Rightarrow> tcp_connection" where
  "set_shutdown c is_clean =
     (let c = c\<lparr>tc_is_active := False\<rparr> in
      if \<not> is_clean then
        c\<lparr>tc_sender := (tc_sender c)\<lparr>snd_stream := set_error (snd_stream (tc_sender c))\<rparr>,
          tc_receiver := set_receiver_error (tc_receiver c)\<rparr>
      else c)"

definition send_rst_segment :: "tcp_connection \<Rightarrow> tcp_connection" where
  "send_rst_segment c =
     segment_assemble_send (c\<lparr>tc_sender := send_empty_segment_flags (tc_sender c) False False True\<rparr>)"

definition connect :: "tcp_connection \<Rightarrow> tcp_connection" where
  "connect c = segment_assemble_send (c\<lparr>tc_sender := fill_window (tc_sender c)\<rparr>)"

definition conn_write :: "tcp_connection \<Rightarrow> byte list \<Rightarrow> tcp_connection \<times> u64" where
  "conn_write c data =
     (let (stream, len) = bs_write (snd_stream (tc_sender c)) data;
          c = c\<lparr>tc_sender := fill_window ((tc_sender c)\<lparr>snd_stream := stream\<rparr>)\<rparr>
      in (segment_assemble_send c, len))"

definition end_input_stream :: "tcp_connection \<Rightarrow> tcp_connection" where
  "end_input_stream c =
     (let c = c\<lparr>tc_sender := (tc_sender c)\<lparr>snd_stream := end_input (snd_stream (tc_sender c))\<rparr>\<rparr>;
          c = c\<lparr>tc_sender := fill_window (tc_sender c)\<rparr>
      in segment_assemble_send c)"

text \<open>The phases of \<^verbatim>\<open>segment_received\<close>: acknowledgment, linger flag, keep-alive and reply.\<close>

definition recv_ack :: "tcp_connection \<Rightarrow> TCPSegment \<Rightarrow> tcp_connection" where
  "recv_ack c seg =
     (if th_ack (ts_header seg)
      then c\<lparr>tc_sender := ack_received (tc_sender c) (th_ackno (ts_header seg)) (th_win (ts_header seg))\<rparr> else c)"

definition recv_linger :: "tcp_connection \<Rightarrow> tcp_connection" where
  "recv_linger c =
     (if receiver_state_summary (tc_receiver c) = R_FIN_RECV \<and> sender_state_summary (tc_sender c) = S_SYN_ACKED
      then c\<lparr>tc_linger_after_streams_finish := False\<rparr> else c)"

definition recv_keep_alive :: "tcp_connection \<Rightarrow> TCPSegment \<Rightarrow> tcp_connection" where
  "recv_keep_alive c seg =
     (if receiver_ackno (tc_receiver c) \<noteq> None \<and> length_in_sequence_space seg = 0 \<and>
         th_seqno (ts_header seg) = wi_sub (the (receiver_ackno (tc_receiver c))) 1
      then c\<lparr>tc_sender := send_empty_segment (tc_sender c)\<rparr> else c)"

definition recv_reply :: "tcp_connection \<Rightarrow> TCPSegment \<Rightarrow> tcp_connection" where
  "recv_reply c seg =
     (if 0 < length_in_sequence_space seg \<and> snd_segments_out (tc_sender c) = [] then
        if snd_segments_out (fill_window (tc_sender c)) = []
        then c\<lparr>tc_sender := send_empty_segment (fill_window (tc_sender c))\<rparr>
        else c\<lparr>tc_sender := fill_window (tc_sender c)\<rparr>
      else c)"

definition conn_segment_received :: "tcp_connection \<Rightarrow> TCPSegment \<Rightarrow> tcp_connection res" where
  "conn_segment_received c seg =
     (if \<not> active c then Inr c
      else
        let c = c\<lparr>tc_time_since_last_segment_received := 0\<rparr>;
            header = ts_header seg
        in if th_rst header then Inr (set_shutdown c False)
        else
          bind_res (segment_received (tc_receiver c) seg) (\<lambda>receiver.
            let c = c\<lparr>tc_receiver := receiver\<rparr>;
                c = recv_ack c seg
            in if th_syn header \<and> snd_next_seqno (tc_sender c) = 0 then Inr (connect c)
            else
              let c = recv_linger c;
                  c = recv_keep_alive c seg;
                  c = recv_reply c seg
              in Inr (segment_assemble_send c)))"

definition conn_tick :: "tcp_connection \<Rightarrow> u64 \<Rightarrow> tcp_connection" where
  "conn_tick c ms =
     (let c = c\<lparr>tc_sender := sender_tick (tc_sender c) ms,
                tc_time_since_last_segment_received := add64 (tc_time_since_last_segment_received c) ms\<rparr>
      in if MAX_RETX_ATTEMPTS < consecutive_retransmissions (tc_sender c) then
           send_rst_segment (set_shutdown (c\<lparr>tc_sender := (tc_sender c)\<lparr>snd_segments_out := []\<rparr>\<rparr>) False)
         else
           let c = segment_assemble_send c in
           if receiver_state_summary (tc_receiver c) = R_FIN_RECV \<and> sender_state_summary (tc_sender c) = S_FIN_ACKED then
             if tc_linger_after_streams_finish c then
               if 10 * unat (rt_timeout (tc_cfg c)) \<le> tc_time_since_last_segment_received c
               then set_shutdown c True else c
             else set_shutdown c True
           else c)"

text \<open>The destructor, with the segments it leaves to be sent.\<close>

definition conn_destructor :: "tcp_connection \<Rightarrow> tcp_connection" where
  "conn_destructor c = (if active c then send_rst_segment (set_shutdown c False) else c)"

section \<open>Lemmas\<close>

lemma assemble_loop_send_eq: "assemble_loop_send r q out = out @ map (assemble_segment r) q"
  by (induction r q out rule: assemble_loop_send.induct) simp_all

lemma assemble_segment_frame [simp]:
  "ts_payload (assemble_segment r seg) = ts_payload seg"
  "th_seqno (ts_header (assemble_segment r seg)) = th_seqno (ts_header seg)"
  "th_syn (ts_header (assemble_segment r seg)) = th_syn (ts_header seg)"
  "th_fin (ts_header (assemble_segment r seg)) = th_fin (ts_header seg)"
  "th_rst (ts_header (assemble_segment r seg)) = th_rst (ts_header seg)"
  "length_in_sequence_space (assemble_segment r seg) = length_in_sequence_space seg"
  "seg_at W isn (assemble_segment r seg) a = seg_at W isn seg a"
  "out_ok W isn b (assemble_segment r seg) = out_ok W isn b seg"
  by (auto simp: assemble_segment_def Let_def seg_at_def seg_index_def length_in_sequence_space_def out_ok_def
      split: option.splits)

lemma segment_assemble_send_simps [simp]:
  "tc_segments_out (segment_assemble_send c) =
     tc_segments_out c @ map (assemble_segment (tc_receiver c)) (snd_segments_out (tc_sender c))"
  "tc_sender (segment_assemble_send c) = (tc_sender c)\<lparr>snd_segments_out := []\<rparr>"
  "tc_receiver (segment_assemble_send c) = tc_receiver c" "tc_cfg (segment_assemble_send c) = tc_cfg c"
  "tc_is_active (segment_assemble_send c) = tc_is_active c"
  "tc_linger_after_streams_finish (segment_assemble_send c) = tc_linger_after_streams_finish c"
  "tc_time_since_last_segment_received (segment_assemble_send c) = tc_time_since_last_segment_received c"
  by (simp_all add: segment_assemble_send_def assemble_loop_send_eq)

section \<open>The sending side\<close>

lemma snd_flags_mono:
  assumes "snd_inv W s" and "snd_inv W t" and "snd_next_seqno s \<le> snd_next_seqno t"
  shows "snd_set_syn s \<longrightarrow> snd_set_syn t" "snd_set_fin s \<longrightarrow> snd_set_fin t"
proof -
  show syn: "snd_set_syn s \<longrightarrow> snd_set_syn t" using assms by (auto simp: snd_inv_def)
  show "snd_set_fin s \<longrightarrow> snd_set_fin t"
  proof
    assume fin: "snd_set_fin s"
    then have "snd_set_syn s" "bs_byte_stream (snd_stream s) = []" using assms(1) by (auto simp: snd_inv_def)
    then have "snd_next_seqno s = length W + 2" using assms(1) fin by (auto simp: snd_inv_def bs_at_def)
    moreover have "bytes_read (snd_stream t) \<le> length W" using assms(2) by (auto simp: snd_inv_def bs_at_def)
    ultimately show "snd_set_fin t" using assms(2,3) by (auto simp: snd_inv_def split: if_splits)
  qed
qed

lemma fill_window_syn: "snd_inv W s \<Longrightarrow> snd_set_syn (fill_window s)"
  using fill_window_spec [of W s] snd_inv_no_syn [of W "fill_window s"] by (fastforce simp: snd_done_def)

text \<open>
  How the sender may change while the connection works: the initial sequence number stays and the next one
  never decreases.
\<close>

definition snd_after :: "byte list \<Rightarrow> tcp_sender \<Rightarrow> tcp_sender \<Rightarrow> bool" where
  "snd_after W s t \<longleftrightarrow> snd_inv W t \<and> snd_isn t = snd_isn s \<and> snd_next_seqno s \<le> snd_next_seqno t"

lemma snd_after_refl: "snd_inv W s \<Longrightarrow> snd_after W s s"
  by (simp add: snd_after_def)

lemma snd_after_trans: "snd_after W s t \<Longrightarrow> snd_after W t u \<Longrightarrow> snd_after W s u"
  by (auto simp: snd_after_def)

lemma snd_after_fill: "snd_inv W s \<Longrightarrow> snd_after W s (fill_window s)"
  using fill_window_spec(1,2) [of W s] by (simp add: snd_after_def snd_grows_def)

lemma snd_after_ack: "snd_inv W s \<Longrightarrow> snd_after W s (ack_received s ackno window)"
  using ack_received_inv [of W s ackno window] by (simp add: snd_after_def)

lemma snd_after_empty: "snd_inv W s \<Longrightarrow> snd_set_syn s \<Longrightarrow> snd_after W s (send_empty_segment s)"
  using send_empty_segment_inv [of W s] by (simp add: snd_after_def send_empty_segment_def Let_def)

lemma snd_after_rst: "snd_inv W s \<Longrightarrow> snd_after W s (send_empty_segment_flags s False False True)"
proof -
  assume a: "snd_inv W s"
  then have "snd_next_seqno s < 2 ^ 64" using snd_inv_next_seqno [OF a] by (simp add: snd_inv_def)
  then show ?thesis
    using send_rst_inv [OF a]
    by (simp add: snd_after_def send_empty_segment_flags_def Let_def length_in_sequence_space_def TCPSegment0_def TCPHeader0_def)
qed

lemma snd_after_tick: "snd_inv W s \<Longrightarrow> snd_after W s (sender_tick s ms)"
  using sender_tick_inv [of W s ms] by (simp add: snd_after_def sender_tick_eq)

lemma snd_after_error: "snd_inv W s \<Longrightarrow> snd_after W s (s\<lparr>snd_stream := set_error (snd_stream s)\<rparr>)"
  using set_error_snd_inv [of W s] by (simp add: snd_after_def)

lemma snd_after_clear: "snd_inv W s \<Longrightarrow> snd_after W s (s\<lparr>snd_segments_out := []\<rparr>)"
  using pop_out_snd_inv [of W s "[]"] by (simp add: snd_after_def)

text \<open>
  A connection whose sender has put out segments of the stream \<open>W\<close> only. A connection that has seen the peer's
  SYN has sent its own.
\<close>

definition conn_snd_ok :: "byte list \<Rightarrow> tcp_connection \<Rightarrow> bool" where
  "conn_snd_ok W c \<longleftrightarrow>
     snd_inv W (tc_sender c) \<and>
     (\<forall>seg \<in> set (tc_segments_out c). out_ok W (snd_isn (tc_sender c)) (snd_next_seqno (tc_sender c)) seg) \<and>
     (rcv_set_syn (tc_receiver c) \<longrightarrow> snd_set_syn (tc_sender c))"

lemma snd_inv_out: "snd_inv W s \<Longrightarrow> seg \<in> set (snd_segments_out s) \<Longrightarrow> out_ok W (snd_isn s) (snd_next_seqno s) seg"
  unfolding snd_inv_def by blast

lemma snd_inv_syn: "snd_inv W s \<Longrightarrow> snd_next_seqno s \<noteq> 0 \<Longrightarrow> snd_set_syn s"
  unfolding snd_inv_def by blast

lemma conn_snd_ok_send:
  assumes "conn_snd_ok W c" and "snd_after W (tc_sender c) (tc_sender d)" and "tc_segments_out d = tc_segments_out c"
    and "rcv_set_syn (tc_receiver d) \<longrightarrow> snd_set_syn (tc_sender d)"
  shows "conn_snd_ok W (segment_assemble_send d)"
proof -
  have "snd_inv W ((tc_sender d)\<lparr>snd_segments_out := []\<rparr>)" using assms(2) pop_out_snd_inv by (simp add: snd_after_def)
  moreover have "out_ok W (snd_isn (tc_sender d)) (snd_next_seqno (tc_sender d)) seg"
    if "seg \<in> set (tc_segments_out c) \<union> set (snd_segments_out (tc_sender d))" for seg
  proof (cases "seg \<in> set (tc_segments_out c)")
    case True
    then have "out_ok W (snd_isn (tc_sender c)) (snd_next_seqno (tc_sender c)) seg" using assms(1) by (simp add: conn_snd_ok_def)
    then show ?thesis using assms(2) out_ok_mono by (auto simp: snd_after_def)
  next
    case False
    then show ?thesis using that assms(2) snd_inv_out [of W "tc_sender d" seg] by (simp add: snd_after_def)
  qed
  ultimately show ?thesis using assms(3,4) unfolding conn_snd_ok_def by auto
qed

lemma conn_segment_received_phases:
  assumes "active c" and "\<not> th_rst (ts_header seg)" and "segment_received (tc_receiver c) seg = Inr r"
  shows "conn_segment_received c seg =
    (let c1 = recv_ack (c\<lparr>tc_time_since_last_segment_received := 0, tc_receiver := r\<rparr>) seg in
     if th_syn (ts_header seg) \<and> snd_next_seqno (tc_sender c1) = 0 then Inr (connect c1)
     else Inr (segment_assemble_send (recv_reply (recv_keep_alive (recv_linger c1) seg) seg)))"
  using assms by (simp add: conn_segment_received_def Let_def)

lemma recv_phase_fields [simp]:
  "tc_receiver (recv_ack c seg) = tc_receiver c" "tc_receiver (recv_linger c) = tc_receiver c"
  "tc_receiver (recv_keep_alive c seg) = tc_receiver c" "tc_receiver (recv_reply c seg) = tc_receiver c"
  "tc_segments_out (recv_ack c seg) = tc_segments_out c" "tc_segments_out (recv_linger c) = tc_segments_out c"
  "tc_segments_out (recv_keep_alive c seg) = tc_segments_out c" "tc_segments_out (recv_reply c seg) = tc_segments_out c"
  "tc_is_active (recv_ack c seg) = tc_is_active c" "tc_is_active (recv_linger c) = tc_is_active c"
  "tc_is_active (recv_keep_alive c seg) = tc_is_active c" "tc_is_active (recv_reply c seg) = tc_is_active c"
  "tc_sender (recv_linger c) = tc_sender c"
  by (simp_all add: recv_ack_def recv_linger_def recv_keep_alive_def recv_reply_def)

lemma recv_phase_after:
  "snd_inv W (tc_sender c) \<Longrightarrow> snd_after W (tc_sender c) (tc_sender (recv_ack c seg))"
  "snd_inv W (tc_sender c) \<Longrightarrow> (rcv_set_syn (tc_receiver c) \<longrightarrow> snd_set_syn (tc_sender c)) \<Longrightarrow>
     snd_after W (tc_sender c) (tc_sender (recv_keep_alive c seg))"
  "snd_inv W (tc_sender c) \<Longrightarrow> snd_after W (tc_sender c) (tc_sender (recv_reply c seg))"
proof -
  assume inv: "snd_inv W (tc_sender c)"
  show "snd_after W (tc_sender c) (tc_sender (recv_ack c seg))"
    using snd_after_ack [OF inv] snd_after_refl [OF inv] by (simp add: recv_ack_def)
  note f = snd_after_fill [OF inv] fill_window_syn [OF inv]
  have "snd_after W (fill_window (tc_sender c)) (send_empty_segment (fill_window (tc_sender c)))"
    using f by (intro snd_after_empty) (simp_all add: snd_after_def)
  from snd_after_trans [OF f(1) this] show "snd_after W (tc_sender c) (tc_sender (recv_reply c seg))"
    using f(1) snd_after_refl [OF inv] by (simp add: recv_reply_def)
  assume "rcv_set_syn (tc_receiver c) \<longrightarrow> snd_set_syn (tc_sender c)"
  moreover have "rcv_set_syn (tc_receiver c)" if "receiver_ackno (tc_receiver c) \<noteq> None"
    using that by (auto simp: receiver_ackno_def split: if_splits)
  ultimately show "snd_after W (tc_sender c) (tc_sender (recv_keep_alive c seg))"
    using snd_after_empty [OF inv] snd_after_refl [OF inv] by (auto simp: recv_keep_alive_def)
qed

lemma conn_recv_step:
  assumes ok: "conn_snd_ok W c" and act: "active c" and rst: "\<not> th_rst (ts_header seg)"
    and r: "segment_received (tc_receiver c) seg = Inr r" "rcv_set_syn r \<longrightarrow> rcv_set_syn (tc_receiver c) \<or> th_syn (ts_header seg)"
  shows "\<exists>c'. conn_segment_received c seg = Inr c' \<and> tc_receiver c' = r \<and> conn_snd_ok W c' \<and> active c' \<and>
    snd_after W (tc_sender c) (tc_sender c')"
proof -
  define c1 where "c1 = recv_ack (c\<lparr>tc_time_since_last_segment_received := 0, tc_receiver := r\<rparr>) seg"
  have inv: "snd_inv W (tc_sender c)" using ok by (simp add: conn_snd_ok_def)
  have f1: "tc_receiver c1 = r" "tc_segments_out c1 = tc_segments_out c" "tc_is_active c1" using act by (simp_all add: c1_def active_def)
  have a1: "snd_after W (tc_sender c) (tc_sender c1)"
    using recv_phase_after(1) [of W "c\<lparr>tc_time_since_last_segment_received := 0, tc_receiver := r\<rparr>" seg] inv by (simp add: c1_def)
  then have inv1: "snd_inv W (tc_sender c1)" by (simp add: snd_after_def)
  note step = conn_segment_received_phases [OF act rst r(1), folded c1_def, unfolded Let_def]
  show ?thesis
  proof (cases "th_syn (ts_header seg) \<and> snd_next_seqno (tc_sender c1) = 0")
    case True
    let ?d = "c1\<lparr>tc_sender := fill_window (tc_sender c1)\<rparr>"
    have a2: "snd_after W (tc_sender c) (tc_sender ?d)" using snd_after_trans [OF a1 snd_after_fill [OF inv1]] by simp
    have "conn_snd_ok W (segment_assemble_send ?d)"
      by (rule conn_snd_ok_send [OF ok a2]) (simp_all add: f1 fill_window_syn [OF inv1])
    moreover have "snd_after W (tc_sender c) (tc_sender (segment_assemble_send ?d))"
      using snd_after_trans [OF a2 snd_after_clear] a2 by (simp add: snd_after_def)
    ultimately show ?thesis using step True f1 by (simp add: connect_def active_def)
  next
    case False
    let ?c3 = "recv_keep_alive (recv_linger c1) seg"
    let ?c4 = "recv_reply ?c3 seg"
    have syn: "rcv_set_syn r \<longrightarrow> snd_set_syn (tc_sender c1)"
      using r(2) False ok a1 snd_flags_mono(1) [OF inv inv1] snd_inv_syn [OF inv1]
      by (auto simp: conn_snd_ok_def snd_after_def)
    have a3: "snd_after W (tc_sender c1) (tc_sender ?c3)"
      using recv_phase_after(2) [of W "recv_linger c1" seg] inv1 syn by (simp add: f1)
    then have inv3: "snd_inv W (tc_sender ?c3)" by (simp add: snd_after_def)
    have a4: "snd_after W (tc_sender c1) (tc_sender ?c4)" by (rule snd_after_trans [OF a3 recv_phase_after(3) [OF inv3]])
    have a5: "snd_after W (tc_sender c) (tc_sender ?c4)" by (rule snd_after_trans [OF a1 a4])
    have "rcv_set_syn r \<longrightarrow> snd_set_syn (tc_sender ?c4)"
      using syn snd_flags_mono(1) [OF inv1, of "tc_sender ?c4"] a4 by (auto simp: snd_after_def)
    then have "conn_snd_ok W (segment_assemble_send ?c4)"
      by (intro conn_snd_ok_send [OF ok a5]) (simp_all add: f1)
    moreover have "snd_after W (tc_sender c) (tc_sender (segment_assemble_send ?c4))"
      using snd_after_trans [OF a5 snd_after_clear] a5 by (simp add: snd_after_def)
    moreover have "conn_segment_received c seg = Inr (segment_assemble_send ?c4)" using step False by auto
    ultimately show ?thesis using f1 by (simp add: active_def)
  qed
qed

end
