(* ===== verification/TCP_Network.thy ===== *)
theory TCP_Network
  imports TCP_Connection
begin

text \<open>
  Two TCP connections and a network between them that loses, duplicates, delays and reorders segments. An
  endpoint is a connection with what its application has written and read; the theorem is that each
  application reads what the other one wrote.
\<close>

section \<open>An endpoint and its user\<close>

text \<open>
  The calls of the owner of a connection: the application, the timer and the network. With the connection go
  what the application has written and read so far and the segments taken from the outbound queue.
\<close>

datatype conn_op =
    Op_connect
  | Op_write "byte list"
  | Op_end
  | Op_tick u64
  | Op_read nat
  | Op_recv TCPSegment
  | Op_pop
  | Op_destroy

record endpoint =
  ep_conn :: tcp_connection
  ep_written :: "byte list"
  ep_read :: "byte list"
  ep_sent :: "TCPSegment list"

definition read_inbound :: "tcp_connection \<Rightarrow> nat \<Rightarrow> tcp_connection \<times> byte list" where
  "read_inbound c n =
     (let (out, bytes) = bs_read (inbound_stream c) n;
          r = tc_receiver c
      in (c\<lparr>tc_receiver := r\<lparr>rcv_reassembler := (rcv_reassembler r)\<lparr>sr_output := out\<rparr>\<rparr>\<rparr>, bytes))"

fun ep_step :: "endpoint \<Rightarrow> conn_op \<Rightarrow> endpoint res" where
  "ep_step e Op_connect = Inr (e\<lparr>ep_conn := connect (ep_conn e)\<rparr>)"
| "ep_step e (Op_write data) =
     (let (c, n) = conn_write (ep_conn e) data in Inr (e\<lparr>ep_conn := c, ep_written := ep_written e @ take n data\<rparr>))"
| "ep_step e Op_end = Inr (e\<lparr>ep_conn := end_input_stream (ep_conn e)\<rparr>)"
| "ep_step e (Op_tick ms) = Inr (e\<lparr>ep_conn := conn_tick (ep_conn e) ms\<rparr>)"
| "ep_step e (Op_read n) =
     (let (c, bytes) = read_inbound (ep_conn e) n in Inr (e\<lparr>ep_conn := c, ep_read := ep_read e @ bytes\<rparr>))"
| "ep_step e (Op_recv seg) = bind_res (conn_segment_received (ep_conn e) seg) (\<lambda>c. Inr (e\<lparr>ep_conn := c\<rparr>))"
| "ep_step e Op_pop =
     (case tc_segments_out (ep_conn e) of
        [] \<Rightarrow> Inr e
      | seg # q \<Rightarrow> Inr (e\<lparr>ep_conn := (ep_conn e)\<lparr>tc_segments_out := q\<rparr>, ep_sent := ep_sent e @ [seg]\<rparr>))"
| "ep_step e Op_destroy = Inr (e\<lparr>ep_conn := conn_destructor (ep_conn e)\<rparr>)"

definition ep_snd_ok :: "endpoint \<Rightarrow> bool" where
  "ep_snd_ok e \<longleftrightarrow>
     conn_snd_ok (ep_written e) (ep_conn e) \<and>
     (\<forall>seg \<in> set (ep_sent e).
        out_ok (ep_written e) (snd_isn (tc_sender (ep_conn e))) (snd_next_seqno (tc_sender (ep_conn e))) seg)"

text \<open>How an endpoint may go on: what it has written is extended, but not after its FIN.\<close>

definition ep_after :: "endpoint \<Rightarrow> endpoint \<Rightarrow> bool" where
  "ep_after e e' \<longleftrightarrow>
     snd_isn (tc_sender (ep_conn e')) = snd_isn (tc_sender (ep_conn e)) \<and>
     (snd_set_fin (tc_sender (ep_conn e)) \<longrightarrow> snd_set_fin (tc_sender (ep_conn e'))) \<and>
     (\<exists>X. ep_written e' = ep_written e @ X \<and> (snd_set_fin (tc_sender (ep_conn e)) \<longrightarrow> X = []))"

lemma snd_inv_no_fin_next: "snd_inv W s \<Longrightarrow> \<not> snd_set_fin s \<Longrightarrow> snd_next_seqno s \<le> length W + 1"
  using snd_inv_stream(3) [of W s] by (auto simp: snd_inv_def)

lemma ep_snd_okI:
  assumes "ep_snd_ok e" and "conn_snd_ok (ep_written e) c" and "snd_after (ep_written e) (tc_sender (ep_conn e)) (tc_sender c)"
  shows "ep_snd_ok (e\<lparr>ep_conn := c\<rparr>) \<and> ep_after e (e\<lparr>ep_conn := c\<rparr>)"
proof -
  have "snd_inv (ep_written e) (tc_sender (ep_conn e))" using assms(1) by (simp add: ep_snd_ok_def conn_snd_ok_def)
  then have "snd_set_fin (tc_sender (ep_conn e)) \<longrightarrow> snd_set_fin (tc_sender c)"
    using snd_flags_mono(2) [of "ep_written e" "tc_sender (ep_conn e)" "tc_sender c"] assms(3) by (simp add: snd_after_def)
  then show ?thesis
    using assms out_ok_mono by (auto simp: ep_snd_ok_def ep_after_def snd_after_def)
qed

lemma set_shutdown_fields [simp]:
  "tc_segments_out (set_shutdown c b) = tc_segments_out c" "tc_is_active (set_shutdown c b) = False"
  "tc_sender (set_shutdown c True) = tc_sender c" "tc_receiver (set_shutdown c True) = tc_receiver c"
  "tc_sender (set_shutdown c False) = (tc_sender c)\<lparr>snd_stream := set_error (snd_stream (tc_sender c))\<rparr>"
  "tc_receiver (set_shutdown c False) = set_receiver_error (tc_receiver c)"
  "tc_cfg (set_shutdown c b) = tc_cfg c" "tc_linger_after_streams_finish (set_shutdown c b) = tc_linger_after_streams_finish c"
  by (simp_all add: set_shutdown_def Let_def)

lemma set_receiver_error_fields [simp]:
  "rcv_set_syn (set_receiver_error r) = rcv_set_syn r" "rcv_isn (set_receiver_error r) = rcv_isn r"
  "stream_out (set_receiver_error r) = set_error (stream_out r)"
  "set_receiver_error (set_receiver_error r) = set_receiver_error r"
  by (simp_all add: set_receiver_error_def stream_out_def set_error_def)

text \<open>A step of the connection that works on the sender and sends what it queued.\<close>

lemma conn_snd_ok_assemble:
  assumes "conn_snd_ok W c" and "snd_after W (tc_sender c) (tc_sender d)" and "tc_segments_out d = tc_segments_out c"
    and "rcv_set_syn (tc_receiver d) = rcv_set_syn (tc_receiver c)"
  shows "conn_snd_ok W (segment_assemble_send d) \<and> snd_after W (tc_sender c) (tc_sender (segment_assemble_send d))"
proof -
  have inv: "snd_inv W (tc_sender c)" "snd_inv W (tc_sender d)" using assms(1,2) by (simp_all add: conn_snd_ok_def snd_after_def)
  have "rcv_set_syn (tc_receiver d) \<longrightarrow> snd_set_syn (tc_sender d)"
    using assms snd_flags_mono(1) [OF inv] by (auto simp: conn_snd_ok_def snd_after_def)
  from conn_snd_ok_send [OF assms(1-3) this] show ?thesis
    using snd_after_trans [OF assms(2) snd_after_clear [OF inv(2)]] by simp
qed

lemma shutdown_snd_ok:
  assumes "conn_snd_ok W c"
  shows "conn_snd_ok W (set_shutdown c b) \<and> snd_after W (tc_sender c) (tc_sender (set_shutdown c b))"
  using assms snd_after_error [of W "tc_sender c"] snd_after_refl [of W "tc_sender c"]
  by (cases b) (auto simp: conn_snd_ok_def snd_after_def)

lemma rst_snd_ok:
  assumes "conn_snd_ok W c"
  shows "conn_snd_ok W (send_rst_segment c) \<and> snd_after W (tc_sender c) (tc_sender (send_rst_segment c))"
  using assms snd_after_rst [of W "tc_sender c"] unfolding send_rst_segment_def
  by (intro conn_snd_ok_assemble) (simp_all add: conn_snd_ok_def)

lemma abort_snd_ok:
  assumes "conn_snd_ok W c"
  shows "conn_snd_ok W (send_rst_segment (set_shutdown c False)) \<and>
    snd_after W (tc_sender c) (tc_sender (send_rst_segment (set_shutdown c False)))"
  using shutdown_snd_ok [OF assms, of False] rst_snd_ok [of W "set_shutdown c False"] snd_after_trans by blast

lemma conn_tick_snd_ok:
  assumes ok: "conn_snd_ok W c"
  shows "conn_snd_ok W (conn_tick c ms) \<and> snd_after W (tc_sender c) (tc_sender (conn_tick c ms))"
proof -
  define c1 where "c1 = c\<lparr>tc_sender := sender_tick (tc_sender c) ms,
    tc_time_since_last_segment_received := add64 (tc_time_since_last_segment_received c) ms\<rparr>"
  have inv: "snd_inv W (tc_sender c)" using ok by (simp add: conn_snd_ok_def)
  have a1: "snd_after W (tc_sender c) (tc_sender c1)" using snd_after_tick [OF inv] by (simp add: c1_def)
  then have inv1: "snd_inv W (tc_sender c1)" by (simp add: snd_after_def)
  let ?d = "c1\<lparr>tc_sender := (tc_sender c1)\<lparr>snd_segments_out := []\<rparr>\<rparr>" and ?e = "segment_assemble_send c1"
  have a2: "snd_after W (tc_sender c) (tc_sender ?d)" using snd_after_trans [OF a1 snd_after_clear [OF inv1]] by simp
  have e: "conn_snd_ok W ?e \<and> snd_after W (tc_sender c) (tc_sender ?e)"
    by (rule conn_snd_ok_assemble [OF ok a1]) (simp_all add: c1_def)
  have "?d = ?e\<lparr>tc_segments_out := tc_segments_out c\<rparr>" by (simp add: c1_def segment_assemble_send_def)
  then have d: "conn_snd_ok W ?d"
    using conjunct1 [OF e] by (auto simp: conn_snd_ok_def c1_def)
  have "conn_tick c ms = send_rst_segment (set_shutdown ?d False) \<or> conn_tick c ms = ?e \<or> conn_tick c ms = set_shutdown ?e True"
    unfolding conn_tick_def c1_def Let_def by (simp split: if_split)
  then show ?thesis
    using e abort_snd_ok [OF d] a2 shutdown_snd_ok [of W ?e True] snd_after_trans by metis
qed

lemma out_ok_write:
  assumes "snd_inv W s" and "snd_set_fin s \<longrightarrow> X = []" and "out_ok W isn (snd_next_seqno s) seg"
  shows "out_ok (W @ X) isn (snd_next_seqno s) seg"
  using assms out_ok_extend snd_inv_no_fin_next [OF assms(1)] by (cases "snd_set_fin s") auto

lemma conn_write_snd_ok:
  assumes ok: "conn_snd_ok W c" and len: "length W + length data + 2 ^ 32 < 2 ^ 64" and w: "conn_write c data = (c', n)"
  shows "conn_snd_ok (W @ take n data) c' \<and> snd_isn (tc_sender c') = snd_isn (tc_sender c) \<and>
    snd_next_seqno (tc_sender c) \<le> snd_next_seqno (tc_sender c') \<and>
    (snd_set_fin (tc_sender c) \<longrightarrow> take n data = [] \<and> snd_set_fin (tc_sender c'))"
proof -
  let ?s = "tc_sender c"
  let ?st = "fst (bs_write (snd_stream ?s) data)" and ?W = "W @ take n data"
  let ?c = "c\<lparr>tc_sender := ?s\<lparr>snd_stream := ?st\<rparr>\<rparr>"
  have n: "n = snd (bs_write (snd_stream ?s) data)"
    and c': "c' = segment_assemble_send (?c\<lparr>tc_sender := fill_window (tc_sender ?c)\<rparr>)"
    using w by (simp_all add: conn_write_def case_prod_beta)
  have inv: "snd_inv W ?s" using ok by (simp add: conn_snd_ok_def)
  have inv': "snd_inv ?W (tc_sender ?c)" using stream_write_inv [OF inv len] by (simp add: n)
  have fin: "take n data = []" if "snd_set_fin ?s"
  proof -
    have "input_ended (snd_stream ?s)" using inv that by (simp add: snd_inv_def)
    then show ?thesis by (simp add: n bs_write_def)
  qed
  have "out_ok ?W (snd_isn ?s) (snd_next_seqno ?s) seg" if "seg \<in> set (tc_segments_out c)" for seg
    by (rule out_ok_write [OF inv impI [OF fin]]) (use that ok in \<open>simp_all add: conn_snd_ok_def\<close>)
  then have ok': "conn_snd_ok ?W ?c" using ok inv' by (simp add: conn_snd_ok_def)
  have "conn_snd_ok ?W c' \<and> snd_after ?W (tc_sender ?c) (tc_sender c')"
    unfolding c' by (rule conn_snd_ok_assemble [OF ok']) (use snd_after_fill [OF inv'] in simp_all)
  moreover from this have "snd_set_fin ?s \<longrightarrow> snd_set_fin (tc_sender c')"
    using snd_flags_mono(2) [OF inv', of "tc_sender c'"] by (simp add: snd_after_def conn_snd_ok_def)
  ultimately show ?thesis using fin by (simp add: snd_after_def)
qed

definition op_written :: "conn_op \<Rightarrow> nat" where
  "op_written x = (case x of Op_write data \<Rightarrow> length data | _ \<Rightarrow> 0)"

text \<open>Everything but the arrival of a segment.\<close>

lemma ep_step_snd:
  assumes ok: "ep_snd_ok e" and x: "\<And>seg. x \<noteq> Op_recv seg" and len: "length (ep_written e) + op_written x + 2 ^ 32 < 2 ^ 64"
  shows "\<exists>e'. ep_step e x = Inr e' \<and> ep_snd_ok e' \<and> ep_after e e'"
proof -
  let ?c = "ep_conn e" and ?W = "ep_written e"
  have cok: "conn_snd_ok ?W ?c" and inv: "snd_inv ?W (tc_sender ?c)" using ok by (simp_all add: ep_snd_ok_def conn_snd_ok_def)
  show ?thesis
  proof (cases x)
    case Op_connect
    have "conn_snd_ok ?W (connect ?c) \<and> snd_after ?W (tc_sender ?c) (tc_sender (connect ?c))"
      unfolding connect_def by (rule conn_snd_ok_assemble [OF cok]) (use snd_after_fill [OF inv] in simp_all)
    then show ?thesis using ep_snd_okI [OF ok] Op_connect by simp
  next
    case (Op_write data)
    obtain c' n where w: "conn_write ?c data = (c', n)" by fastforce
    note r = conn_write_snd_ok [OF cok _ w]
    have "conn_snd_ok (?W @ take n data) c'" "snd_isn (tc_sender c') = snd_isn (tc_sender ?c)"
      "snd_next_seqno (tc_sender ?c) \<le> snd_next_seqno (tc_sender c')"
      "snd_set_fin (tc_sender ?c) \<longrightarrow> take n data = [] \<and> snd_set_fin (tc_sender c')"
      using r len Op_write by (simp_all add: op_written_def)
    moreover have "out_ok (?W @ take n data) (snd_isn (tc_sender ?c)) (snd_next_seqno (tc_sender c')) seg"
      if "seg \<in> set (ep_sent e)" for seg
    proof (rule out_ok_mono [OF _ calculation(3)], rule out_ok_write [OF inv])
      show "out_ok ?W (snd_isn (tc_sender ?c)) (snd_next_seqno (tc_sender ?c)) seg" using that ok by (simp add: ep_snd_ok_def)
    qed (use calculation(4) in blast)
    ultimately show ?thesis using Op_write w by (auto simp: ep_snd_ok_def ep_after_def)
  next
    case Op_end
    let ?d = "?c\<lparr>tc_sender := (tc_sender ?c)\<lparr>snd_stream := end_input (snd_stream (tc_sender ?c))\<rparr>\<rparr>"
    have inv': "snd_inv ?W (tc_sender ?d)" using end_input_snd_inv [OF inv] by simp
    then have "snd_after ?W (tc_sender ?c) (tc_sender ?d)" by (simp add: snd_after_def)
    then have a: "snd_after ?W (tc_sender ?c) (fill_window (tc_sender ?d))"
      using snd_after_trans snd_after_fill [OF inv'] by blast
    have "conn_snd_ok ?W (end_input_stream ?c) \<and> snd_after ?W (tc_sender ?c) (tc_sender (end_input_stream ?c))"
      unfolding end_input_stream_def Let_def by (rule conn_snd_ok_assemble [OF cok]) (use a in simp_all)
    then show ?thesis using ep_snd_okI [OF ok] Op_end by simp
  next
    case (Op_tick ms)
    then show ?thesis using ep_snd_okI [OF ok] conn_tick_snd_ok [OF cok, of ms] by simp
  next
    case (Op_read n)
    then show ?thesis
      using ok by (auto simp: read_inbound_def Let_def case_prod_beta ep_snd_ok_def conn_snd_ok_def ep_after_def)
  next
    case (Op_recv seg)
    then show ?thesis using x by simp
  next
    case Op_pop
    then show ?thesis
      using ok by (auto simp: ep_snd_ok_def conn_snd_ok_def ep_after_def split: list.split)
  next
    case Op_destroy
    have "conn_snd_ok ?W (conn_destructor ?c) \<and> snd_after ?W (tc_sender ?c) (tc_sender (conn_destructor ?c))"
      using abort_snd_ok [OF cok] cok snd_after_refl [OF inv] by (simp add: conn_destructor_def)
    then show ?thesis using ep_snd_okI [OF ok] Op_destroy by simp
  qed
qed

section \<open>The receiving side\<close>

text \<open>
  The receiver of a connection is in a good state for the peer's stream; after a reset its stream carries the
  error mark besides.
\<close>

definition rcv_like :: "tcp_connection \<Rightarrow> tcp_receiver \<Rightarrow> bool" where
  "rcv_like c r \<longleftrightarrow> tc_receiver c = r \<or> \<not> active c \<and> tc_receiver c = set_receiver_error r"

lemma rcv_like_shutdown: "rcv_like c r \<Longrightarrow> rcv_like (set_shutdown c b) r"
  by (cases b) (auto simp: rcv_like_def active_def)

lemma rcv_like_same: "rcv_like c r \<Longrightarrow> tc_receiver d = tc_receiver c \<Longrightarrow> active c = active d \<Longrightarrow> rcv_like d r"
  by (simp add: rcv_like_def)

lemma rcv_like_tick: "rcv_like c r \<Longrightarrow> rcv_like (conn_tick c ms) r"
proof -
  assume c: "rcv_like c r"
  define c1 where "c1 = c\<lparr>tc_sender := sender_tick (tc_sender c) ms,
    tc_time_since_last_segment_received := add64 (tc_time_since_last_segment_received c) ms\<rparr>"
  let ?d = "c1\<lparr>tc_sender := (tc_sender c1)\<lparr>snd_segments_out := []\<rparr>\<rparr>" and ?e = "segment_assemble_send c1"
  have "conn_tick c ms = send_rst_segment (set_shutdown ?d False) \<or> conn_tick c ms = ?e \<or> conn_tick c ms = set_shutdown ?e True"
    unfolding conn_tick_def c1_def Let_def by (simp split: if_split)
  moreover have "rcv_like ?e r" "rcv_like ?d r" by (rule rcv_like_same [OF c]; simp add: c1_def active_def)+
  moreover have "rcv_like (send_rst_segment (set_shutdown ?d False)) r"
    by (rule rcv_like_same [OF rcv_like_shutdown [OF \<open>rcv_like ?d r\<close>, of False]]) (simp_all add: send_rst_segment_def active_def)
  ultimately show ?thesis using rcv_like_shutdown by metis
qed

lemma ep_step_rcv:
  assumes r: "rcv_like (ep_conn e) r" and x: "\<And>seg. x \<noteq> Op_recv seg" "\<And>n. x \<noteq> Op_read n" and e': "ep_step e x = Inr e'"
  shows "rcv_like (ep_conn e') r \<and> ep_read e' = ep_read e"
proof (cases x)
  case (Op_write data)
  then show ?thesis
    using r e' by (auto simp: conn_write_def case_prod_beta rcv_like_def active_def)
next
  case (Op_tick ms)
  then show ?thesis using rcv_like_tick [OF r] e' by auto
next
  case Op_destroy
  have "rcv_like (conn_destructor (ep_conn e)) r"
  proof (cases "active (ep_conn e)")
    case True
    have "rcv_like (send_rst_segment (set_shutdown (ep_conn e) False)) r"
      by (rule rcv_like_same [OF rcv_like_shutdown [OF r, of False]]) (simp_all add: send_rst_segment_def active_def)
    then show ?thesis using True by (simp add: conn_destructor_def)
  qed (use r in \<open>simp add: conn_destructor_def\<close>)
  then show ?thesis using Op_destroy e' by auto
qed (use r x e' in \<open>auto simp: connect_def end_input_stream_def Let_def rcv_like_def active_def split: list.splits\<close>)

lemma bs_read_set_error:
  "bs_read (set_error s) n = (let (out, bytes) = bs_read s n in (set_error out, bytes))"
  by (simp add: bs_read_eq set_error_def pop_output_def Let_def)

lemma ep_step_read:
  assumes r: "rcv_like (ep_conn e) r" and e': "ep_step e (Op_read n) = Inr e'"
  shows "\<exists>r' bytes. ep_read e' = ep_read e @ bytes \<and> rcv_like (ep_conn e') r' \<and>
    (\<forall>S isn d. rcv_state S isn (r, d) \<longrightarrow> rcv_state S isn (r', d @ bytes))"
proof -
  obtain out bytes where b: "bs_read (stream_out r) n = (out, bytes)" by fastforce
  let ?r = "r\<lparr>rcv_reassembler := (rcv_reassembler r)\<lparr>sr_output := out\<rparr>\<rparr>"
  have "\<forall>S isn d. rcv_state S isn (r, d) \<longrightarrow> rcv_state S isn (?r, d @ bytes)" using rcv_state_read b by blast
  moreover have "ep_read e' = ep_read e @ bytes \<and> rcv_like (ep_conn e') ?r"
    using r
  proof (unfold rcv_like_def, elim disjE)
    assume "tc_receiver (ep_conn e) = r"
    then show "ep_read e' = ep_read e @ bytes \<and> (tc_receiver (ep_conn e') = ?r \<or>
      \<not> active (ep_conn e') \<and> tc_receiver (ep_conn e') = set_receiver_error ?r)"
      using e' b by (auto simp: read_inbound_def inbound_stream_def)
  next
    assume "\<not> active (ep_conn e) \<and> tc_receiver (ep_conn e) = set_receiver_error r"
    then show "ep_read e' = ep_read e @ bytes \<and> (tc_receiver (ep_conn e') = ?r \<or>
      \<not> active (ep_conn e') \<and> tc_receiver (ep_conn e') = set_receiver_error ?r)"
      using e' [symmetric] b
      by (simp add: read_inbound_def inbound_stream_def bs_read_set_error active_def) (simp add: set_receiver_error_def)
  qed
  ultimately show ?thesis by blast
qed

section \<open>Two endpoints\<close>

text \<open>
  The acknowledgment number a connection would send, as an absolute sequence number of the peer's stream.
\<close>

definition ack_pos :: "tcp_connection \<Rightarrow> nat" where
  "ack_pos c = bytes_written (inbound_stream c) + (if input_ended (inbound_stream c) then 2 else 1)"

text \<open>
  A segment in the network is near the receiver when it stands for a part of the peer's stream within \<open>2 ^ 31\<close> of
  the receiver's position and acknowledges something within \<open>2 ^ 31\<close> of what was acknowledged: the network
  does not keep segments long enough for sequence numbers to come around. A reset is always near.
\<close>

definition near_ack :: "endpoint \<Rightarrow> endpoint \<Rightarrow> TCPSegment \<Rightarrow> bool" where
  "near_ack e peer seg \<longleftrightarrow>
     (\<exists>n. th_ackno (ts_header seg) = wrap n (snd_isn (tc_sender (ep_conn e))) \<and> n \<le> ack_pos (ep_conn peer) \<and>
        n < snd_recv_ackno (tc_sender (ep_conn e)) + 2 ^ 31 \<and> snd_recv_ackno (tc_sender (ep_conn e)) < n + 2 ^ 31)"

definition near_peer :: "endpoint \<Rightarrow> endpoint \<Rightarrow> TCPSegment \<Rightarrow> bool" where
  "near_peer e peer seg \<longleftrightarrow>
     th_rst (ts_header seg) \<or>
     (\<exists>a. seg_at (ep_written peer) (snd_isn (tc_sender (ep_conn peer))) seg a \<and>
        a + length_in_sequence_space seg \<le> snd_next_seqno (tc_sender (ep_conn peer)) \<and>
        seg_near (tc_receiver (ep_conn e)) a) \<and>
     (th_ack (ts_header seg) \<longrightarrow> near_ack e peer seg)"

inductive half_step :: "endpoint \<Rightarrow> endpoint \<Rightarrow> endpoint \<Rightarrow> bool" for peer where
  local: "(\<And>seg. x \<noteq> Op_recv seg) \<Longrightarrow> length (ep_written e) + op_written x < 2 ^ 62 \<Longrightarrow> ep_step e x = Inr e' \<Longrightarrow>
    half_step peer e e'"
| arrives: "seg \<in> set (ep_sent peer) \<Longrightarrow> near_peer e peer seg \<Longrightarrow> ep_step e (Op_recv seg) = Inr e' \<Longrightarrow>
    half_step peer e e'"

inductive net_step :: "endpoint \<times> endpoint \<Rightarrow> endpoint \<times> endpoint \<Rightarrow> bool" where
  left: "half_step b a a' \<Longrightarrow> net_step (a, b) (a', b)"
| right: "half_step a b b' \<Longrightarrow> net_step (a, b) (a, b')"

definition new_endpoint :: "TCPConfig \<Rightarrow> u32 \<Rightarrow> endpoint" where
  "new_endpoint cfg random = \<lparr>ep_conn = TCPConnection cfg random, ep_written = [], ep_read = [], ep_sent = []\<rparr>"

text \<open>
  The invariant of one direction. What the receiver may still be told about the stream is any extension of what
  was written, none after the FIN; the receiver is in a good state for all of them.
\<close>

definition link_ok :: "endpoint \<Rightarrow> endpoint \<Rightarrow> bool" where
  "link_ok a b \<longleftrightarrow>
     (\<exists>r. rcv_like (ep_conn b) r \<and>
        (\<forall>X. (snd_set_fin (tc_sender (ep_conn a)) \<longrightarrow> X = []) \<and> length (ep_written a @ X) < 2 ^ 63 \<longrightarrow>
           rcv_state (ep_written a @ X) (snd_isn (tc_sender (ep_conn a))) (r, ep_read b)))"

definition net_ok :: "endpoint \<times> endpoint \<Rightarrow> bool" where
  "net_ok x \<longleftrightarrow>
     (case x of (a, b) \<Rightarrow>
        ep_snd_ok a \<and> ep_snd_ok b \<and> link_ok a b \<and> link_ok b a \<and>
        length (ep_written a) < 2 ^ 62 \<and> length (ep_written b) < 2 ^ 62)"

lemma link_ok_sender:
  assumes "link_ok a b" and "ep_after a a'"
  shows "link_ok a' b"
proof -
  let ?s = "tc_sender (ep_conn a)" and ?s' = "tc_sender (ep_conn a')"
  obtain r where r: "rcv_like (ep_conn b) r"
    "\<And>X. (snd_set_fin ?s \<longrightarrow> X = []) \<Longrightarrow> length (ep_written a @ X) < 2 ^ 63 \<Longrightarrow>
       rcv_state (ep_written a @ X) (snd_isn ?s) (r, ep_read b)"
    using assms(1) unfolding link_ok_def by blast
  obtain Y where Y: "ep_written a' = ep_written a @ Y" "snd_set_fin ?s \<longrightarrow> Y = []" and isn: "snd_isn ?s' = snd_isn ?s"
    and fin: "snd_set_fin ?s \<longrightarrow> snd_set_fin ?s'"
    using assms(2) by (auto simp: ep_after_def)
  have "rcv_state (ep_written a' @ X) (snd_isn ?s') (r, ep_read b)"
    if "(snd_set_fin ?s' \<longrightarrow> X = []) \<and> length (ep_written a' @ X) < 2 ^ 63" for X
    using r(2) [of "Y @ X"] that Y isn fin by simp
  then show ?thesis using r(1) unfolding link_ok_def by blast
qed

lemma link_ok_local:
  assumes "link_ok a b" and "\<And>seg. x \<noteq> Op_recv seg" and "ep_step b x = Inr b'"
  shows "link_ok a b'"
proof -
  obtain r where r: "rcv_like (ep_conn b) r"
    "\<forall>X. (snd_set_fin (tc_sender (ep_conn a)) \<longrightarrow> X = []) \<and> length (ep_written a @ X) < 2 ^ 63 \<longrightarrow>
       rcv_state (ep_written a @ X) (snd_isn (tc_sender (ep_conn a))) (r, ep_read b)"
    using assms(1) unfolding link_ok_def by blast
  show ?thesis
  proof (cases "\<exists>n. x = Op_read n")
    case True
    then obtain n where "ep_step b (Op_read n) = Inr b'" using assms(3) by auto
    from ep_step_read [OF r(1) this] show ?thesis using r(2) unfolding link_ok_def by metis
  next
    case False
    then have "rcv_like (ep_conn b') r \<and> ep_read b' = ep_read b" using ep_step_rcv [OF r(1) assms(2) _ assms(3)] by blast
    then show ?thesis using r(2) unfolding link_ok_def by metis
  qed
qed

lemma link_ok_conn:
  assumes "link_ok a b" and "\<And>r. rcv_like (ep_conn b) r \<Longrightarrow> rcv_like c r"
  shows "link_ok a (b\<lparr>ep_conn := c\<rparr>)"
proof -
  obtain r where r: "rcv_like (ep_conn b) r"
    "\<forall>X. (snd_set_fin (tc_sender (ep_conn a)) \<longrightarrow> X = []) \<and> length (ep_written a @ X) < 2 ^ 63 \<longrightarrow>
       rcv_state (ep_written a @ X) (snd_isn (tc_sender (ep_conn a))) (r, ep_read b)"
    using assms(1) unfolding link_ok_def by blast
  then show ?thesis using assms(2) [OF r(1)] unfolding link_ok_def by (intro exI [of _ r]) simp
qed

lemma conn_recv_rst:
  "th_rst (ts_header seg) \<or> \<not> active c \<Longrightarrow>
     conn_segment_received c seg = Inr c \<or>
     conn_segment_received c seg = Inr (set_shutdown (c\<lparr>tc_time_since_last_segment_received := 0\<rparr>) False)"
  by (auto simp: conn_segment_received_def Let_def)

lemma seg_at_stream:
  assumes inv: "snd_inv W s" and fin: "snd_set_fin s \<longrightarrow> X = []"
    and "seg_at W isn seg a" and "a + length_in_sequence_space seg \<le> snd_next_seqno s"
  shows "seg_at (W @ X) isn seg a"
  using assms(2-4) seg_at_no_fin [OF assms(3,4) snd_inv_no_fin_next [OF inv]] seg_at_extend by (cases "snd_set_fin s") auto

text \<open>The arrival of a segment never throws and keeps both directions in order.\<close>

lemma arrival_ok:
  assumes a: "ep_snd_ok a" and b: "ep_snd_ok b" and link: "link_ok a b" and len: "length (ep_written a) < 2 ^ 62"
    and near: "near_peer b a seg"
  shows "\<exists>b'. ep_step b (Op_recv seg) = Inr b' \<and> ep_snd_ok b' \<and> ep_after b b' \<and> link_ok a b' \<and> ep_written b' = ep_written b"
proof (cases "th_rst (ts_header seg) \<or> \<not> active (ep_conn b)")
  case True
  let ?c = "(ep_conn b)\<lparr>tc_time_since_last_segment_received := 0\<rparr>"
  have ok: "conn_snd_ok (ep_written b) (ep_conn b)" using b by (simp add: ep_snd_ok_def)
  then have "conn_snd_ok (ep_written b) ?c" by (simp add: conn_snd_ok_def)
  note sh = shutdown_snd_ok [OF this, of False]
  have "link_ok a (b\<lparr>ep_conn := set_shutdown ?c False\<rparr>)"
  proof (rule link_ok_conn [OF link])
    fix r assume "rcv_like (ep_conn b) r"
    then have "rcv_like ?c r" by (rule rcv_like_same) (simp_all add: active_def)
    then show "rcv_like (set_shutdown ?c False) r" by (rule rcv_like_shutdown)
  qed
  moreover have "ep_snd_ok (b\<lparr>ep_conn := set_shutdown ?c False\<rparr>) \<and> ep_after b (b\<lparr>ep_conn := set_shutdown ?c False\<rparr>)"
    using ep_snd_okI [OF b conjunct1 [OF sh]] sh by simp
  moreover have "ep_after b b" by (simp add: ep_after_def)
  ultimately show ?thesis using conn_recv_rst [OF True] b link by (elim disjE) simp_all
next
  case False
  let ?s = "tc_sender (ep_conn a)"
  have inv: "snd_inv (ep_written a) ?s" using a by (simp add: ep_snd_ok_def conn_snd_ok_def)
  obtain n where n: "seg_at (ep_written a) (snd_isn ?s) seg n" "n + length_in_sequence_space seg \<le> snd_next_seqno ?s"
    "seg_near (tc_receiver (ep_conn b)) n"
    using near False by (auto simp: near_peer_def)
  obtain r where r: "rcv_like (ep_conn b) r"
    "\<And>X. (snd_set_fin ?s \<longrightarrow> X = []) \<Longrightarrow> length (ep_written a @ X) < 2 ^ 63 \<Longrightarrow>
       rcv_state (ep_written a @ X) (snd_isn ?s) (r, ep_read b)"
    using link unfolding link_ok_def by blast
  have rb: "tc_receiver (ep_conn b) = r" using r(1) False by (auto simp: rcv_like_def)
  have step: "\<exists>r'. segment_received r seg = Inr r' \<and> rcv_state (ep_written a @ X) (snd_isn ?s) (r', ep_read b) \<and>
      (rcv_set_syn r' \<longrightarrow> rcv_set_syn r \<or> th_syn (ts_header seg))"
    if "snd_set_fin ?s \<longrightarrow> X = []" "length (ep_written a @ X) < 2 ^ 63" for X
  proof (cases "rcv_set_syn r \<or> th_syn (ts_header seg)")
    case True
    have st: "rcv_state (ep_written a @ X) (snd_isn ?s) (r, ep_read b)" using r(2) that by blast
    then have "rcv_inv (ep_written a @ X) (snd_isn ?s) r" by (simp add: rcv_state_def)
    from segment_received_inv [OF this seg_at_stream [OF inv that(1) n(1,2)] n(3) [unfolded rb] True] obtain r'
      where "segment_received r seg = Inr r'" "rcv_inv (ep_written a @ X) (snd_isn ?s) r'" "rcv_set_syn r'"
        "bytes_read (stream_out r') = bytes_read (stream_out r)" by blast
    then show ?thesis using st True by (simp add: rcv_state_def)
  next
    case False
    then have "segment_received r seg = Inr r" by (simp add: segment_received_def)
    then show ?thesis using r(2) that False by auto
  qed
  then obtain r' where r': "segment_received r seg = Inr r'" "rcv_set_syn r' \<longrightarrow> rcv_set_syn r \<or> th_syn (ts_header seg)"
    using step [of "[]"] len by auto
  then have all: "rcv_state (ep_written a @ X) (snd_isn ?s) (r', ep_read b)"
    if "snd_set_fin ?s \<longrightarrow> X = []" "length (ep_written a @ X) < 2 ^ 63" for X
    using step [OF that] by auto
  obtain c' where c': "conn_segment_received (ep_conn b) seg = Inr c'" "tc_receiver c' = r'" "conn_snd_ok (ep_written b) c'"
    "snd_after (ep_written b) (tc_sender (ep_conn b)) (tc_sender c')"
    using conn_recv_step [of "ep_written b" "ep_conn b" seg r'] b False r' rb by (auto simp: ep_snd_ok_def)
  have "link_ok a (b\<lparr>ep_conn := c'\<rparr>)"
    using c'(2) all unfolding link_ok_def by (intro exI [of _ r']) (simp add: rcv_like_def)
  then show ?thesis using c' ep_snd_okI [OF b c'(3,4)] by simp
qed

lemma half_step_ok:
  assumes "half_step a b b'" and "net_ok (a, b)"
  shows "net_ok (a, b')"
  using assms
proof (induction rule: half_step.induct)
  case (local x e e')
  have len: "length (ep_written e) + op_written x + 2 ^ 32 < 2 ^ 64" using local.hyps(2) by simp
  have ok: "ep_snd_ok e' \<and> ep_after e e'"
    using ep_step_snd [OF _ local.hyps(1) len] local by (auto simp: net_ok_def)
  have "length (ep_written e') \<le> length (ep_written e) + op_written x"
    using local.hyps(1,3) by (cases x) (auto simp: op_written_def case_prod_beta Let_def split: list.splits)
  then show ?case
    using local ok link_ok_sender [of e a e'] link_ok_local [of a e x e'] by (auto simp: net_ok_def)
next
  case (arrives seg e e')
  then show ?case
    using arrival_ok [of a e seg] link_ok_sender [of e a e'] by (auto simp: net_ok_def)
qed

lemma net_ok_swap: "net_ok (a, b) \<longleftrightarrow> net_ok (b, a)"
  by (auto simp: net_ok_def)

lemma net_step_ok: "net_step x y \<Longrightarrow> net_ok x \<Longrightarrow> net_ok y"
proof (induction rule: net_step.induct)
  case (left b a a')
  then show ?case using half_step_ok net_ok_swap by blast
next
  case (right a b b')
  then show ?case using half_step_ok by blast
qed

lemma rcv_state_prefix:
  assumes "rcv_state S isn (r, d)"
  shows "d @ bs_byte_stream (stream_out r) = take (bytes_written (stream_out r)) S"
    "input_ended (stream_out r) \<longrightarrow> bytes_written (stream_out r) = length S" "bytes_written (stream_out r) \<le> length S"
proof -
  let ?s = "stream_out r"
  have inv: "rcv_inv S isn r" "agrees S 0 d" "bytes_read ?s = length d" using assms by (simp_all add: rcv_state_def)
  then have core: "sr_core S (rcv_reassembler r)" and eof: "sr_eof_ok S (rcv_reassembler r)"
    by (simp_all add: rcv_inv_def sr_safe_def)
  have "agrees S 0 (d @ bs_byte_stream ?s)" "length (d @ bs_byte_stream ?s) = bytes_written ?s"
    using core inv(2,3) by (simp_all add: agrees_append sr_core_def bs_at_def stream_out_def)
  then show "d @ bs_byte_stream ?s = take (bytes_written ?s) S" by (simp add: agrees_def)
  show "input_ended ?s \<longrightarrow> bytes_written ?s = length S"
    using core eof by (auto simp: sr_eof_ok_def sr_core_def stream_out_def)
  show "bytes_written ?s \<le> length S" using core sr_core_bounds(2) [OF core] by (simp add: sr_core_def stream_out_def)
qed

lemma rcv_like_stream:
  assumes "rcv_like c r"
  shows "bs_byte_stream (inbound_stream c) = bs_byte_stream (stream_out r)"
    "bytes_written (inbound_stream c) = bytes_written (stream_out r)" "input_ended (inbound_stream c) = input_ended (stream_out r)"
  using assms by (auto simp: rcv_like_def inbound_stream_def set_error_def bytes_written_def input_ended_def)

definition delivers :: "endpoint \<Rightarrow> endpoint \<Rightarrow> bool" where
  "delivers a b \<longleftrightarrow>
     (let inbound = inbound_stream (ep_conn b) in
      ep_read b @ bs_byte_stream inbound = take (bytes_written inbound) (ep_written a) \<and>
      bytes_written inbound \<le> length (ep_written a) \<and>
      (input_ended inbound \<longrightarrow>
         bytes_written inbound = length (ep_written a) \<and> input_ended (snd_stream (tc_sender (ep_conn a)))))"

lemma link_ok_delivers:
  assumes "ep_snd_ok a" and "link_ok a b" and "length (ep_written a) < 2 ^ 62"
  shows "delivers a b"
proof -
  let ?s = "tc_sender (ep_conn a)"
  obtain r where r: "rcv_like (ep_conn b) r"
    "\<And>X. (snd_set_fin ?s \<longrightarrow> X = []) \<Longrightarrow> length (ep_written a @ X) < 2 ^ 63 \<Longrightarrow>
       rcv_state (ep_written a @ X) (snd_isn ?s) (r, ep_read b)"
    using assms(2) unfolding link_ok_def by blast
  have st: "rcv_state (ep_written a) (snd_isn ?s) (r, ep_read b)" using r(2) [of "[]"] assms(3) by simp
  have "snd_set_fin ?s" if "input_ended (stream_out r)"
  proof (rule ccontr)
    assume "\<not> snd_set_fin ?s"
    then have "rcv_state (ep_written a @ [0]) (snd_isn ?s) (r, ep_read b)" using r(2) [of "[0]"] assms(3) by simp
    from rcv_state_prefix(2) [OF this] rcv_state_prefix(2) [OF st] that show False by simp
  qed
  moreover have "snd_set_fin ?s \<longrightarrow> input_ended (snd_stream ?s)"
    using assms(1) by (simp add: ep_snd_ok_def conn_snd_ok_def snd_inv_def)
  ultimately show ?thesis
    using rcv_state_prefix [OF st] rcv_like_stream [OF r(1)] by (auto simp: delivers_def Let_def)
qed

lemma new_endpoint_ok:
  assumes "recv_capacity cfg_a < 2 ^ 63" "send_capacity cfg_a < 2 ^ 64" "recv_capacity cfg_b < 2 ^ 63" "send_capacity cfg_b < 2 ^ 64"
  shows "net_ok (new_endpoint cfg_a random_a, new_endpoint cfg_b random_b)"
proof -
  have snd: "ep_snd_ok (new_endpoint cfg random)" if "send_capacity cfg < 2 ^ 64" for cfg random
    using snd_inv_TCPSender [OF that, of "rt_timeout cfg" "fixed_isn cfg" random]
    by (simp add: ep_snd_ok_def conn_snd_ok_def new_endpoint_def TCPConnection_def TCPReceiver_def)
  have link: "link_ok (new_endpoint cfg random) (new_endpoint cfg' random')" if "recv_capacity cfg' < 2 ^ 63" for cfg cfg' random random'
  proof -
    have "rcv_state X isn (TCPReceiver (recv_capacity cfg'), [])" if len: "length X < 2 ^ 63" for X isn
      using rcv_inv_TCPReceiver [of X "recv_capacity cfg'" isn] len \<open>recv_capacity cfg' < 2 ^ 63\<close>
      by (simp add: rcv_state_def) (simp add: TCPReceiver_def stream_out_def StreamReassembler_def ByteStream_def bytes_read_def)
    then show ?thesis
      unfolding link_ok_def by (intro exI [of _ "TCPReceiver (recv_capacity cfg')"])
        (simp add: new_endpoint_def TCPConnection_def rcv_like_def)
  qed
  show ?thesis using assms snd link by (simp add: net_ok_def) (simp add: new_endpoint_def)
qed

lemma net_reach_ok:
  assumes "net_step\<^sup>*\<^sup>* x y" and "net_ok x"
  shows "net_ok y"
  using assms by (induction rule: rtranclp_induct) (auto intro: net_step_ok)

section \<open>Properties\<close>



end
