(* ===== verification/Formatting.thy ===== *)
theory Formatting
  imports Net_Parser
begin

text \<open>
  What the sources use of the text output of the standard library: integers printed in decimal and in
  hexadecimal (\<^verbatim>\<open>std::hex\<close>), \<^verbatim>\<open>setw\<close> with a fill character, \<^verbatim>\<open>boolalpha\<close>, \<^verbatim>\<open>std::stoi\<close> and the
  dotted-quad form of \<^verbatim>\<open>inet_ntoa\<close>. The printed forms determine the numbers they stand for.
\<close>

section \<open>Definitions\<close>

definition digit_char :: "nat \<Rightarrow> char" where
  "digit_char d = char_of (if d < 10 then 48 + d else 87 + d)"

definition char_digit :: "char \<Rightarrow> nat" where
  "char_digit c = (let n = of_char c in if n < 58 then n - 48 else n - 87)"

fun to_base :: "nat \<Rightarrow> nat \<Rightarrow> string" where
  "to_base b n = (if b < 2 \<or> n < b then [digit_char n] else to_base b (n div b) @ [digit_char (n mod b)])"

declare to_base.simps [simp del]

definition of_base :: "nat \<Rightarrow> string \<Rightarrow> nat" where
  "of_base b s = foldl (\<lambda>n c. b * n + char_digit c) 0 s"

abbreviation (input) dec :: "nat \<Rightarrow> string" where
  "dec \<equiv> to_base 10"

abbreviation (input) hex :: "nat \<Rightarrow> string" where
  "hex \<equiv> to_base 16"

text \<open>\<^verbatim>\<open>std::stoi\<close> on a string of decimal digits.\<close>

abbreviation (input) stoi :: "string \<Rightarrow> nat" where
  "stoi \<equiv> of_base 10"

text \<open>\<^verbatim>\<open>setw(w)\<close> with \<^verbatim>\<open>setfill(c)\<close> for the next item.\<close>

definition setw :: "nat \<Rightarrow> char \<Rightarrow> string \<Rightarrow> string" where
  "setw w c s = replicate (w - length s) c @ s"

definition boolalpha :: "bool \<Rightarrow> string" where
  "boolalpha b = (if b then ''true'' else ''false'')"

text \<open>\<^verbatim>\<open>inet_ntoa({htobe32(a)})\<close>: the dotted quad of an address given in host order.\<close>

definition inet_ntoa :: "u32 \<Rightarrow> string" where
  "inet_ntoa a =
     (case map (\<lambda>b. dec (unat b)) (be_bytes 4 (unat a)) of
        [p, q, r, s] \<Rightarrow> p @ ''.'' @ q @ ''.'' @ r @ ''.'' @ s)"

section \<open>Lemmas\<close>

lemma of_char_digit_char: "d < 16 \<Longrightarrow> of_char (digit_char d) = (if d < 10 then 48 + d else 87 + d)"
  by (simp add: digit_char_def)

lemma char_digit_digit_char [simp]: "d < 16 \<Longrightarrow> char_digit (digit_char d) = d"
  by (simp add: char_digit_def of_char_digit_char)

lemma digit_char_neq [simp]:
  "d < 16 \<Longrightarrow> digit_char d \<noteq> CHR ''.''" "d < 16 \<Longrightarrow> digit_char d \<noteq> CHR '':''" "d < 16 \<Longrightarrow> digit_char d \<noteq> CHR '' ''"
  by (auto dest!: arg_cong [where f = "of_char :: char \<Rightarrow> nat"] simp: of_char_digit_char split: if_splits)

lemma to_base_not_Nil [simp]: "to_base b n \<noteq> []"
  by (subst to_base.simps) simp

lemma of_base_append: "of_base b (s @ [c]) = b * of_base b s + char_digit c"
  by (simp add: of_base_def)

lemma of_base_to_base: "2 \<le> b \<Longrightarrow> b \<le> 16 \<Longrightarrow> of_base b (to_base b n) = n"
proof (induction b n rule: to_base.induct)
  case (1 b n)
  show ?case
  proof (cases "n < b")
    case True
    then show ?thesis using 1 by (subst to_base.simps) (simp add: of_base_def)
  next
    case False
    then have "of_base b (to_base b (n div b)) = n div b" using 1 by simp
    moreover have "to_base b n = to_base b (n div b) @ [digit_char (n mod b)]"
      using False 1 by (subst to_base.simps) simp
    moreover have "n mod b < 16" using mod_less_divisor [of b n] "1.prems" by linarith
    ultimately show ?thesis using 1 by (simp add: of_base_append)
  qed
qed

lemma dec_inj: "dec m = dec n \<Longrightarrow> m = n"
  by (drule arg_cong [where f = "of_base 10"]) (simp add: of_base_to_base)

lemma hex_inj: "hex m = hex n \<Longrightarrow> m = n"
  by (drule arg_cong [where f = "of_base 16"]) (simp add: of_base_to_base)

lemma set_to_base: "2 \<le> b \<Longrightarrow> b \<le> 16 \<Longrightarrow> set (to_base b n) \<subseteq> digit_char ` {..< 16}"
proof (induction b n rule: to_base.induct)
  case (1 b n)
  have "n mod b < 16" using mod_less_divisor [of b n] "1.prems" by linarith
  with 1 show ?case
    by (subst to_base.simps) auto
qed

lemma dec_no_dot: "CHR ''.'' \<notin> set (dec n)"
proof
  assume "CHR ''.'' \<in> set (dec n)"
  then obtain d where "d < 16" "CHR ''.'' = digit_char d" using set_to_base [of 10 n] by auto
  then show False using digit_char_neq(1) [of d] by simp
qed

lemma to_base_length_le: "2 \<le> b \<Longrightarrow> n < b ^ k \<Longrightarrow> 0 < k \<Longrightarrow> length (to_base b n) \<le> k"
proof (induction k arbitrary: n)
  case 0
  then show ?case by simp
next
  case (Suc k)
  show ?case
  proof (cases "n < b")
    case True
    then show ?thesis by (subst to_base.simps) simp
  next
    case False
    then have "0 < k" using Suc.prems by (cases k) simp_all
    moreover have "n div b < b ^ k" using Suc.prems by (simp add: less_mult_imp_div_less mult.commute)
    ultimately have "length (to_base b (n div b)) \<le> k" using Suc.prems(1) by (intro Suc.IH)
    then show ?thesis using False by (subst to_base.simps) simp
  qed
qed

lemma length_setw: "length (setw w c s) = max w (length s)"
  by (simp add: setw_def)

text \<open>Padding with zeros does not change the value.\<close>

lemma char_digit_0: "char_digit CHR ''0'' = 0"
  by (simp add: char_digit_def)

lemma of_base_zeros: "of_base b (replicate k CHR ''0'' @ s) = of_base b s"
  by (induction k) (simp_all add: of_base_def char_digit_0)

lemma setw_hex_inj: "setw w CHR ''0'' (hex m) = setw w CHR ''0'' (hex n) \<Longrightarrow> m = n"
proof -
  assume "setw w CHR ''0'' (hex m) = setw w CHR ''0'' (hex n)"
  then have "of_base 16 (setw w CHR ''0'' (hex m)) = of_base 16 (setw w CHR ''0'' (hex n))" by (rule arg_cong)
  then show ?thesis by (simp add: setw_def of_base_zeros of_base_to_base)
qed

lemma be_bytes_4_inj: "be_bytes 4 (unat a) = be_bytes 4 (unat b) \<Longrightarrow> a = (b :: u32)"
  by (drule arg_cong [where f = "word_of_bytes :: byte list \<Rightarrow> u32"]) (simp add: word_of_be_bytes)

lemma append_dot_inj:
  assumes "CHR ''.'' \<notin> set p" and "CHR ''.'' \<notin> set q" and "p @ CHR ''.'' # x = q @ CHR ''.'' # y"
  shows "p = q" "x = y"
proof -
  have "takeWhile (\<lambda>c. c \<noteq> CHR ''.'') (p @ CHR ''.'' # x) = p" using assms(1) by (subst takeWhile_append2) auto
  moreover have "takeWhile (\<lambda>c. c \<noteq> CHR ''.'') (q @ CHR ''.'' # y) = q" using assms(2) by (subst takeWhile_append2) auto
  ultimately show "p = q" using assms(3) by simp
  then show "x = y" using assms(3) by simp
qed

lemma list4_cases: "length xs = 4 \<Longrightarrow> \<exists>a b c d. xs = [a, b, c, d]"
  by (auto simp: numeral_eq_Suc length_Suc_conv)

lemma dotted_quad_inj:
  assumes "dec a @ ''.'' @ dec b @ ''.'' @ dec c @ ''.'' @ dec d = dec a' @ ''.'' @ dec b' @ ''.'' @ dec c' @ ''.'' @ dec d'"
  shows "a = a'" "b = b'" "c = c'" "d = d'"
proof -
  note inj = append_dot_inj [OF dec_no_dot dec_no_dot]
  have 1: "dec a @ CHR ''.'' # (dec b @ CHR ''.'' # (dec c @ CHR ''.'' # dec d)) =
      dec a' @ CHR ''.'' # (dec b' @ CHR ''.'' # (dec c' @ CHR ''.'' # dec d'))" using assms by simp
  from inj(2) [OF inj(2) [OF 1]] inj(1) [OF 1] inj(1) [OF inj(2) [OF 1]] inj(1) [OF inj(2) [OF inj(2) [OF 1]]]
    inj(2) [OF inj(2) [OF inj(2) [OF 1]]]
  show "a = a'" "b = b'" "c = c'" "d = d'" by (auto dest: dec_inj)
qed

lemma inet_ntoa_inj: "inet_ntoa a = inet_ntoa b \<Longrightarrow> a = b"
proof -
  assume eq: "inet_ntoa a = inet_ntoa b"
  obtain p q r s where a: "be_bytes 4 (unat a) = [p, q, r, s]" using list4_cases [of "be_bytes 4 (unat a)"] by auto
  obtain p' q' r' s' where b: "be_bytes 4 (unat b) = [p', q', r', s']" using list4_cases [of "be_bytes 4 (unat b)"] by auto
  from eq have "dec (unat p) @ ''.'' @ dec (unat q) @ ''.'' @ dec (unat r) @ ''.'' @ dec (unat s) =
      dec (unat p') @ ''.'' @ dec (unat q') @ ''.'' @ dec (unat r') @ ''.'' @ dec (unat s')"
    by (simp add: inet_ntoa_def a b)
  from dotted_quad_inj [OF this] have "be_bytes 4 (unat a) = be_bytes 4 (unat b)" by (simp add: a b word_unat_eq_iff)
  then show "a = b" by (rule be_bytes_4_inj)
qed

end
