(* ===== verification/Addresses.thy ===== *)
theory Addresses
  imports Formatting
begin

text \<open>
  \<^verbatim>\<open>libsponge/util/address.{hh,cc}\<close>: socket addresses as the bytes of a \<^verbatim>\<open>sockaddr_storage\<close> with the size in
  use, on a little-endian Linux host (\<^verbatim>\<open>AF_INET\<close> is 2, a \<^verbatim>\<open>sockaddr_in\<close> has 16 bytes: the family, the port and
  the address in network order, and eight bytes of padding). The resolver \<^verbatim>\<open>getaddrinfo\<close> is a parameter;
  \<^verbatim>\<open>getnameinfo\<close> with numeric flags is its documented result on \<^verbatim>\<open>AF_INET\<close> addresses, the only family the
  program creates (all hints ask for it).
\<close>

section \<open>Definitions\<close>

definition AF_INET :: nat where
  "AF_INET = 2"

abbreviation (input) sizeof_sockaddr_storage :: nat where
  "sizeof_sockaddr_storage \<equiv> 128"

abbreviation (input) sizeof_sockaddr_in :: nat where
  "sizeof_sockaddr_in \<equiv> 16"

record Address =
  addr_size :: nat
  addr_storage :: "byte list"

text \<open>The bytes of a \<^verbatim>\<open>sockaddr_in\<close> with this port and address (both in host order).\<close>

definition sockaddr_in :: "u16 \<Rightarrow> u32 \<Rightarrow> byte list" where
  "sockaddr_in p a = [of_nat AF_INET, 0] @ be_bytes 2 (unat p) @ be_bytes 4 (unat a) @ replicate 8 0"

definition Address_of_sockaddr :: "byte list \<Rightarrow> Address res" where
  "Address_of_sockaddr addr =
     (if sizeof_sockaddr_storage < length addr then Inl (Runtime_error ''invalid sockaddr size'')
      else Inr \<lparr>addr_size = length addr,
                addr_storage = addr @ replicate (sizeof_sockaddr_storage - length addr) 0\<rparr>)"

definition ss_family :: "Address \<Rightarrow> nat" where
  "ss_family a = unat (addr_storage a ! 0) + 256 * unat (addr_storage a ! 1)"

definition ipv4_numeric :: "Address \<Rightarrow> u32 res" where
  "ipv4_numeric a =
     (if ss_family a \<noteq> AF_INET \<or> addr_size a \<noteq> sizeof_sockaddr_in
      then Inl (Runtime_error ''ipv4_numeric called on non-IPV4 address'')
      else Inr (word_of_bytes (take 4 (drop 4 (addr_storage a)))))"

definition from_ipv4_numeric :: "u32 \<Rightarrow> Address res" where
  "from_ipv4_numeric ip_address = Address_of_sockaddr (sockaddr_in 0 ip_address)"

definition Address_eq :: "Address \<Rightarrow> Address \<Rightarrow> bool" where
  "Address_eq a other =
     (if addr_size a \<noteq> addr_size other then False
      else take (addr_size a) (addr_storage a) = take (addr_size a) (addr_storage other))"

text \<open>\<^verbatim>\<open>getnameinfo\<close> with \<^verbatim>\<open>NI_NUMERICHOST | NI_NUMERICSERV\<close>; \<^verbatim>\<open>EAI_FAMILY\<close> is -6.\<close>

definition getnameinfo :: "Address \<Rightarrow> int + string \<times> string" where
  "getnameinfo a =
     (if ss_family a \<noteq> AF_INET \<or> addr_size a < sizeof_sockaddr_in then Inl (- 6)
      else Inr (inet_ntoa (word_of_bytes (take 4 (drop 4 (addr_storage a)))),
                dec (nat_of_bytes (take 2 (drop 2 (addr_storage a))))))"

definition ip_port :: "Address \<Rightarrow> (string \<times> u16) res" where
  "ip_port a =
     (case getnameinfo a of
        Inl gni_ret \<Rightarrow> Inl (Tagged_error ''getnameinfo'' gni_ret)
      | Inr (ip, port) \<Rightarrow> Inr (ip, of_nat (stoi port)))"

definition addr_ip :: "Address \<Rightarrow> string res" where
  "addr_ip a = bind_res (ip_port a) (\<lambda>(ip, port). Inr ip)"

definition addr_port :: "Address \<Rightarrow> u16 res" where
  "addr_port a = bind_res (ip_port a) (\<lambda>(ip, port). Inr port)"

definition Address_to_string :: "Address \<Rightarrow> string res" where
  "Address_to_string a = bind_res (ip_port a) (\<lambda>(ip, port). Inr (ip @ '':'' @ dec (unat port)))"

record addrinfo =
  ai_flags :: int
  ai_family :: nat

definition make_hints :: "int \<Rightarrow> nat \<Rightarrow> addrinfo" where
  "make_hints flags family = \<lparr>ai_flags = flags, ai_family = family\<rparr>"

text \<open>
  The resolver: an error code, or the addresses found as lists of bytes, one \<^verbatim>\<open>sockaddr\<close> each.
\<close>

type_synonym resolver = "string \<Rightarrow> string \<Rightarrow> addrinfo \<Rightarrow> int + byte list list"

definition Address_resolve :: "resolver \<Rightarrow> string \<Rightarrow> string \<Rightarrow> addrinfo \<Rightarrow> Address res" where
  "Address_resolve getaddrinfo node service hints =
     (case getaddrinfo node service hints of
        Inl gai_ret \<Rightarrow> Inl (Tagged_error (''getaddrinfo('' @ node @ '', '' @ service @ '')'') gai_ret)
      | Inr [] \<Rightarrow> Inl (Runtime_error ''getaddrinfo returned successfully but with no results'')
      | Inr (ai_addr # _) \<Rightarrow> Address_of_sockaddr ai_addr)"

text \<open>\<^verbatim>\<open>AI_ALL\<close> is 16, \<^verbatim>\<open>AI_NUMERICHOST\<close> 4 and \<^verbatim>\<open>AI_NUMERICSERV\<close> 1024.\<close>

definition Address_hostname :: "resolver \<Rightarrow> string \<Rightarrow> string \<Rightarrow> Address res" where
  "Address_hostname getaddrinfo hostname service =
     Address_resolve getaddrinfo hostname service (make_hints 16 AF_INET)"

definition Address_ip :: "resolver \<Rightarrow> string \<Rightarrow> u16 \<Rightarrow> Address res" where
  "Address_ip getaddrinfo ip port =
     Address_resolve getaddrinfo ip (dec (unat port)) (make_hints (4 + 1024) AF_INET)"

section \<open>Lemmas\<close>

text \<open>The address of an IPv4 endpoint, as every constructor of the program builds it.\<close>

definition inet_address :: "u16 \<Rightarrow> u32 \<Rightarrow> Address" where
  "inet_address p a =
     \<lparr>addr_size = sizeof_sockaddr_in, addr_storage = sockaddr_in p a @ replicate 112 0\<rparr>"

lemma length_sockaddr_in [simp]: "length (sockaddr_in p a) = sizeof_sockaddr_in"
  by (simp add: sockaddr_in_def)

lemma Address_of_sockaddr_in [simp]: "Address_of_sockaddr (sockaddr_in p a) = Inr (inet_address p a)"
  by (simp add: Address_of_sockaddr_def inet_address_def)

lemma inet_address_fields [simp]:
  "addr_size (inet_address p a) = sizeof_sockaddr_in" "ss_family (inet_address p a) = AF_INET"
  "take 2 (drop 2 (addr_storage (inet_address p a))) = be_bytes 2 (unat p)"
  "take 4 (drop 4 (addr_storage (inet_address p a))) = be_bytes 4 (unat a)"
  by (simp_all add: inet_address_def sockaddr_in_def ss_family_def AF_INET_def)

lemma inet_address_inj: "inet_address p a = inet_address q b \<Longrightarrow> p = q \<and> a = b"
proof -
  assume eq: "inet_address p a = inet_address q b"
  then have "be_bytes 2 (unat p) = be_bytes 2 (unat q)" by (metis inet_address_fields(3))
  then have "word_of_bytes (be_bytes 2 (unat p)) = (word_of_bytes (be_bytes 2 (unat q)) :: u16)" by simp
  then have "p = q" by (simp add: word_of_be_bytes)
  moreover have "be_bytes 4 (unat a) = be_bytes 4 (unat b)" using eq by (metis inet_address_fields(4))
  ultimately show ?thesis by (simp add: be_bytes_4_inj)
qed

lemma ipv4_numeric_inet [simp]: "ipv4_numeric (inet_address p a) = Inr a"
  by (simp add: ipv4_numeric_def word_of_be_bytes)

lemma from_ipv4_numeric_eq [simp]: "from_ipv4_numeric a = Inr (inet_address 0 a)"
  by (simp add: from_ipv4_numeric_def)

lemma ip_port_inet [simp]: "ip_port (inet_address p a) = Inr (inet_ntoa a, p)"
  using unat_bounds(2) [of p]
  by (simp add: ip_port_def getnameinfo_def of_base_to_base nat_of_be_bytes word_of_be_bytes)

lemma addr_port_inet [simp]: "addr_port (inet_address p a) = Inr p" "addr_ip (inet_address p a) = Inr (inet_ntoa a)"
  by (simp_all add: addr_port_def addr_ip_def)

lemma Address_eq_inet [simp]: "Address_eq (inet_address p a) (inet_address q b) \<longleftrightarrow> p = q \<and> a = b"
proof
  assume "Address_eq (inet_address p a) (inet_address q b)"
  then have "sockaddr_in p a = sockaddr_in q b" by (simp add: Address_eq_def inet_address_def)
  then have "inet_address p a = inet_address q b" by (simp add: inet_address_def)
  then show "p = q \<and> a = b" by (rule inet_address_inj)
qed (simp add: Address_eq_def)

section \<open>Properties\<close>



end
