(* ===== verification/IPv4_Datagram.thy ===== *)
theory IPv4_Datagram
  imports Internet_Checksum Wire_Format
begin

text \<open>
  \<^verbatim>\<open>libsponge/tcp_helpers/ipv4_header.{hh,cc}\<close> and \<^verbatim>\<open>ipv4_datagram.{hh,cc}\<close>: the IPv4 header, the datagram
  and their wire format. As in the code, \<^verbatim>\<open>IPv4Header::parse\<close> returns at the first failed test and
  \<^verbatim>\<open>IPv4Datagram::parse\<close> drops that result and reports the error of the parser.
\<close>

section \<open>The IPv4 header\<close>

record IPv4Header =
  ih_ver :: u8
  ih_hlen :: u8
  ih_tos :: u8
  ih_len :: u16
  ih_id :: u16
  ih_df :: bool
  ih_mf :: bool
  ih_offset :: u16
  ih_ttl :: u8
  ih_proto :: u8
  ih_cksum :: u16
  ih_src :: u32
  ih_dst :: u32

abbreviation (input) IPv4Header_LENGTH :: nat where
  "IPv4Header_LENGTH \<equiv> 20"

definition DEFAULT_TTL :: u8 where
  "DEFAULT_TTL = 128"

definition PROTO_TCP :: u8 where
  "PROTO_TCP = 6"

definition IPv4Header0 :: IPv4Header where
  "IPv4Header0 =
     \<lparr>ih_ver = 4, ih_hlen = 5, ih_tos = 0, ih_len = 0, ih_id = 0, ih_df = True, ih_mf = False, ih_offset = 0,
      ih_ttl = DEFAULT_TTL, ih_proto = PROTO_TCP, ih_cksum = 0, ih_src = 0, ih_dst = 0\<rparr>"

definition ipv4_header_parse :: "IPv4Header \<Rightarrow> net_parser \<Rightarrow> (ParseResult \<times> IPv4Header \<times> net_parser) res" where
  "ipv4_header_parse h p =
     (let original_serialized_version = np_buffer p;
          data_size = buf_size (np_buffer p)
      in if data_size < IPv4Header_LENGTH then Inr (PacketTooShort, h, p)
      else
     bind_res (parse_u8 p) (\<lambda>(first_byte, p).
     bind_res (parse_u8 p) (\<lambda>(tos, p).
     bind_res (parse_u16 p) (\<lambda>(len, p).
     bind_res (parse_u16 p) (\<lambda>(id_v, p).
     bind_res (parse_u16 p) (\<lambda>(fo_val, p).
     bind_res (parse_u8 p) (\<lambda>(ttl, p).
     bind_res (parse_u8 p) (\<lambda>(proto, p).
     bind_res (parse_u16 p) (\<lambda>(cksum, p).
     bind_res (parse_u32 p) (\<lambda>(src, p).
     bind_res (parse_u32 p) (\<lambda>(dst, p).
       let ver = drop_bit 4 first_byte;
           hlen = first_byte AND 0x0f;
           h = h\<lparr>ih_ver := ver, ih_hlen := hlen, ih_tos := tos, ih_len := len, ih_id := id_v,
                 ih_df := (fo_val AND 0x4000 \<noteq> 0), ih_mf := (fo_val AND 0x2000 \<noteq> 0),
                 ih_offset := fo_val AND 0x1fff, ih_ttl := ttl, ih_proto := proto, ih_cksum := cksum,
                 ih_src := src, ih_dst := dst\<rparr>
       in if data_size < 4 * unat hlen then Inr (PacketTooShort, h, p)
          else if ver \<noteq> 4 then Inr (WrongIPVersion, h, p)
          else if hlen < 5 then Inr (HeaderTooShort, h, p)
          else if data_size \<noteq> unat len then Inr (TruncatedPacket, h, p)
          else
            bind_res (parser_remove_prefix p (unat hlen * 4 - IPv4Header_LENGTH)) (\<lambda>p.
              if parser_error p then Inr (np_error p, h, p)
              else if ic_value (ic_add (InternetChecksum 0)
                       (take (4 * unat hlen) (buffer_str original_serialized_version))) \<noteq> 0
              then Inr (BadChecksum, h, p)
              else Inr (NoError, h, p)))))))))))))"

definition ipv4_header_serialize :: "IPv4Header \<Rightarrow> byte list res" where
  "ipv4_header_serialize h =
     (if ih_ver h \<noteq> 4 then Inl (Runtime_error ''wrong IP version'')
      else if 4 * unat (ih_hlen h) < IPv4Header_LENGTH then Inl (Runtime_error ''IP header too short'')
      else
        let first_byte = push_bit 4 (ih_ver h) OR (ih_hlen h AND 0xf);
            fo_val = (if ih_df h then 0x4000 else 0) OR (if ih_mf h then 0x2000 else 0) OR (ih_offset h AND 0x1fff);
            ret = [];
            ret = unparse_u8 ret first_byte;
            ret = unparse_u8 ret (ih_tos h);
            ret = unparse_u16 ret (ih_len h);
            ret = unparse_u16 ret (ih_id h);
            ret = unparse_u16 ret fo_val;
            ret = unparse_u8 ret (ih_ttl h);
            ret = unparse_u8 ret (ih_proto h);
            ret = unparse_u16 ret (ih_cksum h);
            ret = unparse_u32 ret (ih_src h);
            ret = unparse_u32 ret (ih_dst h)
        in Inr (resize ret (4 * unat (ih_hlen h))))"

definition payload_length :: "IPv4Header \<Rightarrow> u16" where
  "payload_length h = ih_len h - 4 * ucast (ih_hlen h)"

definition pseudo_cksum :: "IPv4Header \<Rightarrow> u32" where
  "pseudo_cksum h =
     (let pcksum = drop_bit 16 (ih_src h) + (ih_src h AND 0xffff);
          pcksum = pcksum + (drop_bit 16 (ih_dst h) + (ih_dst h AND 0xffff));
          pcksum = pcksum + ucast (ih_proto h);
          pcksum = pcksum + ucast (payload_length h)
      in pcksum)"

section \<open>The datagram\<close>

record IPv4Datagram =
  ip_header :: IPv4Header
  ip_payload :: buffer_list

definition IPv4Datagram0 :: IPv4Datagram where
  "IPv4Datagram0 = \<lparr>ip_header = IPv4Header0, ip_payload = []\<rparr>"

definition ipv4_datagram_parse :: "IPv4Datagram \<Rightarrow> buffer \<Rightarrow> (ParseResult \<times> IPv4Datagram) res" where
  "ipv4_datagram_parse d buf =
     bind_res (ipv4_header_parse (ip_header d) (NetParser buf)) (\<lambda>(_, h, p).
       let d = d\<lparr>ip_header := h, ip_payload := BufferList (np_buffer p)\<rparr> in
       if bl_size (ip_payload d) \<noteq> unat (payload_length (ip_header d)) then Inr (PacketTooShort, d)
       else Inr (np_error p, d))"

definition ipv4_datagram_serialize :: "IPv4Datagram \<Rightarrow> buffer_list res" where
  "ipv4_datagram_serialize d =
     (if bl_size (ip_payload d) \<noteq> unat (payload_length (ip_header d))
      then Inl (Runtime_error ''IPv4Datagram::serialize: payload is wrong size'')
      else
        let header_out = (ip_header d)\<lparr>ih_cksum := 0\<rparr> in
        bind_res (ipv4_header_serialize header_out) (\<lambda>header_zero_checksum.
          let check = ic_add (InternetChecksum 0) header_zero_checksum;
              header_out = header_out\<lparr>ih_cksum := ic_value check\<rparr>
          in bind_res (ipv4_header_serialize header_out) (\<lambda>hdr.
               Inr (bl_append (bl_append [] (BufferList_of_string hdr)) (ip_payload d)))))"

section \<open>Lemmas\<close>

lemma version_byte:
  assumes "n < (16 :: u8)"
  shows "drop_bit 4 (0x40 OR n) = 4" "(0x40 OR n) AND 0x0f = n" "n AND 0x0f = n"
proof -
  have "n \<in> set (map of_nat [0 ..< 16])"
    using assms by (auto simp: word_less_nat_alt intro!: image_eqI [of _ _ "unat n"])
  moreover have "\<forall>n \<in> set (map of_nat [0 ..< 16]).
      drop_bit 4 (0x40 OR n :: u8) = 4 \<and> (0x40 OR n) AND 0x0f = n \<and> n AND 0x0f = n"
    by (simp add: upt_rec)
  ultimately show "drop_bit 4 (0x40 OR n) = 4" "(0x40 OR n) AND 0x0f = n" "n AND 0x0f = n" by blast+
qed

definition ipv4_fragment :: "IPv4Header \<Rightarrow> u16" where
  "ipv4_fragment h = (if ih_df h then 0x4000 else 0) OR (if ih_mf h then 0x2000 else 0) OR (ih_offset h AND 0x1fff)"

lemma ipv4_fragment_read:
  "ipv4_fragment h AND 0x4000 \<noteq> 0 \<longleftrightarrow> ih_df h" "ipv4_fragment h AND 0x2000 \<noteq> 0 \<longleftrightarrow> ih_mf h"
  "ih_offset h < 0x2000 \<Longrightarrow> ipv4_fragment h AND 0x1fff = ih_offset h"
proof -
  show "ipv4_fragment h AND 0x4000 \<noteq> 0 \<longleftrightarrow> ih_df h" "ipv4_fragment h AND 0x2000 \<noteq> 0 \<longleftrightarrow> ih_mf h"
    by (simp_all add: ipv4_fragment_def bit.conj_disj_distrib2 and.assoc)
  assume "ih_offset h < 0x2000"
  moreover have "(0x1fff :: u16) = mask 13" by (simp add: mask_eq_exp_minus_1)
  then have "unat (ih_offset h AND 0x1fff) = unat (ih_offset h) mod 8192"
    using unat_take_bit_mod [of 13 "ih_offset h"] by (simp add: take_bit_eq_mask)
  ultimately have "ih_offset h AND 0x1fff = ih_offset h"
    by (simp add: word_unat_eq_iff word_less_nat_alt)
  then show "ipv4_fragment h AND 0x1fff = ih_offset h"
    by (simp add: ipv4_fragment_def bit.conj_disj_distrib2 and.assoc)
qed

definition ipv4_before_cksum :: "IPv4Header \<Rightarrow> byte list" where
  "ipv4_before_cksum h =
     [0x40 OR (ih_hlen h AND 0xf), ih_tos h] @ be_bytes 2 (unat (ih_len h)) @ be_bytes 2 (unat (ih_id h)) @
     be_bytes 2 (unat (ipv4_fragment h)) @ [ih_ttl h, ih_proto h]"

definition ipv4_after_cksum :: "IPv4Header \<Rightarrow> byte list" where
  "ipv4_after_cksum h =
     be_bytes 4 (unat (ih_src h)) @ be_bytes 4 (unat (ih_dst h)) @ replicate (4 * unat (ih_hlen h) - 20) 0"

lemma length_ipv4_parts [simp]:
  "length (ipv4_before_cksum h) = 10" "length (ipv4_after_cksum h) = 8 + (4 * unat (ih_hlen h) - 20)"
  by (simp_all add: ipv4_before_cksum_def ipv4_after_cksum_def)

lemma ipv4_parts_cksum [simp]:
  "ipv4_before_cksum (h\<lparr>ih_cksum := c\<rparr>) = ipv4_before_cksum h" "ipv4_after_cksum (h\<lparr>ih_cksum := c\<rparr>) = ipv4_after_cksum h"
  by (simp_all add: ipv4_before_cksum_def ipv4_after_cksum_def ipv4_fragment_def)

lemma ipv4_header_serialize_eq:
  assumes "ih_ver h = 4" and "20 \<le> 4 * unat (ih_hlen h)"
  shows "ipv4_header_serialize h =
    Inr (ipv4_before_cksum h @ be_bytes 2 (unat (ih_cksum h)) @ ipv4_after_cksum h)"
  using assms
  by (simp add: ipv4_header_serialize_def Let_def unparse_u_eq resize_def ipv4_before_cksum_def ipv4_after_cksum_def
      ipv4_fragment_def)

text \<open>A header as the serialiser needs it: its fields fit their places in the format.\<close>

definition ipv4_header_ok :: "IPv4Header \<Rightarrow> bool" where
  "ipv4_header_ok h \<longleftrightarrow> ih_ver h = 4 \<and> 5 \<le> ih_hlen h \<and> ih_hlen h < 16 \<and> ih_offset h < 0x2000"

lemma ipv4_header_ok_hlen: "ipv4_header_ok h \<Longrightarrow> 20 \<le> 4 * unat (ih_hlen h)"
  by (simp add: ipv4_header_ok_def word_le_nat_alt)

lemma ipv4_header_parse_total:
  assumes "buffer_ok (np_buffer p)"
  shows "\<exists>r h' p'. ipv4_header_parse h p = Inr (r, h', p') \<and> buffer_ok (np_buffer p')"
  using assms by (simp add: ipv4_header_parse_def Let_def del: One_nat_def)

lemma ipv4_header_roundtrip:
  assumes "reads p (hdr @ rest)" and ser: "ipv4_header_serialize h = Inr hdr" and ok: "ipv4_header_ok h"
    and len: "length hdr + length rest = unat (ih_len h)"
  shows "yields (if ic_value (ic_add (InternetChecksum 0) hdr) = 0 then NoError else BadChecksum)
    (ipv4_header_parse h0 p) h rest"
proof -
  note d = ipv4_header_ok_hlen [OF ok]
  have h: "ih_ver h = 4" "ih_hlen h < 16" "\<not> ih_hlen h < 5" "ih_offset h < 0x2000"
    using ok by (simp_all add: ipv4_header_ok_def not_less)
  have hdr: "hdr = ipv4_before_cksum h @ be_bytes 2 (unat (ih_cksum h)) @ ipv4_after_cksum h"
    using ser ipv4_header_serialize_eq [OF h(1) d] by simp
  have lhdr: "length hdr = 4 * unat (ih_hlen h)" using hdr d by simp
  have str: "buffer_str (np_buffer p) = hdr @ rest" using assms(1) by (simp add: reads_def)
  then have size: "buf_size (np_buffer p) = unat (ih_len h)" "\<not> buf_size (np_buffer p) < 20"
    "take (4 * unat (ih_hlen h)) (buffer_str (np_buffer p)) = hdr"
    using len lhdr d by (auto simp: buf_size_def)
  have "reads p ((0x40 OR (ih_hlen h AND 0xf)) # ih_tos h # be_bytes 2 (unat (ih_len h)) @ be_bytes 2 (unat (ih_id h)) @
      be_bytes 2 (unat (ipv4_fragment h)) @ ih_ttl h # ih_proto h # be_bytes 2 (unat (ih_cksum h)) @
      be_bytes 4 (unat (ih_src h)) @ be_bytes 4 (unat (ih_dst h)) @ replicate (4 * unat (ih_hlen h) - 20) 0 @ rest)"
    using assms(1) by (simp add: hdr ipv4_before_cksum_def ipv4_after_cksum_def)
  then show ?thesis
    unfolding ipv4_header_parse_def Let_def if_not_P [OF size(2)]
    apply -
    apply (erule yields_step, simp only: prod.case)+
    apply (simp only: version_byte [OF h(2)] ipv4_fragment_read(3) [OF h(4)] size(1) size(3))
    apply (simp add: h len [symmetric] lhdr split del: if_split)
    apply (erule yields_remove)
     apply (simp add: mult.commute)
    apply (auto intro!: yields_done IPv4Header.equality simp: reads_error h ipv4_fragment_read)
    done
qed

lemma payload_length_eq:
  assumes "4 * unat (ih_hlen h) + n = unat (ih_len h)"
  shows "unat (payload_length h) = n"
proof -
  have "ih_len h = of_nat (unat (ih_len h))" by simp
  also have "\<dots> = of_nat (4 * unat (ih_hlen h) + n)" by (simp only: assms)
  finally have "payload_length h = of_nat n" by (simp add: payload_length_def)
  then show ?thesis using assms unat_bounds(2) [of "ih_len h"] by (simp add: unat_of_nat)
qed

text \<open>
  The bytes of a header with any checksum followed by a payload of the right size parse without an
  error, whatever the checksum.
\<close>

lemma ipv4_datagram_parse_any_cksum:
  assumes "ipv4_header_ok h" and "ipv4_header_serialize h = Inr hdr"
    and "4 * unat (ih_hlen h) + length pay = unat (ih_len h)" and "buffer_ok buf" "buffer_str buf = hdr @ pay"
  shows "\<exists>d t. ipv4_datagram_parse d0 buf = Inr (NoError, d) \<and> ip_header d = h \<and> ip_payload d = [t] \<and> buffer_ok t \<and>
    buffer_str t = pay"
proof -
  note d = ipv4_header_ok_hlen [OF assms(1)]
  have lhdr: "length hdr = 4 * unat (ih_hlen h)"
    using assms(1,2) ipv4_header_serialize_eq [OF _ d] d by (auto simp: ipv4_header_ok_def)
  have "reads (NetParser buf) (hdr @ pay)" using reads_NetParser [OF assms(4)] assms(5) by simp
  from ipv4_header_roundtrip [OF this assms(2,1), of "ip_header d0"] lhdr assms(3) obtain r p where
    p: "ipv4_header_parse (ip_header d0) (NetParser buf) = Inr (r, h, p)" "reads p pay"
    by (auto simp: yields_def)
  then show ?thesis
    using p payload_length_eq [OF assms(3)]
    by (simp add: ipv4_datagram_parse_def BufferList_def bl_size_eq reads_def Let_def)
qed

lemma ipv4_datagram_wire:
  assumes "ipv4_header_ok (ip_header d)"
    and "4 * unat (ih_hlen (ip_header d)) + length (concatenate (ip_payload d)) = unat (ih_len (ip_header d))"
  shows "\<exists>bl c. ipv4_datagram_serialize d = Inr bl \<and> length (concatenate bl) < 2 ^ 64 \<and>
    ic_value (ic_add (InternetChecksum 0) (take (4 * unat (ih_hlen (ip_header d))) (concatenate bl))) = 0 \<and>
    (\<forall>buf. buffer_ok buf \<and> buffer_str buf = concatenate bl \<longrightarrow>
      (\<exists>d' t. ipv4_datagram_parse d0 buf = Inr (NoError, d') \<and> ip_header d' = (ip_header d)\<lparr>ih_cksum := c\<rparr> \<and>
         ip_payload d' = [t] \<and> buffer_ok t \<and> buffer_str t = concatenate (ip_payload d)))"
proof -
  let ?h = "ip_header d" and ?pay = "concatenate (ip_payload d)"
  let ?pre = "ipv4_before_cksum ?h" and ?post = "ipv4_after_cksum ?h"
  note hl = ipv4_header_ok_hlen [OF assms(1)]
  define c where "c = ic_value (ic_add (InternetChecksum 0) (?pre @ be_bytes 2 0 @ ?post))"
  define hdr where "hdr = ?pre @ be_bytes 2 (unat c) @ ?post"
  have ser: "ipv4_header_serialize (?h\<lparr>ih_cksum := v\<rparr>) = Inr (?pre @ be_bytes 2 (unat v) @ ?post)" for v
    using ipv4_header_serialize_eq [of "?h\<lparr>ih_cksum := v\<rparr>"] assms(1) hl by (simp add: ipv4_header_ok_def)
  have 1: "ipv4_datagram_serialize d = Inr (Buffer hdr # ip_payload d)"
    using ser [of 0] ser [of c] payload_length_eq [OF assms(2)]
    by (simp add: ipv4_datagram_serialize_def Let_def bl_size_eq hdr_def c_def BufferList_of_string_def)
  have "unat (ih_hlen ?h) < 16" using assms(1) by (simp add: ipv4_header_ok_def word_less_nat_alt)
  then have "ic_value (ic_add (InternetChecksum 0) hdr) = 0"
    unfolding hdr_def c_def by (intro checksum_field) simp_all
  moreover have "length hdr = 4 * unat (ih_hlen ?h)" using hl by (simp add: hdr_def)
  moreover have "ipv4_header_ok (?h\<lparr>ih_cksum := c\<rparr>)" using assms(1) by (simp add: ipv4_header_ok_def)
  note parse = ipv4_datagram_parse_any_cksum [OF this ser, of ?pay _ d0]
  have "\<exists>d' t. ipv4_datagram_parse d0 buf = Inr (NoError, d') \<and> ip_header d' = ?h\<lparr>ih_cksum := c\<rparr> \<and>
      ip_payload d' = [t] \<and> buffer_ok t \<and> buffer_str t = ?pay"
    if "buffer_ok buf" "buffer_str buf = hdr @ ?pay" for buf
    using parse [of buf] that assms(2) by (auto simp: hdr_def)
  moreover have "length (hdr @ ?pay) < 2 ^ 64"
    using assms(2) \<open>length hdr = 4 * unat (ih_hlen ?h)\<close> unat_bounds(2) [of "ih_len ?h"] by simp
  ultimately show ?thesis using 1 by auto
qed

text \<open>
  A datagram as the program builds them: its header fits the format and its length field counts header
  and payload. Two datagrams are the same up to the header checksum.
\<close>

definition dgram_ok :: "IPv4Datagram \<Rightarrow> bool" where
  "dgram_ok d \<longleftrightarrow> ipv4_header_ok (ip_header d) \<and>
     4 * unat (ih_hlen (ip_header d)) + length (concatenate (ip_payload d)) = unat (ih_len (ip_header d))"

definition dgram_same :: "IPv4Datagram \<Rightarrow> IPv4Datagram \<Rightarrow> bool" where
  "dgram_same d d' \<longleftrightarrow> (\<exists>c. ip_header d' = (ip_header d)\<lparr>ih_cksum := c\<rparr>) \<and>
     concatenate (ip_payload d') = concatenate (ip_payload d)"

lemma dgram_same_ok: "dgram_same d d' \<Longrightarrow> dgram_ok d' \<longleftrightarrow> dgram_ok d"
  by (auto simp: dgram_same_def dgram_ok_def ipv4_header_ok_def)

interpretation dw: wire_format ipv4_datagram_serialize "ipv4_datagram_parse IPv4Datagram0" dgram_ok dgram_same
proof
  fix x y z
  show "dgram_same x y \<Longrightarrow> dgram_same y x"
    by (auto simp: dgram_same_def intro!: exI [of _ "ih_cksum (ip_header x)"])
  show "dgram_same x y \<Longrightarrow> dgram_same y z \<Longrightarrow> dgram_same x z" by (auto simp: dgram_same_def)
  show "dgram_same x y \<Longrightarrow> dgram_ok x \<Longrightarrow> dgram_ok y" by (simp add: dgram_same_ok)
  assume "dgram_ok x"
  then obtain bl c where bl: "ipv4_datagram_serialize x = Inr bl" "length (concatenate bl) < 2 ^ 64"
    and dec: "\<And>buf. buffer_ok buf \<Longrightarrow> buffer_str buf = concatenate bl \<Longrightarrow>
      \<exists>d' t. ipv4_datagram_parse IPv4Datagram0 buf = Inr (NoError, d') \<and> ip_header d' = (ip_header x)\<lparr>ih_cksum := c\<rparr> \<and>
         ip_payload d' = [t] \<and> buffer_ok t \<and> buffer_str t = concatenate (ip_payload x)"
    using ipv4_datagram_wire [of x IPv4Datagram0] unfolding dgram_ok_def by blast
  have "\<exists>y. ipv4_datagram_parse IPv4Datagram0 buf = Inr (NoError, y) \<and> dgram_same x y"
    if "buffer_ok buf" "buffer_str buf = concatenate bl" for buf
    using dec [OF that] by (auto simp: dgram_same_def)
  then show "\<exists>bl. ipv4_datagram_serialize x = Inr bl \<and> length (concatenate bl) < 2 ^ 64 \<and>
      (\<forall>buf. buffer_ok buf \<and> buffer_str buf = concatenate bl \<longrightarrow>
         (\<exists>y. ipv4_datagram_parse IPv4Datagram0 buf = Inr (NoError, y) \<and> dgram_same x y))"
    using bl by blast
qed

lemma ipv4_parse_one_buffer:
  assumes "ipv4_datagram_parse d0 buf = Inr (r, d)" and "buffer_ok buf"
  shows "\<exists>t. ip_payload d = [t] \<and> buffer_ok t"
proof -
  obtain r' h p where "ipv4_header_parse (ip_header d0) (NetParser buf) = Inr (r', h, p)" "buffer_ok (np_buffer p)"
    using ipv4_header_parse_total [of "NetParser buf" "ip_header d0"] assms(2) by (auto simp: NetParser_def)
  then show ?thesis
    using assms(1) by (auto simp: ipv4_datagram_parse_def BufferList_def Let_def split: if_splits)
qed

section \<open>Properties\<close>

text \<open>
  C16. Round trip of an IPv4 datagram: serialising a datagram whose length field is consistent computes a
  header checksum that verifies, and parsing the bytes gives \<^verbatim>\<open>NoError\<close>, the same header with that
  checksum and the same payload.
\<close>

theorem ipv4_datagram_roundtrip:
  assumes "ipv4_header_ok (ip_header d)"
    and "4 * unat (ih_hlen (ip_header d)) + length (concatenate (ip_payload d)) = unat (ih_len (ip_header d))"
  shows "\<exists>bl c d'. ipv4_datagram_serialize d = Inr bl \<and>
    ic_value (ic_add (InternetChecksum 0) (take (4 * unat (ih_hlen (ip_header d))) (concatenate bl))) = 0 \<and>
    ipv4_datagram_parse d0 (Buffer (concatenate bl)) = Inr (NoError, d') \<and>
    ip_header d' = (ip_header d)\<lparr>ih_cksum := c\<rparr> \<and> concatenate (ip_payload d') = concatenate (ip_payload d)"
proof -
  from ipv4_datagram_wire [OF assms, of d0] obtain bl c where bl: "ipv4_datagram_serialize d = Inr bl"
    "length (concatenate bl) < 2 ^ 64"
    "ic_value (ic_add (InternetChecksum 0) (take (4 * unat (ih_hlen (ip_header d))) (concatenate bl))) = 0"
    and *: "\<And>buf. buffer_ok buf \<Longrightarrow> buffer_str buf = concatenate bl \<Longrightarrow>
      \<exists>d' t. ipv4_datagram_parse d0 buf = Inr (NoError, d') \<and> ip_header d' = (ip_header d)\<lparr>ih_cksum := c\<rparr> \<and>
         ip_payload d' = [t] \<and> buffer_ok t \<and> buffer_str t = concatenate (ip_payload d)"
    by blast
  from * [of "Buffer (concatenate bl)"] bl show ?thesis by auto
qed

theorem ipv4_datagram_roundtrip_witness:
  "\<exists>bl c d'. ipv4_datagram_serialize \<lparr>ip_header = IPv4Header0\<lparr>ih_len := 23\<rparr>, ip_payload = [Buffer [1, 2, 3]]\<rparr> = Inr bl \<and>
    ipv4_datagram_parse IPv4Datagram0 (Buffer (concatenate bl)) = Inr (NoError, d') \<and>
    ip_header d' = IPv4Header0\<lparr>ih_len := 23, ih_cksum := c\<rparr> \<and> concatenate (ip_payload d') = [1, 2, 3]"
  using ipv4_datagram_roundtrip [of "\<lparr>ip_header = IPv4Header0\<lparr>ih_len := 23\<rparr>, ip_payload = [Buffer [1, 2, 3]]\<rparr>" IPv4Datagram0]
  by (auto simp: IPv4Header0_def ipv4_header_ok_def)

text \<open>
  C23. \<^verbatim>\<open>IPv4Datagram::parse\<close> ignores the result of \<^verbatim>\<open>IPv4Header::parse\<close>: the bytes of a well-formed header with
  an arbitrary checksum, followed by a payload of the announced size, are reported as \<^verbatim>\<open>NoError\<close>,
  although the header parser reports \<^verbatim>\<open>BadChecksum\<close> whenever the checksum is wrong.
\<close>

theorem ipv4_datagram_accepts_bad_checksum:
  assumes "ipv4_header_ok h" and "ipv4_header_serialize h = Inr hdr"
    and "4 * unat (ih_hlen h) + length pay = unat (ih_len h)"
    and "ic_value (ic_add (InternetChecksum 0) hdr) \<noteq> 0"
  shows "\<exists>p d. ipv4_header_parse h0 (NetParser (Buffer (hdr @ pay))) = Inr (BadChecksum, h, p) \<and>
    ipv4_datagram_parse d0 (Buffer (hdr @ pay)) = Inr (NoError, d) \<and> ip_header d = h \<and> concatenate (ip_payload d) = pay"
proof -
  note d = ipv4_header_ok_hlen [OF assms(1)]
  have lhdr: "length hdr = 4 * unat (ih_hlen h)"
    using assms(1,2) ipv4_header_serialize_eq [OF _ d] d by (auto simp: ipv4_header_ok_def)
  then have "length (hdr @ pay) < 2 ^ 64" using assms(3) unat_bounds(2) [of "ih_len h"] by simp
  then have "reads (NetParser (Buffer (hdr @ pay))) (hdr @ pay)"
    using reads_NetParser [of "Buffer (hdr @ pay)"] by simp
  from ipv4_header_roundtrip [OF this assms(2,1), of h0] lhdr assms(3,4)
  show ?thesis
    using ipv4_datagram_parse_any_cksum [OF assms(1-3), of "Buffer (hdr @ pay)" d0] \<open>length (hdr @ pay) < 2 ^ 64\<close>
    by (auto simp: yields_def)
qed

theorem ipv4_datagram_accepts_bad_checksum_witness:
  "\<exists>hdr d. ipv4_header_serialize (IPv4Header0\<lparr>ih_len := 20\<rparr>) = Inr hdr \<and>
     ic_value (ic_add (InternetChecksum 0) hdr) \<noteq> 0 \<and>
     ipv4_datagram_parse IPv4Datagram0 (Buffer hdr) = Inr (NoError, d)"
proof -
  let ?h = "IPv4Header0\<lparr>ih_len := 20\<rparr>"
  define hdr where "hdr = ipv4_before_cksum ?h @ be_bytes 2 (unat (ih_cksum ?h)) @ ipv4_after_cksum ?h"
  have ok: "ipv4_header_ok ?h" by (simp add: ipv4_header_ok_def IPv4Header0_def)
  have ser: "ipv4_header_serialize ?h = Inr hdr"
    unfolding hdr_def by (rule ipv4_header_serialize_eq) (simp_all add: IPv4Header0_def)
  have "sum16 False hdr = 66842"
    by (simp add: hdr_def ipv4_before_cksum_def ipv4_after_cksum_def IPv4Header0_def be_bytes_def ipv4_fragment_def upt_rec
        DEFAULT_TTL_def PROTO_TCP_def)
  then have "ic_value (ic_add (InternetChecksum 0) hdr) \<noteq> 0"
    by (simp add: ic_value_0_iff ic_add_eq InternetChecksum_def)
  then show ?thesis
    using ipv4_datagram_accepts_bad_checksum [OF ok ser, of "[]" IPv4Header0 IPv4Datagram0] ser
    by (auto simp: IPv4Header0_def)
qed

end
