(* ===== verification/Ethernet_ARP.thy ===== *)
theory Ethernet_ARP
  imports Wire_Format
begin

text \<open>
  \<^verbatim>\<open>libsponge/tcp_helpers/ethernet_header.{hh,cc}\<close>, \<^verbatim>\<open>ethernet_frame.{hh,cc}\<close> and \<^verbatim>\<open>arp_message.{hh,cc}\<close>: the
  link-layer formats. An \<^verbatim>\<open>EthernetAddress\<close>, an array of six bytes, is a list of bytes; the loops over
  it keep its length.
\<close>

section \<open>Ethernet\<close>

type_synonym EthernetAddress = "byte list"

definition ETHERNET_BROADCAST :: EthernetAddress where
  "ETHERNET_BROADCAST = [0xff, 0xff, 0xff, 0xff, 0xff, 0xff]"

record EthernetHeader =
  eh_dst :: EthernetAddress
  eh_src :: EthernetAddress
  eh_type :: u16

abbreviation (input) EthernetHeader_LENGTH :: nat where
  "EthernetHeader_LENGTH \<equiv> 14"

definition TYPE_IPv4 :: u16 where
  "TYPE_IPv4 = 0x800"

definition TYPE_ARP :: u16 where
  "TYPE_ARP = 0x806"

definition EthernetHeader0 :: EthernetHeader where
  "EthernetHeader0 = \<lparr>eh_dst = replicate 6 0, eh_src = replicate 6 0, eh_type = 0\<rparr>"

text \<open>The loops \<^verbatim>\<open>for (auto &byte : address)\<close> that read and write an address.\<close>

fun parse_address :: "EthernetAddress \<Rightarrow> net_parser \<Rightarrow> (EthernetAddress \<times> net_parser) res" where
  "parse_address [] p = Inr ([], p)"
| "parse_address (_ # bs) p =
     bind_res (parse_u8 p) (\<lambda>(b, p). bind_res (parse_address bs p) (\<lambda>(bs, p). Inr (b # bs, p)))"

definition unparse_address :: "byte list \<Rightarrow> EthernetAddress \<Rightarrow> byte list" where
  "unparse_address ret a = foldl unparse_u8 ret a"

definition ethernet_header_parse :: "EthernetHeader \<Rightarrow> net_parser \<Rightarrow> (ParseResult \<times> EthernetHeader \<times> net_parser) res"
where
  "ethernet_header_parse h p =
     (if buf_size (np_buffer p) < EthernetHeader_LENGTH then Inr (PacketTooShort, h, p)
      else
        bind_res (parse_address (eh_dst h) p) (\<lambda>(dst, p).
        bind_res (parse_address (eh_src h) p) (\<lambda>(src, p).
        bind_res (parse_u16 p) (\<lambda>(type, p).
          Inr (np_error p, h\<lparr>eh_dst := dst, eh_src := src, eh_type := type\<rparr>, p)))))"

definition ethernet_header_serialize :: "EthernetHeader \<Rightarrow> byte list" where
  "ethernet_header_serialize h =
     (let ret = [];
          ret = unparse_address ret (eh_dst h);
          ret = unparse_address ret (eh_src h)
      in unparse_u16 ret (eh_type h))"

record EthernetFrame =
  ef_header :: EthernetHeader
  ef_payload :: buffer_list

definition EthernetFrame0 :: EthernetFrame where
  "EthernetFrame0 = \<lparr>ef_header = EthernetHeader0, ef_payload = []\<rparr>"

definition ethernet_frame_parse :: "EthernetFrame \<Rightarrow> buffer \<Rightarrow> (ParseResult \<times> EthernetFrame) res" where
  "ethernet_frame_parse f buf =
     bind_res (ethernet_header_parse (ef_header f) (NetParser buf)) (\<lambda>(_, h, p).
       Inr (np_error p, f\<lparr>ef_header := h, ef_payload := BufferList (np_buffer p)\<rparr>))"

definition ethernet_frame_serialize :: "EthernetFrame \<Rightarrow> buffer_list" where
  "ethernet_frame_serialize f =
     bl_append (bl_append [] (BufferList_of_string (ethernet_header_serialize (ef_header f)))) (ef_payload f)"

section \<open>ARP\<close>

record ARPMessage =
  am_hardware_type :: u16
  am_protocol_type :: u16
  am_hardware_address_size :: u8
  am_protocol_address_size :: u8
  am_opcode :: u16
  am_sender_ethernet_address :: EthernetAddress
  am_sender_ip_address :: u32
  am_target_ethernet_address :: EthernetAddress
  am_target_ip_address :: u32

abbreviation (input) ARPMessage_LENGTH :: nat where
  "ARPMessage_LENGTH \<equiv> 28"

definition TYPE_ETHERNET :: u16 where
  "TYPE_ETHERNET = 1"

definition OPCODE_REQUEST :: u16 where
  "OPCODE_REQUEST = 1"

definition OPCODE_REPLY :: u16 where
  "OPCODE_REPLY = 2"

definition ARPMessage0 :: ARPMessage where
  "ARPMessage0 =
     \<lparr>am_hardware_type = TYPE_ETHERNET, am_protocol_type = TYPE_IPv4, am_hardware_address_size = 6,
      am_protocol_address_size = 4, am_opcode = 0, am_sender_ethernet_address = replicate 6 0,
      am_sender_ip_address = 0, am_target_ethernet_address = replicate 6 0, am_target_ip_address = 0\<rparr>"

definition arp_supported :: "ARPMessage \<Rightarrow> bool" where
  "arp_supported m \<longleftrightarrow>
     am_hardware_type m = TYPE_ETHERNET \<and> am_protocol_type m = TYPE_IPv4 \<and> am_hardware_address_size m = 6 \<and>
     am_protocol_address_size m = 4 \<and> (am_opcode m = OPCODE_REQUEST \<or> am_opcode m = OPCODE_REPLY)"

definition arp_parse :: "ARPMessage \<Rightarrow> buffer \<Rightarrow> (ParseResult \<times> ARPMessage) res" where
  "arp_parse m buf =
     (let p = NetParser buf in
      if buf_size (np_buffer p) < ARPMessage_LENGTH then Inr (PacketTooShort, m)
      else
        bind_res (parse_u16 p) (\<lambda>(hardware_type, p).
        bind_res (parse_u16 p) (\<lambda>(protocol_type, p).
        bind_res (parse_u8 p) (\<lambda>(hardware_address_size, p).
        bind_res (parse_u8 p) (\<lambda>(protocol_address_size, p).
        bind_res (parse_u16 p) (\<lambda>(opcode, p).
          let m = m\<lparr>am_hardware_type := hardware_type, am_protocol_type := protocol_type,
                    am_hardware_address_size := hardware_address_size,
                    am_protocol_address_size := protocol_address_size, am_opcode := opcode\<rparr> in
          if \<not> arp_supported m then Inr (Unsupported, m)
          else
            bind_res (parse_address (am_sender_ethernet_address m) p) (\<lambda>(sender_ethernet_address, p).
            bind_res (parse_u32 p) (\<lambda>(sender_ip_address, p).
            bind_res (parse_address (am_target_ethernet_address m) p) (\<lambda>(target_ethernet_address, p).
            bind_res (parse_u32 p) (\<lambda>(target_ip_address, p).
              Inr (np_error p,
                m\<lparr>am_sender_ethernet_address := sender_ethernet_address, am_sender_ip_address := sender_ip_address,
                  am_target_ethernet_address := target_ethernet_address, am_target_ip_address := target_ip_address\<rparr>)))))))))))"

definition arp_serialize :: "ARPMessage \<Rightarrow> byte list res" where
  "arp_serialize m =
     (if \<not> arp_supported m
      then Inl (Runtime_error ''ARPMessage::serialize(): unsupported field combination (must be Ethernet/IP, and request or reply)'')
      else
        let ret = [];
            ret = unparse_u16 ret (am_hardware_type m);
            ret = unparse_u16 ret (am_protocol_type m);
            ret = unparse_u8 ret (am_hardware_address_size m);
            ret = unparse_u8 ret (am_protocol_address_size m);
            ret = unparse_u16 ret (am_opcode m);
            ret = unparse_address ret (am_sender_ethernet_address m);
            ret = unparse_u32 ret (am_sender_ip_address m);
            ret = unparse_address ret (am_target_ethernet_address m);
            ret = unparse_u32 ret (am_target_ip_address m)
        in Inr ret)"

section \<open>Lemmas\<close>

lemma unparse_address_eq: "unparse_address ret a = ret @ a"
  unfolding unparse_address_def by (induction a arbitrary: ret) (simp_all add: unparse_u_eq)

lemma parse_address_total:
  "buffer_ok (np_buffer p) \<Longrightarrow> \<exists>a' p'. parse_address a p = Inr (a', p') \<and> length a' = length a \<and> buffer_ok (np_buffer p')"
proof (induction a arbitrary: p)
  case (Cons b a)
  from Cons.IH [of "nx 1 p"] Cons.prems show ?case by fastforce
qed simp

lemma parse_address_back:
  "reads p (a @ s) \<Longrightarrow> length a0 = length a \<Longrightarrow> \<exists>p'. parse_address a0 p = Inr (a, p') \<and> reads p' s"
proof (induction a0 arbitrary: p a)
  case (Cons b0 a0)
  then obtain b a' where a: "a = b # a'" by (cases a) auto
  have "parse_u8 p = Inr (b, nx 1 p)" "reads (nx 1 p) (a' @ s)"
    using Cons.prems(1) a reads_nx [of p _ 1] read_back(1) [of p 1 b "a' @ s"] by (auto simp: reads_def be_bytes_def)
  then show ?case using Cons.IH [of "nx 1 p" a'] Cons.prems(2) a by auto
qed simp

lemma yields_address:
  assumes "reads p (a @ s)" and "length a0 = length a" and "\<And>p'. reads p' s \<Longrightarrow> yields c (f (a, p')) x rest"
  shows "yields c (bind_res (parse_address a0 p) f) x rest"
  using parse_address_back [OF assms(1,2)] assms(3) by auto

lemma returns_address:
  assumes "reads p (a @ s)" and "length a0 = length a" and "\<And>p'. reads p' s \<Longrightarrow> f (a, p') = r"
  shows "bind_res (parse_address a0 p) f = r"
  using parse_address_back [OF assms(1,2)] assms(3) by auto

text \<open>The headers and messages the code handles have addresses of six bytes.\<close>

definition eth_ok :: "EthernetHeader \<Rightarrow> bool" where
  "eth_ok h \<longleftrightarrow> length (eh_dst h) = 6 \<and> length (eh_src h) = 6"

definition arp_ok :: "ARPMessage \<Rightarrow> bool" where
  "arp_ok m \<longleftrightarrow> length (am_sender_ethernet_address m) = 6 \<and> length (am_target_ethernet_address m) = 6"

lemma default_ok [simp]: "eth_ok EthernetHeader0" "eth_ok (ef_header EthernetFrame0)" "arp_ok ARPMessage0"
  by (simp_all add: eth_ok_def arp_ok_def EthernetHeader0_def EthernetFrame0_def ARPMessage0_def)

lemma ethernet_header_roundtrip:
  assumes "reads p (ethernet_header_serialize h @ rest)" and "eth_ok h" and "eth_ok h0"
  shows "yields NoError (ethernet_header_parse h0 p) h rest"
proof -
  have l: "length (eh_dst h) = 6" "length (eh_src h) = 6" "length (eh_dst h0) = length (eh_dst h)"
    "length (eh_src h0) = length (eh_src h)"
    using assms(2,3) by (simp_all add: eth_ok_def)
  have r: "reads p (eh_dst h @ eh_src h @ be_bytes 2 (unat (eh_type h)) @ rest)"
    using assms(1) by (simp add: ethernet_header_serialize_def unparse_address_eq unparse_u_eq)
  then have "\<not> buf_size (np_buffer p) < 14" using l by (simp add: reads_def buf_size_def)
  with r show ?thesis
    unfolding ethernet_header_parse_def
    apply (simp only: if_False)
    apply (erule yields_address [OF _ l(3)], simp only: prod.case)
    apply (erule yields_address [OF _ l(4)], simp only: prod.case)
    apply (erule yields_step, simp only: prod.case)
    apply (auto intro!: yields_done simp: reads_error)
    done
qed

lemma arp_parse_back:
  assumes "arp_serialize m = Inr s" and "arp_ok m" and "arp_ok m0"
  shows "buffer_ok buf \<Longrightarrow> buffer_str buf = s \<Longrightarrow> arp_parse m0 buf = Inr (NoError, m)" "length s = 28"
proof -
  have sup: "arp_supported m" using assms(1) by (auto simp: arp_serialize_def split: if_splits)
  have l: "length (am_sender_ethernet_address m) = 6" "length (am_target_ethernet_address m) = 6"
    "length (am_sender_ethernet_address m0) = length (am_sender_ethernet_address m)"
    "length (am_target_ethernet_address m0) = length (am_target_ethernet_address m)"
    using assms(2,3) by (simp_all add: arp_ok_def)
  have s: "s = be_bytes 2 (unat (am_hardware_type m)) @ be_bytes 2 (unat (am_protocol_type m)) @
      am_hardware_address_size m # am_protocol_address_size m # be_bytes 2 (unat (am_opcode m)) @
      am_sender_ethernet_address m @ be_bytes 4 (unat (am_sender_ip_address m)) @
      am_target_ethernet_address m @ be_bytes 4 (unat (am_target_ip_address m)) @ []"
    using assms(1) by (auto simp: arp_serialize_def Let_def unparse_address_eq unparse_u_eq split: if_splits)
  then show len: "length s = 28" using l by simp
  assume buf: "buffer_ok buf" "buffer_str buf = s"
  have "reads (NetParser buf) s" using reads_NetParser [OF buf(1)] buf(2) by simp
  have sup': "arp_supported (m0\<lparr>am_hardware_type := am_hardware_type m, am_protocol_type := am_protocol_type m,
      am_hardware_address_size := am_hardware_address_size m, am_protocol_address_size := am_protocol_address_size m,
      am_opcode := am_opcode m\<rparr>)"
    using sup by (simp add: arp_supported_def)
  have n: "\<not> buf_size (np_buffer (NetParser buf)) < 28" using len buf(2) by (simp add: buf_size_def NetParser_def)
  show "arp_parse m0 buf = Inr (NoError, m)"
    using \<open>reads (NetParser buf) s\<close>
    unfolding arp_parse_def Let_def if_not_P [OF n]
    apply (subst (asm) s)
    apply (erule returns_step, simp only: prod.case)+
    apply (simp only: sup' if_False not_True_eq_False)
    apply (erule returns_address, simp add: l, simp only: prod.case)
    apply (erule returns_step, simp only: prod.case)
    apply (erule returns_address, simp add: l, simp only: prod.case)
    apply (erule returns_step, simp only: prod.case)
    apply (auto simp: reads_error intro: ARPMessage.equality)
    done
qed

lemma arp_roundtrip_aux:
  assumes "arp_serialize m = Inr s" and "arp_ok m" and "arp_ok m0"
  shows "arp_parse m0 (Buffer s) = Inr (NoError, m)" "length s = 28"
  proof -
  show "length s = 28" by (rule arp_parse_back(2) [OF assms])
  then show "arp_parse m0 (Buffer s) = Inr (NoError, m)" using arp_parse_back(1) [OF assms, of "Buffer s"] by simp
qed

lemma arp_parse_safe:
  assumes "buffer_ok buf"
  shows "\<exists>r m'. arp_parse m0 buf = Inr (r, m') \<and> (r = NoError \<longrightarrow> arp_supported m' \<and> 28 \<le> length (buffer_str buf)) \<and>
    (arp_ok m0 \<longrightarrow> arp_ok m')"
proof (cases "buf_size buf < 28")
  case True
  then show ?thesis by (simp add: arp_parse_def NetParser_def)
next
  case False
  let ?p = "nx 2 (nx 1 (nx 1 (nx 2 (nx 2 (NetParser buf)))))"
  let ?m = "m0\<lparr>am_hardware_type := rd 2 (NetParser buf), am_protocol_type := rd 2 (nx 2 (NetParser buf)),
    am_hardware_address_size := rd 1 (nx 2 (nx 2 (NetParser buf))),
    am_protocol_address_size := rd 1 (nx 1 (nx 2 (nx 2 (NetParser buf)))),
    am_opcode := rd 2 (nx 1 (nx 1 (nx 2 (nx 2 (NetParser buf)))))\<rparr>"
  have ok: "buffer_ok (np_buffer (NetParser buf))" using assms by (simp add: NetParser_def)
  obtain a1 p1 where a1: "parse_address (am_sender_ethernet_address m0) ?p = Inr (a1, p1)" "buffer_ok (np_buffer p1)"
    and l1: "length a1 = length (am_sender_ethernet_address m0)"
    using parse_address_total [of ?p "am_sender_ethernet_address m0"] ok by auto
  obtain a2 p2 where a2: "parse_address (am_target_ethernet_address m0) (nx 4 p1) = Inr (a2, p2)" "buffer_ok (np_buffer p2)"
    and l2: "length a2 = length (am_target_ethernet_address m0)"
    using parse_address_total [of "nx 4 p1" "am_target_ethernet_address m0"] a1(2) by auto
  have size: "buf_size (np_buffer (NetParser buf)) = buf_size buf" by (simp add: NetParser_def)
  show ?thesis
  proof (cases "arp_supported ?m")
    case True
    then show ?thesis
      using False ok a1 a2 l1 l2 size by (simp add: arp_parse_def Let_def arp_supported_def arp_ok_def buf_size_def del: One_nat_def)
  next
    case unsup: False
    then show ?thesis
      using False ok size by (simp add: arp_parse_def Let_def arp_ok_def del: One_nat_def)
  qed
qed

lemma ethernet_frame_wire:
  assumes "eth_ok (ef_header f)" and "eth_ok (ef_header f0)" and "buffer_ok buf"
    and "buffer_str buf = concatenate (ethernet_frame_serialize f)"
  shows "\<exists>f' t. ethernet_frame_parse f0 buf = Inr (NoError, f') \<and> ef_header f' = ef_header f \<and>
    ef_payload f' = [t] \<and> buffer_ok t \<and> buffer_str t = concatenate (ef_payload f)"
proof -
  have "buffer_str buf = ethernet_header_serialize (ef_header f) @ concatenate (ef_payload f)"
    using assms(4) by (simp add: ethernet_frame_serialize_def BufferList_of_string_def)
  then have "reads (NetParser buf) (ethernet_header_serialize (ef_header f) @ concatenate (ef_payload f))"
    using reads_NetParser [OF assms(3)] by simp
  from ethernet_header_roundtrip [OF this assms(1,2)] show ?thesis
    by (auto simp: yields_def ethernet_frame_parse_def BufferList_def reads_def)
qed

definition frame_fits :: "EthernetFrame \<Rightarrow> bool" where
  "frame_fits f \<longleftrightarrow> eth_ok (ef_header f) \<and> length (concatenate (ef_payload f)) < 2 ^ 32"

definition frame_same :: "EthernetFrame \<Rightarrow> EthernetFrame \<Rightarrow> bool" where
  "frame_same f f' \<longleftrightarrow> ef_header f' = ef_header f \<and> concatenate (ef_payload f') = concatenate (ef_payload f)"

interpretation ew: wire_format "\<lambda>f. Inr (ethernet_frame_serialize f)" "ethernet_frame_parse EthernetFrame0" frame_fits frame_same
proof
  fix f assume f: "frame_fits f"
  have "length (concatenate (ethernet_frame_serialize f)) < 2 ^ 64"
    using f by (simp add: frame_fits_def ethernet_frame_serialize_def BufferList_of_string_def ethernet_header_serialize_def
        unparse_address_eq unparse_u_eq eth_ok_def)
  then show "\<exists>bl. Inr (ethernet_frame_serialize f) = (Inr bl :: buffer_list res) \<and> length (concatenate bl) < 2 ^ 64 \<and>
      (\<forall>buf. buffer_ok buf \<and> buffer_str buf = concatenate bl \<longrightarrow>
         (\<exists>y. ethernet_frame_parse EthernetFrame0 buf = Inr (NoError, y) \<and> frame_same f y))"
  proof (intro exI [of _ "ethernet_frame_serialize f"] conjI allI impI)
    fix buf assume buf: "buffer_ok buf \<and> buffer_str buf = concatenate (ethernet_frame_serialize f)"
    obtain f' t where "ethernet_frame_parse EthernetFrame0 buf = Inr (NoError, f')" "ef_header f' = ef_header f"
      "ef_payload f' = [t]" "buffer_str t = concatenate (ef_payload f)"
      using ethernet_frame_wire [of f EthernetFrame0 buf] buf f by (auto simp: frame_fits_def)
    then show "\<exists>y. ethernet_frame_parse EthernetFrame0 buf = Inr (NoError, y) \<and> frame_same f y"
      by (simp add: frame_same_def)
  qed simp
qed (auto simp: frame_fits_def frame_same_def)

definition arp_fits :: "ARPMessage \<Rightarrow> bool" where
  "arp_fits m \<longleftrightarrow> arp_ok m \<and> arp_supported m"

definition arp_encode :: "ARPMessage \<Rightarrow> buffer_list res" where
  "arp_encode m = bind_res (arp_serialize m) (\<lambda>s. Inr (BufferList_of_string s))"

interpretation aw: wire_format arp_encode "arp_parse ARPMessage0" arp_fits "(=)"
proof
  fix m assume m: "arp_fits m"
  then obtain s where s: "arp_serialize m = Inr s" by (auto simp: arp_fits_def arp_serialize_def Let_def)
  show "\<exists>bl. arp_encode m = Inr bl \<and> length (concatenate bl) < 2 ^ 64 \<and>
      (\<forall>buf. buffer_ok buf \<and> buffer_str buf = concatenate bl \<longrightarrow> (\<exists>y. arp_parse ARPMessage0 buf = Inr (NoError, y) \<and> m = y))"
    using arp_parse_back(1) [OF s, of ARPMessage0] arp_parse_back(2) [OF s, of ARPMessage0] s m
    by (simp add: arp_encode_def arp_fits_def BufferList_of_string_def)
qed auto

section \<open>Properties\<close>

text \<open>
  C17. Round trip of an Ethernet frame: parsing a serialised frame gives \<^verbatim>\<open>NoError\<close>, the same header and
  the same payload.
\<close>

theorem ethernet_frame_roundtrip:
  assumes "eth_ok (ef_header f)" and "eth_ok (ef_header f0)" and "length (concatenate (ef_payload f)) < 2 ^ 32"
  shows "\<exists>f'. ethernet_frame_parse f0 (Buffer (concatenate (ethernet_frame_serialize f))) = Inr (NoError, f') \<and>
    ef_header f' = ef_header f \<and> concatenate (ef_payload f') = concatenate (ef_payload f)"
  using ew.roundtrip [of f] ethernet_frame_wire [OF assms(1,2), of "Buffer (concatenate (ethernet_frame_serialize f))"]
    ew.wire [of f] assms by (auto simp: frame_fits_def)

theorem ethernet_frame_roundtrip_witness:
  "\<exists>f'. ethernet_frame_parse EthernetFrame0 (Buffer (concatenate (ethernet_frame_serialize
       \<lparr>ef_header = \<lparr>eh_dst = ETHERNET_BROADCAST, eh_src = [1, 2, 3, 4, 5, 6], eh_type = TYPE_ARP\<rparr>,
        ef_payload = [Buffer [7, 8], Buffer [9]]\<rparr>))) = Inr (NoError, f') \<and>
     eh_src (ef_header f') = [1, 2, 3, 4, 5, 6] \<and> concatenate (ef_payload f') = [7, 8, 9]"
  using ethernet_frame_roundtrip [of "\<lparr>ef_header = \<lparr>eh_dst = ETHERNET_BROADCAST, eh_src = [1, 2, 3, 4, 5, 6],
      eh_type = TYPE_ARP\<rparr>, ef_payload = [Buffer [7, 8], Buffer [9]]\<rparr>" EthernetFrame0]
  by (auto simp: eth_ok_def ETHERNET_BROADCAST_def EthernetFrame0_def EthernetHeader0_def)

text \<open>
  C18. An ARP message serialises exactly when its fields are supported, to 28 bytes, and parsing those
  bytes into any message object gives \<^verbatim>\<open>NoError\<close> and the same message. Conversely \<^verbatim>\<open>parse\<close> reports
  \<^verbatim>\<open>NoError\<close> only for supported messages of at least 28 bytes, and never throws.
\<close>

theorem arp_roundtrip:
  assumes "arp_ok m" and "arp_ok m0" and "buffer_ok buf"
  shows "(arp_supported m \<longrightarrow> (\<exists>s. arp_serialize m = Inr s \<and> length s = 28 \<and> arp_parse m0 (Buffer s) = Inr (NoError, m))) \<and>
    (\<not> arp_supported m \<longrightarrow> (\<exists>e. arp_serialize m = Inl (Runtime_error e))) \<and>
    (\<exists>r m'. arp_parse m0 buf = Inr (r, m') \<and> (r = NoError \<longrightarrow> arp_supported m' \<and> 28 \<le> length (buffer_str buf)))"
proof (intro conjI impI)
  assume "arp_supported m"
  then obtain s where s: "arp_serialize m = Inr s" by (simp add: arp_serialize_def Let_def)
  then show "\<exists>s. arp_serialize m = Inr s \<and> length s = 28 \<and> arp_parse m0 (Buffer s) = Inr (NoError, m)"
    using arp_roundtrip_aux [OF s assms(1,2)] by blast
next
  assume "\<not> arp_supported m"
  then show "\<exists>e. arp_serialize m = Inl (Runtime_error e)" by (simp add: arp_serialize_def)
next
  show "\<exists>r m'. arp_parse m0 buf = Inr (r, m') \<and> (r = NoError \<longrightarrow> arp_supported m' \<and> 28 \<le> length (buffer_str buf))"
    using arp_parse_safe [OF assms(3)] by blast
qed

theorem arp_roundtrip_witness:
  "\<exists>s. arp_serialize (ARPMessage0\<lparr>am_opcode := OPCODE_REPLY, am_target_ip_address := 7\<rparr>) = Inr s \<and>
     arp_parse ARPMessage0 (Buffer s) = Inr (NoError, ARPMessage0\<lparr>am_opcode := OPCODE_REPLY, am_target_ip_address := 7\<rparr>)"
  using arp_roundtrip [of "ARPMessage0\<lparr>am_opcode := OPCODE_REPLY, am_target_ip_address := 7\<rparr>" ARPMessage0 empty_Buffer]
  by (auto simp: arp_ok_def ARPMessage0_def arp_supported_def)

text \<open>
  C24. \<^verbatim>\<open>EthernetFrame::parse\<close> ignores the result of \<^verbatim>\<open>EthernetHeader::parse\<close>: for a byte string shorter than an
  Ethernet header, for which the header parser reports \<^verbatim>\<open>PacketTooShort\<close>, it reports \<^verbatim>\<open>NoError\<close>, keeps
  the header object as it was and takes the whole string as payload.
\<close>

theorem ethernet_frame_accepts_short:
  assumes "length (buffer_str buf) < 14"
  shows "ethernet_header_parse (ef_header f) (NetParser buf) = Inr (PacketTooShort, ef_header f, NetParser buf) \<and>
    ethernet_frame_parse f buf = Inr (NoError, f\<lparr>ef_payload := [buf]\<rparr>)"
  using assms
  by (simp add: ethernet_header_parse_def ethernet_frame_parse_def buf_size_def NetParser_def BufferList_def)

theorem ethernet_frame_accepts_short_witness:
  "ethernet_frame_parse EthernetFrame0 (Buffer [1]) = Inr (NoError, EthernetFrame0\<lparr>ef_payload := [Buffer [1]]\<rparr>)"
  using ethernet_frame_accepts_short [of "Buffer [1]" EthernetFrame0] by simp

end
