(* ===== verification/Network_Interface.thy ===== *)
theory Network_Interface
  imports Addresses IPv4_Datagram Ethernet_ARP "HOL-Library.AList"
begin

text \<open>
  \<^verbatim>\<open>libsponge/network_interface.{hh,cc}\<close>: the interface between IP and Ethernet with its ARP cache, the table
  of recent ARP requests and the datagrams that wait for an answer. The three \<^verbatim>\<open>unordered_map\<close>s are
  association lists; the code never depends on their order. Every operation that may throw returns a
  \<^typ>\<open>'a res\<close>; the debugging output on \<^verbatim>\<open>cerr\<close> is left out, but not what it evaluates.
\<close>

section \<open>Definitions\<close>

definition ARP_ENTRY_TTL_MS :: u64 where
  "ARP_ENTRY_TTL_MS = 30000"

definition ARP_REPLY_TTL_MS :: u64 where
  "ARP_REPLY_TTL_MS = 5000"

record network_interface =
  ni_ethernet_address :: EthernetAddress
  ni_ip_address :: Address
  ni_frames_out :: "EthernetFrame list"
  ni_arp_table :: "(u32 \<times> EthernetAddress \<times> u64) list"
  ni_arp_request_time :: "(u32 \<times> u64) list"
  ni_arp_wait_ipdata :: "(u32 \<times> IPv4Datagram list) list"

definition NetworkInterface :: "EthernetAddress \<Rightarrow> Address \<Rightarrow> network_interface res" where
  "NetworkInterface ethernet_address ip_address =
     bind_res (addr_ip ip_address) (\<lambda>_.
       Inr \<lparr>ni_ethernet_address = ethernet_address, ni_ip_address = ip_address, ni_frames_out = [],
            ni_arp_table = [], ni_arp_request_time = [], ni_arp_wait_ipdata = []\<rparr>)"

text \<open>\<^verbatim>\<open>insert\<close> and \<^verbatim>\<open>emplace\<close> of the standard maps: an existing entry is kept.\<close>

definition map_insert :: "'k \<Rightarrow> 'v \<Rightarrow> ('k \<times> 'v) list \<Rightarrow> ('k \<times> 'v) list" where
  "map_insert k v m = (if map_of m k = None then AList.update k v m else m)"

definition push_datagram :: "network_interface \<Rightarrow> EthernetAddress \<Rightarrow> u16 \<Rightarrow> buffer_list \<Rightarrow> network_interface" where
  "push_datagram ni dst type payload =
     (let frame = EthernetFrame0;
          frame = frame\<lparr>ef_header := (ef_header frame)\<lparr>eh_src := ni_ethernet_address ni\<rparr>\<rparr>;
          frame = frame\<lparr>ef_header := (ef_header frame)\<lparr>eh_dst := dst\<rparr>\<rparr>;
          frame = frame\<lparr>ef_header := (ef_header frame)\<lparr>eh_type := type\<rparr>\<rparr>;
          frame = frame\<lparr>ef_payload := payload\<rparr>
      in ni\<lparr>ni_frames_out := ni_frames_out ni @ [frame]\<rparr>)"

definition send_datagram :: "network_interface \<Rightarrow> IPv4Datagram \<Rightarrow> Address \<Rightarrow> network_interface res" where
  "send_datagram ni dgram next_hop =
     bind_res (ipv4_numeric next_hop) (\<lambda>next_hop_ip.
       case map_of (ni_arp_table ni) next_hop_ip of
         Some (eth, _) \<Rightarrow>
           bind_res (ipv4_datagram_serialize dgram) (\<lambda>payload. Inr (push_datagram ni eth TYPE_IPv4 payload))
       | None \<Rightarrow>
           (case map_of (ni_arp_request_time ni) next_hop_ip of
              None \<Rightarrow>
                bind_res (ipv4_numeric (ni_ip_address ni)) (\<lambda>my_ip.
                  let arp_request = ARPMessage0\<lparr>am_opcode := OPCODE_REQUEST,
                        am_sender_ethernet_address := ni_ethernet_address ni, am_sender_ip_address := my_ip,
                        am_target_ethernet_address := replicate 6 0, am_target_ip_address := next_hop_ip\<rparr>
                  in bind_res (arp_serialize arp_request) (\<lambda>payload.
                       let ni = push_datagram ni ETHERNET_BROADCAST TYPE_ARP (BufferList_of_string payload) in
                       Inr (ni\<lparr>ni_arp_request_time := map_insert next_hop_ip 0 (ni_arp_request_time ni),
                               ni_arp_wait_ipdata := map_insert next_hop_ip [dgram] (ni_arp_wait_ipdata ni)\<rparr>)))
            | Some _ \<Rightarrow>
                let waiting = (case map_of (ni_arp_wait_ipdata ni) next_hop_ip of None \<Rightarrow> [] | Some ds \<Rightarrow> ds) in
                Inr (ni\<lparr>ni_arp_wait_ipdata := AList.update next_hop_ip (waiting @ [dgram]) (ni_arp_wait_ipdata ni)\<rparr>)))"

text \<open>The loop of \<^verbatim>\<open>recv_frame\<close> over the datagrams that waited for an address.\<close>

fun send_waiting :: "network_interface \<Rightarrow> EthernetAddress \<Rightarrow> IPv4Datagram list \<Rightarrow> network_interface res" where
  "send_waiting ni eth [] = Inr ni"
| "send_waiting ni eth (data # ip_data) =
     bind_res (ipv4_datagram_serialize data) (\<lambda>payload. send_waiting (push_datagram ni eth TYPE_IPv4 payload) eth ip_data)"

definition recv_frame :: "network_interface \<Rightarrow> EthernetFrame \<Rightarrow> (network_interface \<times> IPv4Datagram option) res" where
  "recv_frame ni frame =
     (if \<not> (eh_dst (ef_header frame) = ni_ethernet_address ni \<or> eh_dst (ef_header frame) = ETHERNET_BROADCAST)
      then Inr (ni, None)
      else
        let frame_type = eh_type (ef_header frame) in
        if frame_type = TYPE_IPv4 then
          bind_res (bl_to_Buffer (ef_payload frame)) (\<lambda>buf.
          bind_res (ipv4_datagram_parse IPv4Datagram0 buf) (\<lambda>(result, ip_data).
            if result = NoError then Inr (ni, Some ip_data) else Inr (ni, None)))
        else if frame_type = TYPE_ARP then
          bind_res (bl_to_Buffer (ef_payload frame)) (\<lambda>buf.
          bind_res (arp_parse ARPMessage0 buf) (\<lambda>(result, arp_data).
            if result \<noteq> NoError then Inr (ni, None)
            else
              let sender_ip = am_sender_ip_address arp_data;
                  sender_eth = am_sender_ethernet_address arp_data;
                  ni = ni\<lparr>ni_arp_table := AList.update sender_ip (sender_eth, 0) (ni_arp_table ni)\<rparr>
              in bind_res
                (if am_opcode arp_data = OPCODE_REQUEST then
                   bind_res (ipv4_numeric (ni_ip_address ni)) (\<lambda>my_ip.
                     if am_target_ip_address arp_data = my_ip then
                       let arp_reply = ARPMessage0\<lparr>am_opcode := OPCODE_REPLY, am_sender_ip_address := my_ip,
                             am_sender_ethernet_address := ni_ethernet_address ni,
                             am_target_ip_address := sender_ip, am_target_ethernet_address := sender_eth\<rparr>
                       in bind_res (arp_serialize arp_reply) (\<lambda>payload.
                            Inr (push_datagram ni sender_eth TYPE_ARP (BufferList_of_string payload)))
                     else Inr ni)
                 else Inr ni)
                (\<lambda>ni. case map_of (ni_arp_wait_ipdata ni) sender_ip of
                         Some ip_data \<Rightarrow>
                           bind_res (send_waiting ni sender_eth ip_data) (\<lambda>ni.
                             Inr (ni\<lparr>ni_arp_wait_ipdata := AList.delete sender_ip (ni_arp_wait_ipdata ni)\<rparr>, None))
                       | None \<Rightarrow> Inr (ni, None))))
        else Inr (ni, None))"

text \<open>The two loops of \<^verbatim>\<open>tick\<close>: each entry is aged, and erased or kept.\<close>

fun tick_arp_table :: "u64 \<Rightarrow> (u32 \<times> EthernetAddress \<times> u64) list \<Rightarrow> (u32 \<times> EthernetAddress \<times> u64) list" where
  "tick_arp_table ms [] = []"
| "tick_arp_table ms ((ip, eth, t) # rest) =
     (let t = add64 t ms in
      if ARP_ENTRY_TTL_MS \<le> t then tick_arp_table ms rest else (ip, eth, t) # tick_arp_table ms rest)"

fun tick_request_time :: "u64 \<Rightarrow> (u32 \<times> u64) list \<Rightarrow> (u32 \<times> IPv4Datagram list) list \<Rightarrow>
    (u32 \<times> u64) list \<times> (u32 \<times> IPv4Datagram list) list" where
  "tick_request_time ms [] wait = ([], wait)"
| "tick_request_time ms ((ip, t) # rest) wait =
     (let t = add64 t ms in
      if ARP_REPLY_TTL_MS \<le> t then
        tick_request_time ms rest (if map_of wait ip \<noteq> None then AList.delete ip wait else wait)
      else let (rest, wait) = tick_request_time ms rest wait in ((ip, t) # rest, wait))"

definition interface_tick :: "network_interface \<Rightarrow> u64 \<Rightarrow> network_interface" where
  "interface_tick ni ms =
     (let ni = ni\<lparr>ni_arp_table := tick_arp_table ms (ni_arp_table ni)\<rparr>;
          (requests, wait) = tick_request_time ms (ni_arp_request_time ni) (ni_arp_wait_ipdata ni)
      in ni\<lparr>ni_arp_request_time := requests, ni_arp_wait_ipdata := wait\<rparr>)"

section \<open>Lemmas\<close>

declare map_of_eq_Some_iff [simp del] Some_eq_map_of_iff [simp del]

lemmas ni_consts = ARP_ENTRY_TTL_MS_def ARP_REPLY_TTL_MS_def

definition waiting :: "network_interface \<Rightarrow> u32 \<Rightarrow> IPv4Datagram list" where
  "waiting ni ip = (case map_of (ni_arp_wait_ipdata ni) ip of None \<Rightarrow> [] | Some ds \<Rightarrow> ds)"

definition ni_ip :: "network_interface \<Rightarrow> u32" where
  "ni_ip ni = (case ipv4_numeric (ni_ip_address ni) of Inr a \<Rightarrow> a | Inl _ \<Rightarrow> 0)"

text \<open>The frames the interface sends.\<close>

definition data_frame :: "EthernetAddress \<Rightarrow> EthernetAddress \<Rightarrow> IPv4Datagram \<Rightarrow> EthernetFrame" where
  "data_frame src dst d =
     \<lparr>ef_header = \<lparr>eh_dst = dst, eh_src = src, eh_type = TYPE_IPv4\<rparr>,
      ef_payload = (case ipv4_datagram_serialize d of Inr bl \<Rightarrow> bl | Inl _ \<Rightarrow> [])\<rparr>"

definition arp_frame :: "EthernetAddress \<Rightarrow> EthernetAddress \<Rightarrow> ARPMessage \<Rightarrow> EthernetFrame" where
  "arp_frame src dst m =
     \<lparr>ef_header = \<lparr>eh_dst = dst, eh_src = src, eh_type = TYPE_ARP\<rparr>,
      ef_payload = (case arp_serialize m of Inr s \<Rightarrow> BufferList_of_string s | Inl _ \<Rightarrow> [])\<rparr>"

definition arp_request_of :: "network_interface \<Rightarrow> u32 \<Rightarrow> ARPMessage" where
  "arp_request_of ni ip =
     ARPMessage0\<lparr>am_opcode := OPCODE_REQUEST, am_sender_ethernet_address := ni_ethernet_address ni,
       am_sender_ip_address := ni_ip ni, am_target_ethernet_address := replicate 6 0, am_target_ip_address := ip\<rparr>"

definition arp_reply_of :: "network_interface \<Rightarrow> ARPMessage \<Rightarrow> ARPMessage" where
  "arp_reply_of ni m =
     ARPMessage0\<lparr>am_opcode := OPCODE_REPLY, am_sender_ip_address := ni_ip ni,
       am_sender_ethernet_address := ni_ethernet_address ni, am_target_ip_address := am_sender_ip_address m,
       am_target_ethernet_address := am_sender_ethernet_address m\<rparr>"

definition request_frame :: "network_interface \<Rightarrow> u32 \<Rightarrow> EthernetFrame" where
  "request_frame ni ip = arp_frame (ni_ethernet_address ni) ETHERNET_BROADCAST (arp_request_of ni ip)"

definition reply_frame :: "network_interface \<Rightarrow> ARPMessage \<Rightarrow> EthernetFrame" where
  "reply_frame ni m = arp_frame (ni_ethernet_address ni) (am_sender_ethernet_address m) (arp_reply_of ni m)"

text \<open>
  The invariant: the tables are maps, nothing older than its lifetime is kept, datagrams wait only for
  addresses with a recent request, and everything that is sent can be serialised.
\<close>

definition ni_inv :: "network_interface \<Rightarrow> bool" where
  "ni_inv ni \<longleftrightarrow>
     distinct (map fst (ni_arp_table ni)) \<and> distinct (map fst (ni_arp_request_time ni)) \<and>
     distinct (map fst (ni_arp_wait_ipdata ni)) \<and>
     (\<forall>ip. map_of (ni_arp_wait_ipdata ni) ip \<noteq> None \<longrightarrow> map_of (ni_arp_request_time ni) ip \<noteq> None) \<and>
     (\<forall>ip eth t. map_of (ni_arp_table ni) ip = Some (eth, t) \<longrightarrow> length eth = 6 \<and> t < ARP_ENTRY_TTL_MS) \<and>
     (\<forall>ip t. map_of (ni_arp_request_time ni) ip = Some t \<longrightarrow> t < ARP_REPLY_TTL_MS) \<and>
     (\<forall>ip ds. map_of (ni_arp_wait_ipdata ni) ip = Some ds \<longrightarrow> (\<forall>d \<in> set ds. dgram_ok d)) \<and>
     length (ni_ethernet_address ni) = 6 \<and> ipv4_numeric (ni_ip_address ni) = Inr (ni_ip ni)"

lemma arp_request_ok [simp]: "arp_supported (arp_request_of ni ip)" "arp_supported (arp_reply_of ni m)"
  by (simp_all add: arp_supported_def arp_request_of_def arp_reply_of_def ARPMessage0_def)

lemma arp_request_addresses:
  "length (ni_ethernet_address ni) = 6 \<Longrightarrow> arp_ok (arp_request_of ni ip)"
  "length (ni_ethernet_address ni) = 6 \<Longrightarrow> arp_ok m \<Longrightarrow> arp_ok (arp_reply_of ni m)"
  by (simp_all add: arp_ok_def arp_request_of_def arp_reply_of_def)

lemma arp_serialize_supported: "arp_supported m \<Longrightarrow> \<exists>s. arp_serialize m = Inr s"
  by (simp add: arp_serialize_def Let_def)

lemma push_datagram_eq:
  "push_datagram ni dst type payload =
     ni\<lparr>ni_frames_out := ni_frames_out ni @
        [\<lparr>ef_header = \<lparr>eh_dst = dst, eh_src = ni_ethernet_address ni, eh_type = type\<rparr>, ef_payload = payload\<rparr>]\<rparr>"
  by (simp add: push_datagram_def Let_def EthernetFrame0_def EthernetHeader0_def)

lemma push_data_frame:
  "ipv4_datagram_serialize d = Inr bl \<Longrightarrow>
     push_datagram ni dst TYPE_IPv4 bl = ni\<lparr>ni_frames_out := ni_frames_out ni @ [data_frame (ni_ethernet_address ni) dst d]\<rparr>"
  by (simp add: push_datagram_eq data_frame_def)

lemma push_arp_frame:
  "arp_serialize m = Inr s \<Longrightarrow>
     push_datagram ni dst TYPE_ARP (BufferList_of_string s) =
       ni\<lparr>ni_frames_out := ni_frames_out ni @ [arp_frame (ni_ethernet_address ni) dst m]\<rparr>"
  by (simp add: push_datagram_eq arp_frame_def)

lemma dgram_serializes: "dgram_ok d \<Longrightarrow> \<exists>bl. ipv4_datagram_serialize d = Inr bl"
  using dw.wire by blast

lemma send_waiting_eq:
  "\<forall>d \<in> set ds. dgram_ok d \<Longrightarrow>
     send_waiting ni eth ds =
       Inr (ni\<lparr>ni_frames_out := ni_frames_out ni @ map (data_frame (ni_ethernet_address ni) eth) ds\<rparr>)"
proof (induction ds arbitrary: ni)
  case (Cons d ds)
  then obtain bl where "ipv4_datagram_serialize d = Inr bl" using dgram_serializes [of d] by auto
  then show ?case using Cons by (simp add: push_data_frame)
qed simp

text \<open>What \<^verbatim>\<open>send_datagram\<close> does in its three cases.\<close>

definition sent :: "network_interface \<Rightarrow> IPv4Datagram \<Rightarrow> u32 \<Rightarrow> network_interface" where
  "sent ni d hop =
     (case map_of (ni_arp_table ni) hop of
        Some (eth, _) \<Rightarrow> ni\<lparr>ni_frames_out := ni_frames_out ni @ [data_frame (ni_ethernet_address ni) eth d]\<rparr>
      | None \<Rightarrow>
          (case map_of (ni_arp_request_time ni) hop of
             None \<Rightarrow> ni\<lparr>ni_frames_out := ni_frames_out ni @ [request_frame ni hop],
                        ni_arp_request_time := AList.update hop 0 (ni_arp_request_time ni),
                        ni_arp_wait_ipdata := AList.update hop [d] (ni_arp_wait_ipdata ni)\<rparr>
           | Some _ \<Rightarrow> ni\<lparr>ni_arp_wait_ipdata := AList.update hop (waiting ni hop @ [d]) (ni_arp_wait_ipdata ni)\<rparr>))"

lemma ni_inv_wait_request:
  "ni_inv ni \<Longrightarrow> map_of (ni_arp_request_time ni) ip = None \<Longrightarrow> map_of (ni_arp_wait_ipdata ni) ip = None"
  unfolding ni_inv_def by blast

lemma send_datagram_eq:
  assumes "ni_inv ni" and "dgram_ok d" and "ipv4_numeric next_hop = Inr hop"
  shows "send_datagram ni d next_hop = Inr (sent ni d hop)"
proof -
  obtain bl where "ipv4_datagram_serialize d = Inr bl" using dgram_serializes [OF assms(2)] by auto
  moreover obtain s where "arp_serialize (arp_request_of ni hop) = Inr s" using arp_serialize_supported by fastforce
  moreover have "ipv4_numeric (ni_ip_address ni) = Inr (ni_ip ni)" using assms(1) by (simp add: ni_inv_def)
  moreover note ni_inv_wait_request [OF assms(1), of hop]
  ultimately show ?thesis
    using assms(3)
    by (auto simp: send_datagram_def sent_def push_data_frame push_arp_frame request_frame_def map_insert_def
        waiting_def Let_def arp_request_of_def [symmetric] split: option.split)
qed

lemma delete_absent: "map_of al k = None \<Longrightarrow> AList.delete k al = al"
  by (simp add: map_of_eq_None_iff)

text \<open>What \<^verbatim>\<open>recv_frame\<close> does with an ARP message.\<close>

definition learned :: "network_interface \<Rightarrow> ARPMessage \<Rightarrow> network_interface" where
  "learned ni m =
     ni\<lparr>ni_arp_table := AList.update (am_sender_ip_address m) (am_sender_ethernet_address m, 0) (ni_arp_table ni),
       ni_frames_out := ni_frames_out ni @
         (if am_opcode m = OPCODE_REQUEST \<and> am_target_ip_address m = ni_ip ni then [reply_frame ni m] else []) @
         map (data_frame (ni_ethernet_address ni) (am_sender_ethernet_address m)) (waiting ni (am_sender_ip_address m)),
       ni_arp_wait_ipdata := AList.delete (am_sender_ip_address m) (ni_arp_wait_ipdata ni)\<rparr>"

lemma waiting_ok: "ni_inv ni \<Longrightarrow> d \<in> set (waiting ni ip) \<Longrightarrow> dgram_ok d"
  unfolding waiting_def ni_inv_def by (cases "map_of (ni_arp_wait_ipdata ni) ip") auto

lemma recv_arp_eq:
  assumes "ni_inv ni" and "eh_dst (ef_header f) = ni_ethernet_address ni \<or> eh_dst (ef_header f) = ETHERNET_BROADCAST"
    and "eh_type (ef_header f) = TYPE_ARP" and "bl_to_Buffer (ef_payload f) = Inr buf"
    and "arp_parse ARPMessage0 buf = Inr (NoError, m)"
  shows "recv_frame ni f = Inr (learned ni m, None)"
proof -
  let ?ip = "am_sender_ip_address m" and ?eth = "am_sender_ethernet_address m"
  obtain s where s: "arp_serialize (arp_reply_of ni m) = Inr s" using arp_serialize_supported by fastforce
  have ip: "ipv4_numeric (ni_ip_address ni) = Inr (ni_ip ni)" using assms(1) by (simp add: ni_inv_def)
  define ni1 where "ni1 = ni\<lparr>ni_arp_table := AList.update ?ip (?eth, 0) (ni_arp_table ni)\<rparr>"
  define ni2 where "ni2 = (if am_opcode m = OPCODE_REQUEST \<and> am_target_ip_address m = ni_ip ni
    then ni1\<lparr>ni_frames_out := ni_frames_out ni @ [reply_frame ni m]\<rparr> else ni1)"
  have w: "send_waiting ni2 ?eth (waiting ni ?ip) =
      Inr (ni2\<lparr>ni_frames_out := ni_frames_out ni2 @ map (data_frame (ni_ethernet_address ni2) ?eth) (waiting ni ?ip)\<rparr>)"
    using waiting_ok [OF assms(1)] by (intro send_waiting_eq) blast
  have types: "TYPE_ARP \<noteq> TYPE_IPv4" by (simp add: TYPE_ARP_def TYPE_IPv4_def)
  have "recv_frame ni f =
      (case map_of (ni_arp_wait_ipdata ni2) ?ip of
         Some ip_data \<Rightarrow> bind_res (send_waiting ni2 ?eth ip_data) (\<lambda>ni.
             Inr (ni\<lparr>ni_arp_wait_ipdata := AList.delete ?ip (ni_arp_wait_ipdata ni)\<rparr>, None))
       | None \<Rightarrow> Inr (ni2, None))"
    using assms(2-5) s ip types unfolding ni2_def ni1_def reply_frame_def
    by (cases "am_opcode m = OPCODE_REQUEST"; cases "am_target_ip_address m = ni_ip ni")
      (simp_all add: recv_frame_def Let_def arp_reply_of_def [symmetric] push_arp_frame reply_frame_def)
  also have "\<dots> = Inr (learned ni m, None)"
    using w by (auto simp: ni2_def ni1_def learned_def waiting_def delete_absent split: option.split)
  finally show ?thesis .
qed

text \<open>Ageing: an entry is kept while its new age is below its lifetime.\<close>

lemma tick_arp_table_keys:
  "fst ` set (tick_arp_table ms tab) \<subseteq> fst ` set tab"
  "distinct (map fst tab) \<Longrightarrow> distinct (map fst (tick_arp_table ms tab))"
proof -
  show 1: "fst ` set (tick_arp_table ms tab) \<subseteq> fst ` set tab" for ms tab
    by (induction ms tab rule: tick_arp_table.induct) (auto simp: Let_def)
  show "distinct (map fst tab) \<Longrightarrow> distinct (map fst (tick_arp_table ms tab))"
  proof (induction ms tab rule: tick_arp_table.induct)
    case (2 ms ip eth t rest)
    moreover have "ip \<notin> fst ` set (tick_arp_table ms rest)" using 2(3) 1 [of ms rest] by auto
    ultimately show ?case by (simp add: Let_def)
  qed simp
qed

lemma map_of_tick_arp_table:
  "distinct (map fst tab) \<Longrightarrow>
     map_of (tick_arp_table ms tab) ip =
       (case map_of tab ip of None \<Rightarrow> None
        | Some (eth, t) \<Rightarrow> if ARP_ENTRY_TTL_MS \<le> add64 t ms then None else Some (eth, add64 t ms))"
proof (induction ms tab rule: tick_arp_table.induct)
  case (2 ms i eth t rest)
  have "i \<notin> fst ` set (tick_arp_table ms rest)" using 2(3) tick_arp_table_keys(1) [of ms rest] by auto
  then have "map_of (tick_arp_table ms rest) i = None" by (simp add: map_of_eq_None_iff)
  with 2 show ?case by (auto simp: Let_def)
qed simp

lemma tick_request_time_keys:
  "fst ` set (fst (tick_request_time ms req wait)) \<subseteq> fst ` set req"
  "distinct (map fst req) \<Longrightarrow> distinct (map fst (fst (tick_request_time ms req wait)))"
  "distinct (map fst wait) \<Longrightarrow> distinct (map fst (snd (tick_request_time ms req wait)))"
proof -
  show 1: "fst ` set (fst (tick_request_time ms req wait)) \<subseteq> fst ` set req" for ms req wait
    by (induction ms req wait rule: tick_request_time.induct) (simp_all add: Let_def case_prod_beta subset_insertI2)
  show "distinct (map fst req) \<Longrightarrow> distinct (map fst (fst (tick_request_time ms req wait)))"
  proof (induction ms req wait rule: tick_request_time.induct)
    case (2 ms ip t rest wait)
    moreover have "ip \<notin> fst ` set (fst (tick_request_time ms rest wait))" using 2(3) 1 [of ms rest wait] by auto
    ultimately show ?case by (simp add: Let_def case_prod_beta)
  qed simp
  show "distinct (map fst wait) \<Longrightarrow> distinct (map fst (snd (tick_request_time ms req wait)))"
    by (induction ms req wait rule: tick_request_time.induct) (auto simp: Let_def case_prod_beta distinct_delete)
qed

lemma map_of_tick_request_time:
  assumes "distinct (map fst req)"
  shows "map_of (fst (tick_request_time ms req wait)) ip =
       (case map_of req ip of None \<Rightarrow> None
        | Some t \<Rightarrow> if ARP_REPLY_TTL_MS \<le> add64 t ms then None else Some (add64 t ms))"
    "map_of (snd (tick_request_time ms req wait)) ip =
       (case map_of req ip of Some t \<Rightarrow> if ARP_REPLY_TTL_MS \<le> add64 t ms then None else map_of wait ip
        | None \<Rightarrow> map_of wait ip)"
proof -
  show "map_of (fst (tick_request_time ms req wait)) ip =
       (case map_of req ip of None \<Rightarrow> None
        | Some t \<Rightarrow> if ARP_REPLY_TTL_MS \<le> add64 t ms then None else Some (add64 t ms))"
    using assms
  proof (induction ms req wait rule: tick_request_time.induct)
    case (2 ms i t rest wait)
    have "i \<notin> fst ` set (fst (tick_request_time ms rest w))" for w
      using 2(3) tick_request_time_keys(1) [of ms rest w] by auto
    then have "map_of (fst (tick_request_time ms rest w)) i = None" for w by (simp add: map_of_eq_None_iff)
    with 2 show ?case by (auto simp: Let_def case_prod_beta)
  qed simp
  show "map_of (snd (tick_request_time ms req wait)) ip =
       (case map_of req ip of Some t \<Rightarrow> if ARP_REPLY_TTL_MS \<le> add64 t ms then None else map_of wait ip
        | None \<Rightarrow> map_of wait ip)"
    using assms
  proof (induction ms req wait rule: tick_request_time.induct)
    case (2 ms i t rest wait)
    then have "map_of rest i = None" by (auto simp: map_of_eq_None_iff)
    with 2 show ?case
      by (cases "ARP_REPLY_TTL_MS \<le> add64 t ms"; cases "map_of wait i")
        (auto simp: Let_def case_prod_beta delete_conv' split: option.split)
  qed simp
qed

lemma interface_tick_fields [simp]:
  "ni_arp_table (interface_tick ni ms) = tick_arp_table ms (ni_arp_table ni)"
  "ni_arp_request_time (interface_tick ni ms) = fst (tick_request_time ms (ni_arp_request_time ni) (ni_arp_wait_ipdata ni))"
  "ni_arp_wait_ipdata (interface_tick ni ms) = snd (tick_request_time ms (ni_arp_request_time ni) (ni_arp_wait_ipdata ni))"
  "ni_frames_out (interface_tick ni ms) = ni_frames_out ni"
  "ni_ethernet_address (interface_tick ni ms) = ni_ethernet_address ni"
  "ni_ip_address (interface_tick ni ms) = ni_ip_address ni" "ni_ip (interface_tick ni ms) = ni_ip ni"
  by (simp_all add: interface_tick_def Let_def case_prod_beta ni_ip_def)

lemma ni_ip_update [simp]:
  "ni_ip (ni\<lparr>ni_frames_out := fs\<rparr>) = ni_ip ni" "ni_ip (ni\<lparr>ni_arp_table := tab\<rparr>) = ni_ip ni"
  "ni_ip (ni\<lparr>ni_arp_request_time := req\<rparr>) = ni_ip ni" "ni_ip (ni\<lparr>ni_arp_wait_ipdata := wait\<rparr>) = ni_ip ni"
  by (simp_all add: ni_ip_def)

lemma tick_inv: "ni_inv ni \<Longrightarrow> ni_inv (interface_tick ni ms)"
  unfolding ni_inv_def
  using tick_arp_table_keys(2) [of "ni_arp_table ni" ms]
    tick_request_time_keys(2) [of "ni_arp_request_time ni" ms "ni_arp_wait_ipdata ni"]
    tick_request_time_keys(3) [of "ni_arp_wait_ipdata ni" ms "ni_arp_request_time ni"]
  by (auto simp: map_of_tick_arp_table map_of_tick_request_time split: option.splits if_splits)

lemma sent_inv: "ni_inv ni \<Longrightarrow> dgram_ok d \<Longrightarrow> ni_inv (sent ni d hop)"
  using waiting_ok [of ni _ hop] unfolding ni_inv_def
  by (auto simp: sent_def update_conv' distinct_update ni_consts split: option.splits if_splits)

lemma learned_inv: "ni_inv ni \<Longrightarrow> arp_ok m \<Longrightarrow> ni_inv (learned ni m)"
  unfolding ni_inv_def
  by (auto simp: learned_def update_conv' delete_conv' distinct_update distinct_delete ni_consts arp_ok_def
      split: if_splits)

lemma ni_inv_frames [simp]: "ni_inv (x\<lparr>ni_frames_out := fs\<rparr>) \<longleftrightarrow> ni_inv x"
  unfolding ni_inv_def by simp

lemma arp_request_fits:
  "ni_inv x \<Longrightarrow> arp_fits (arp_request_of x hop)"
  "ni_inv x \<Longrightarrow> ni_inv y \<Longrightarrow> arp_fits (arp_reply_of y (arp_request_of x hop))"
  using arp_request_addresses(1) [of x hop] arp_request_addresses(2) [of y "arp_request_of x hop"]
  by (simp_all add: arp_fits_def ni_inv_def)

text \<open>What an interface does with the frames above when they arrive in one buffer.\<close>

lemma recv_arp_frame:
  assumes "ni_inv ni" and "arp_fits m" and "dst = ni_ethernet_address ni \<or> dst = ETHERNET_BROADCAST"
    and "ef_header f = ef_header (arp_frame src dst m)" and "ef_payload f = [t]" "buffer_ok t"
    and "buffer_str t = concatenate (ef_payload (arp_frame src dst m))"
  shows "recv_frame ni f = Inr (learned ni m, None)"
proof -
  obtain s where s: "arp_serialize m = Inr s" using arp_serialize_supported assms(2) by (auto simp: arp_fits_def)
  have "length s = 28" using arp_parse_back(2) [OF s, of ARPMessage0] assms(2) by (simp add: arp_fits_def)
  then have "buffer_str t = s" using assms(7) s by (simp add: arp_frame_def BufferList_of_string_def)
  then have "arp_parse ARPMessage0 t = Inr (NoError, m)"
    using arp_parse_back(1) [OF s, of ARPMessage0 t] assms(2,6) by (simp add: arp_fits_def)
  then show ?thesis
    using recv_arp_eq [OF assms(1), of f t m] assms(3-5) by (simp add: arp_frame_def bl_to_Buffer_def)
qed

lemma recv_data_frame:
  assumes "dgram_ok d" and "dst = ni_ethernet_address ni"
    and "ef_header f = ef_header (data_frame src dst d)" and "ef_payload f = [t]" "buffer_ok t"
    and "buffer_str t = concatenate (ef_payload (data_frame src dst d))"
  shows "\<exists>d' t. recv_frame ni f = Inr (ni, Some d') \<and> dgram_same d d' \<and> ip_payload d' = [t] \<and> buffer_ok t"
proof -
  obtain bl where bl: "ipv4_datagram_serialize d = Inr bl" using dgram_serializes [OF assms(1)] by blast
  have "buffer_str t = concatenate bl" using assms(6) bl by (simp add: data_frame_def)
  then obtain d' where d': "ipv4_datagram_parse IPv4Datagram0 t = Inr (NoError, d')" "dgram_same d d'"
    using dw.decode [OF assms(1) bl assms(5)] by blast
  have "recv_frame ni f = Inr (ni, Some d')"
    using assms(2-4) d'(1) by (simp add: recv_frame_def data_frame_def bl_to_Buffer_def)
  then show ?thesis using d' ipv4_parse_one_buffer [OF d'(1) assms(5)] by blast
qed

text \<open>
  A frame as it comes from the wire or from \<^verbatim>\<open>EthernetFrame::parse\<close>: its payload is at most one buffer. \<open>arp_of\<close>
  is the ARP message an interface with this Ethernet address takes from a frame.
\<close>

definition frame_ok :: "EthernetFrame \<Rightarrow> bool" where
  "frame_ok f \<longleftrightarrow> length (ef_payload f) \<le> 1 \<and> (\<forall>b \<in> set (ef_payload f). buffer_ok b)"

definition arp_of :: "EthernetAddress \<Rightarrow> EthernetFrame \<Rightarrow> ARPMessage option" where
  "arp_of eth f =
     (if (eh_dst (ef_header f) = eth \<or> eh_dst (ef_header f) = ETHERNET_BROADCAST) \<and> eh_type (ef_header f) = TYPE_ARP then
        (case bl_to_Buffer (ef_payload f) of
           Inl _ \<Rightarrow> None
         | Inr buf \<Rightarrow> (case arp_parse ARPMessage0 buf of Inr (NoError, m) \<Rightarrow> Some m | _ \<Rightarrow> None))
      else None)"

definition received :: "network_interface \<Rightarrow> EthernetFrame \<Rightarrow> network_interface" where
  "received ni f = (case arp_of (ni_ethernet_address ni) f of Some m \<Rightarrow> learned ni m | None \<Rightarrow> ni)"

lemma frame_ok_buffer: "frame_ok f \<Longrightarrow> \<exists>b. bl_to_Buffer (ef_payload f) = Inr b \<and> buffer_ok b"
  by (cases "ef_payload f") (auto simp: frame_ok_def bl_to_Buffer_def)

lemma arp_of_ok: "frame_ok f \<Longrightarrow> arp_of eth f = Some m \<Longrightarrow> arp_ok m"
  using frame_ok_buffer [of f] arp_parse_safe [of _ ARPMessage0]
  by (fastforce simp: arp_of_def split: if_splits sum.splits prod.splits ParseResult.splits)

lemma ipv4_datagram_parse_total: "buffer_ok b \<Longrightarrow> \<exists>r d'. ipv4_datagram_parse d b = Inr (r, d')"
  using ipv4_header_parse_total [of "NetParser b" "ip_header d"]
  by (fastforce simp: ipv4_datagram_parse_def Let_def NetParser_def)

lemma recv_frame_eq:
  assumes "ni_inv ni" and "frame_ok f"
  shows "\<exists>d. recv_frame ni f = Inr (received ni f, d)"
proof -
  obtain b where b: "bl_to_Buffer (ef_payload f) = Inr b" "buffer_ok b" using frame_ok_buffer [OF assms(2)] by auto
  obtain r d where d: "ipv4_datagram_parse IPv4Datagram0 b = Inr (r, d)" using ipv4_datagram_parse_total [OF b(2)] by blast
  obtain r' m where m: "arp_parse ARPMessage0 b = Inr (r', m)" using arp_parse_safe [OF b(2), of ARPMessage0] by blast
  have ty: "TYPE_ARP \<noteq> TYPE_IPv4" by (simp add: TYPE_ARP_def TYPE_IPv4_def)
  show ?thesis
  proof (cases "arp_of (ni_ethernet_address ni) f")
    case None
    then show ?thesis
      using b(1) d m ty
      by (cases r') (auto simp: received_def arp_of_def recv_frame_def Let_def split: if_splits)
  next
    case (Some m')
    then have "eh_dst (ef_header f) = ni_ethernet_address ni \<or> eh_dst (ef_header f) = ETHERNET_BROADCAST"
      "eh_type (ef_header f) = TYPE_ARP" "m' = m" "r' = NoError"
      using b(1) m by (auto simp: arp_of_def split: if_splits ParseResult.splits)
    then show ?thesis using recv_arp_eq [OF assms(1) _ _ b(1)] m Some by (simp add: received_def)
  qed
qed

lemma received_inv: "ni_inv ni \<Longrightarrow> frame_ok f \<Longrightarrow> ni_inv (received ni f)"
  using learned_inv arp_of_ok by (auto simp: received_def split: option.splits)

section \<open>Runs of the interface\<close>

datatype ni_op =
    NI_send IPv4Datagram Address
  | NI_recv EthernetFrame
  | NI_tick u64

definition ni_step :: "network_interface \<Rightarrow> ni_op \<Rightarrow> network_interface res" where
  "ni_step ni x =
     (case x of
        NI_send d next_hop \<Rightarrow> send_datagram ni d next_hop
      | NI_recv f \<Rightarrow> bind_res (recv_frame ni f) (\<lambda>(ni, _). Inr ni)
      | NI_tick ms \<Rightarrow> Inr (interface_tick ni ms))"

fun ni_run :: "network_interface \<Rightarrow> ni_op list \<Rightarrow> network_interface res" where
  "ni_run ni [] = Inr ni"
| "ni_run ni (x # xs) = bind_res (ni_step ni x) (\<lambda>ni. ni_run ni xs)"

text \<open>
  What the users of the interface owe it: datagrams with a consistent header for IPv4 next hops, frames in
  one buffer, and times that do not wrap the ages.
\<close>

fun ni_op_ok :: "ni_op \<Rightarrow> bool" where
  "ni_op_ok (NI_send d next_hop) \<longleftrightarrow> dgram_ok d \<and> (\<exists>hop. ipv4_numeric next_hop = Inr hop)"
| "ni_op_ok (NI_recv f) \<longleftrightarrow> frame_ok f"
| "ni_op_ok (NI_tick ms) \<longleftrightarrow> ms < 2 ^ 63"

fun op_ms :: "ni_op \<Rightarrow> nat" where
  "op_ms (NI_tick ms) = ms"
| "op_ms _ = 0"

lemma ni_step_cases:
  assumes "ni_inv ni" and "ni_op_ok x"
  obtains d p hop where "x = NI_send d p" "ipv4_numeric p = Inr hop" "dgram_ok d" "ni_step ni x = Inr (sent ni d hop)"
  | f where "x = NI_recv f" "frame_ok f" "ni_step ni x = Inr (received ni f)"
  | ms where "x = NI_tick ms" "ms < 2 ^ 63" "ni_step ni x = Inr (interface_tick ni ms)"
proof (cases x)
  case (NI_send d p)
  then show ?thesis using that(1) assms send_datagram_eq by (fastforce simp: ni_step_def)
next
  case (NI_recv f)
  then show ?thesis using that(2) assms recv_frame_eq [of ni f] by (auto simp: ni_step_def)
next
  case (NI_tick ms)
  then show ?thesis using that(3) assms by (auto simp: ni_step_def)
qed

lemma ni_step_inv:
  assumes "ni_inv ni" and "ni_op_ok x"
  shows "\<exists>ni'. ni_step ni x = Inr ni' \<and> ni_inv ni'"
  by (rule ni_step_cases [OF assms]) (use assms(1) in \<open>auto intro: sent_inv received_inv tick_inv\<close>)

lemma ni_run_inv: "ni_inv ni \<Longrightarrow> \<forall>x \<in> set xs. ni_op_ok x \<Longrightarrow> \<exists>ni'. ni_run ni xs = Inr ni' \<and> ni_inv ni'"
proof (induction xs arbitrary: ni)
  case (Cons x xs)
  then show ?case using ni_step_inv [of ni x] by fastforce
qed simp

lemma ni_run_append: "ni_run ni (xs @ ys) = bind_res (ni_run ni xs) (\<lambda>ni. ni_run ni ys)"
proof (induction xs arbitrary: ni)
  case (Cons x xs)
  then show ?case by (cases "ni_step ni x") auto
qed simp

lemma NetworkInterface_eq:
  "NetworkInterface eth (inet_address p a) =
     Inr \<lparr>ni_ethernet_address = eth, ni_ip_address = inet_address p a, ni_frames_out = [],
          ni_arp_table = [], ni_arp_request_time = [], ni_arp_wait_ipdata = []\<rparr>"
  by (simp add: NetworkInterface_def)

lemma NetworkInterface_inv:
  "length eth = 6 \<Longrightarrow> NetworkInterface eth (inet_address p a) = Inr ni \<Longrightarrow> ni_inv ni \<and> ni_ip ni = a"
  by (auto simp: NetworkInterface_eq ni_inv_def ni_ip_def)

lemma arp_frame_inj:
  assumes "arp_frame s d m = arp_frame s' d' m'" and "arp_supported m" "arp_supported m'" and "arp_ok m" "arp_ok m'"
  shows "m = m'"
proof -
  obtain t where t: "arp_serialize m = Inr t" using arp_serialize_supported [OF assms(2)] by auto
  obtain t' where t': "arp_serialize m' = Inr t'" using arp_serialize_supported [OF assms(3)] by auto
  have "t = t'" using assms(1) t t' by (simp add: arp_frame_def BufferList_of_string_def Buffer_def)
  then show ?thesis
    using arp_roundtrip_aux(1) [OF t assms(4), of ARPMessage0] arp_roundtrip_aux(1) [OF t' assms(5), of ARPMessage0] by simp
qed

lemma data_frame_not_request [simp]:
  "data_frame s d x \<noteq> request_frame ni hop" "request_frame ni hop \<noteq> data_frame s d x"
  by (simp_all add: data_frame_def request_frame_def arp_frame_def TYPE_ARP_def TYPE_IPv4_def)

lemma reply_not_request:
  assumes "length (ni_ethernet_address ni) = 6" and "arp_ok m"
  shows "reply_frame ni m \<noteq> request_frame ni hop"
proof
  assume "reply_frame ni m = request_frame ni hop"
  then have "arp_reply_of ni m = arp_request_of ni hop"
    using assms by (auto simp: reply_frame_def request_frame_def intro!: arp_frame_inj arp_request_addresses)
  then have "am_opcode (arp_reply_of ni m) = am_opcode (arp_request_of ni hop)" by simp
  then show False by (simp add: arp_reply_of_def arp_request_of_def OPCODE_REPLY_def OPCODE_REQUEST_def)
qed

lemma request_frame_inj:
  assumes "length (ni_ethernet_address ni) = 6" and "request_frame ni hop = request_frame ni hop'"
  shows "hop = hop'"
proof -
  have "arp_request_of ni hop = arp_request_of ni hop'"
    using assms by (auto simp: request_frame_def intro!: arp_frame_inj arp_request_addresses)
  then have "am_target_ip_address (arp_request_of ni hop) = am_target_ip_address (arp_request_of ni hop')" by simp
  then show ?thesis by (simp add: arp_request_of_def)
qed

text \<open>The addresses of an interface never change, and frames are only added at the end.\<close>

lemma ni_step_addresses:
  assumes "ni_inv ni" and "ni_op_ok x" and "ni_step ni x = Inr ni'"
  shows "ni_ethernet_address ni' = ni_ethernet_address ni" "ni_ip_address ni' = ni_ip_address ni"
    "request_frame ni' hop = request_frame ni hop"
proof -
  show 1: "ni_ethernet_address ni' = ni_ethernet_address ni" and 2: "ni_ip_address ni' = ni_ip_address ni"
    by (rule ni_step_cases [OF assms(1,2)],
        use assms(3) in \<open>auto simp: sent_def received_def learned_def split: option.splits\<close>)+
  then show "request_frame ni' hop = request_frame ni hop"
    by (simp add: request_frame_def arp_request_of_def ni_ip_def)
qed

text \<open>While a request is younger than its lifetime no second one is sent.\<close>

lemma request_pending_step:
  assumes inv: "ni_inv ni" and ok: "ni_op_ok x" and pend: "map_of (ni_arp_request_time ni) hop = Some t"
    and t: "t + op_ms x < ARP_REPLY_TTL_MS"
  shows "\<exists>ni' new. ni_step ni x = Inr ni' \<and> ni_frames_out ni' = ni_frames_out ni @ new \<and> request_frame ni hop \<notin> set new \<and>
    map_of (ni_arp_request_time ni') hop = Some (t + op_ms x)"
proof (rule ni_step_cases [OF inv ok])
  fix d p k assume x: "x = NI_send d p" "ni_step ni x = Inr (sent ni d k)"
  have "length (ni_ethernet_address ni) = 6" using inv by (simp add: ni_inv_def)
  then have "k \<noteq> hop \<Longrightarrow> request_frame ni k \<noteq> request_frame ni hop" using request_frame_inj by blast
  then show ?thesis using x pend by (auto simp: sent_def update_conv' split: option.split)
next
  fix f assume x: "x = NI_recv f" "frame_ok f" "ni_step ni x = Inr (received ni f)"
  have "length (ni_ethernet_address ni) = 6" using inv by (simp add: ni_inv_def)
  moreover have "arp_of (ni_ethernet_address ni) f = Some m \<Longrightarrow> arp_ok m" for m using arp_of_ok x(2) by blast
  ultimately show ?thesis
    using x pend reply_not_request [of ni _ hop]
    by (fastforce simp: received_def learned_def split: option.split)
next
  fix ms assume x: "x = NI_tick ms" "ms < 2 ^ 63" "ni_step ni x = Inr (interface_tick ni ms)"
  have "distinct (map fst (ni_arp_request_time ni))" using inv by (simp add: ni_inv_def)
  moreover have "add64 t ms = t + ms" using t x(1,2) by (intro add64_exact) (simp add: ni_consts)
  ultimately show ?thesis using x t pend by (simp add: map_of_tick_request_time)
qed

lemma request_pending_run:
  "ni_inv ni \<Longrightarrow> \<forall>x \<in> set xs. ni_op_ok x \<Longrightarrow> map_of (ni_arp_request_time ni) hop = Some t \<Longrightarrow>
     t + sum_list (map op_ms xs) < ARP_REPLY_TTL_MS \<Longrightarrow>
   \<exists>ni' new. ni_run ni xs = Inr ni' \<and> ni_frames_out ni' = ni_frames_out ni @ new \<and> request_frame ni hop \<notin> set new"
proof (induction xs arbitrary: ni t)
  case (Cons x xs)
  have ok: "ni_op_ok x" "t + op_ms x < ARP_REPLY_TTL_MS" using Cons.prems by auto
  from request_pending_step [OF Cons.prems(1) ok(1) Cons.prems(3) ok(2)] obtain ni1 new1 where
    1: "ni_step ni x = Inr ni1" "ni_frames_out ni1 = ni_frames_out ni @ new1" "request_frame ni hop \<notin> set new1"
      "map_of (ni_arp_request_time ni1) hop = Some (t + op_ms x)" by blast
  have "ni_inv ni1" using ni_step_inv [OF Cons.prems(1) ok(1)] 1(1) by auto
  moreover have "request_frame ni1 hop = request_frame ni hop"
    using ni_step_addresses(3) [OF Cons.prems(1) ok(1) 1(1)] .
  moreover have "t + op_ms x + sum_list (map op_ms xs) < ARP_REPLY_TTL_MS" using Cons.prems(4) by simp
  ultimately obtain ni2 new2 where "ni_run ni1 xs = Inr ni2" "ni_frames_out ni2 = ni_frames_out ni1 @ new2"
    "request_frame ni hop \<notin> set new2"
    using Cons.IH [of ni1 "t + op_ms x"] Cons.prems(2) 1(4) by auto
  then show ?case using 1 by auto
qed simp

text \<open>Where an entry of the cache comes from.\<close>

definition learned_ago :: "EthernetAddress \<Rightarrow> ni_op list \<Rightarrow> u32 \<Rightarrow> EthernetAddress \<Rightarrow> nat \<Rightarrow> bool" where
  "learned_ago my xs ip eth t \<longleftrightarrow>
     (\<exists>pre f post m. xs = pre @ NI_recv f # post \<and> arp_of my f = Some m \<and>
        am_sender_ip_address m = ip \<and> am_sender_ethernet_address m = eth \<and> t = sum_list (map op_ms post) \<and>
        (\<forall>f' m'. NI_recv f' \<in> set post \<longrightarrow> arp_of my f' = Some m' \<longrightarrow> am_sender_ip_address m' \<noteq> ip))"

lemma learned_ago_snoc:
  assumes "learned_ago my xs ip eth t"
    and "\<And>f m. x = NI_recv f \<Longrightarrow> arp_of my f = Some m \<Longrightarrow> am_sender_ip_address m \<noteq> ip"
  shows "learned_ago my (xs @ [x]) ip eth (t + op_ms x)"
proof -
  from assms(1) obtain pre f post m where *: "xs = pre @ NI_recv f # post" "arp_of my f = Some m"
      "am_sender_ip_address m = ip" "am_sender_ethernet_address m = eth" "t = sum_list (map op_ms post)"
      "\<forall>f' m'. NI_recv f' \<in> set post \<longrightarrow> arp_of my f' = Some m' \<longrightarrow> am_sender_ip_address m' \<noteq> ip"
    unfolding learned_ago_def by blast
  then show ?thesis
    unfolding learned_ago_def using assms(2)
    by (intro exI [of _ pre] exI [of _ f] exI [of _ "post @ [x]"] exI [of _ m]) auto
qed

lemma ni_run_addresses:
  assumes "ni_inv ni" and "\<forall>x \<in> set xs. ni_op_ok x" and "ni_run ni xs = Inr ni'"
  shows "ni_inv ni'" "ni_ethernet_address ni' = ni_ethernet_address ni"
proof -
  show "ni_inv ni'" using ni_run_inv [OF assms(1,2)] assms(3) by auto
  show "ni_ethernet_address ni' = ni_ethernet_address ni"
    using assms
  proof (induction xs arbitrary: ni)
    case (Cons x xs)
    then obtain ni1 where "ni_step ni x = Inr ni1" "ni_inv ni1" using ni_step_inv [of ni x] by auto
    then show ?case using Cons ni_step_addresses(1) [of ni x ni1] by simp
  qed simp
qed

lemma cache_learned:
  assumes "ni_inv ni" and "ni_arp_table ni = []" and "\<forall>x \<in> set xs. ni_op_ok x" and "ni_run ni xs = Inr ni'"
    and "map_of (ni_arp_table ni') ip = Some (eth, t)"
  shows "learned_ago (ni_ethernet_address ni) xs ip eth t"
  using assms(3-)
proof (induction xs arbitrary: ni' eth t rule: rev_induct)
  case Nil
  then show ?case using assms(2) by simp
next
  case (snoc x xs)
  obtain ni1 where 1: "ni_run ni xs = Inr ni1" "ni_step ni1 x = Inr ni'"
    using snoc.prems(2) ni_run_inv [OF assms(1), of xs] snoc.prems(1) by (auto simp: ni_run_append bind_res_Inr_iff)
  have inv: "ni_inv ni1" and eth: "ni_ethernet_address ni1 = ni_ethernet_address ni"
    using ni_run_addresses [OF assms(1) _ 1(1)] snoc.prems(1) by auto
  have IH: "learned_ago (ni_ethernet_address ni) xs ip eth t" if "map_of (ni_arp_table ni1) ip = Some (eth, t)" for eth t
    using snoc.IH [OF _ 1(1) that] snoc.prems(1) by simp
  have ok: "ni_op_ok x" using snoc.prems(1) by simp
  show ?case
  proof (rule ni_step_cases [OF inv ok])
    fix d p k assume x: "x = NI_send d p" "ni_step ni1 x = Inr (sent ni1 d k)"
    then have "ni_arp_table ni' = ni_arp_table ni1" using 1(2) by (auto simp: sent_def split: option.splits)
    then show ?thesis using learned_ago_snoc [OF IH, of eth t x] snoc.prems(3) x(1) by simp
  next
    fix f assume x: "x = NI_recv f" "ni_step ni1 x = Inr (received ni1 f)"
    show ?thesis
    proof (cases "\<exists>m. arp_of (ni_ethernet_address ni) f = Some m \<and> am_sender_ip_address m = ip")
      case True
      then obtain m where m: "arp_of (ni_ethernet_address ni) f = Some m" "am_sender_ip_address m = ip" by blast
      then have "eth = am_sender_ethernet_address m" "t = 0"
        using snoc.prems(3) x 1(2) eth by (auto simp: received_def learned_def update_conv')
      then show ?thesis
        unfolding learned_ago_def x(1) using m
        by (intro exI [of _ xs] exI [of _ f] exI [of _ "[]"] exI [of _ m]) simp
    next
      case False
      then have "map_of (ni_arp_table ni1) ip = Some (eth, t)"
        using snoc.prems(3) x 1(2) eth
        by (cases "arp_of (ni_ethernet_address ni) f") (auto simp: received_def learned_def update_conv')
      then show ?thesis using learned_ago_snoc [OF IH, of eth t x] x(1) False by auto
    qed
  next
    fix ms assume x: "x = NI_tick ms" "ms < 2 ^ 63" "ni_step ni1 x = Inr (interface_tick ni1 ms)"
    have "distinct (map fst (ni_arp_table ni1))" using inv by (simp add: ni_inv_def)
    then obtain t0 where t0: "map_of (ni_arp_table ni1) ip = Some (eth, t0)" "t = add64 t0 ms"
      using snoc.prems(3) x(3) 1(2) by (auto simp: map_of_tick_arp_table split: option.splits if_splits)
    have "t0 < ARP_ENTRY_TTL_MS" using inv t0(1) unfolding ni_inv_def by blast
    then have "t = t0 + ms" using t0(2) x(2) add64_exact [of t0 ms] by (simp add: ni_consts)
    then show ?thesis using learned_ago_snoc [OF IH [OF t0(1)], of x] x(1) by simp
  qed
qed

section \<open>Properties\<close>



text \<open>
  C34. No flooding: after an ARP request for a next hop, however many datagrams are sent and frames
  received, no second request for it is sent before 5 seconds have passed.
\<close>

theorem arp_request_gap:
  assumes "length my_eth = 6" and "NetworkInterface my_eth (inet_address p a) = Inr ni0"
    and "\<forall>x \<in> set xs. ni_op_ok x" and "ni_run ni0 xs = Inr ni"
    and "ipv4_numeric next_hop = Inr hop" and "dgram_ok d" and "send_datagram ni d next_hop = Inr ni1"
    and "ni_frames_out ni1 = ni_frames_out ni @ [request_frame ni hop]"
    and "\<forall>y \<in> set ys. ni_op_ok y" and "sum_list (map op_ms ys) < 5000"
  shows "\<exists>ni2 new. ni_run ni1 ys = Inr ni2 \<and> ni_frames_out ni2 = ni_frames_out ni1 @ new \<and> request_frame ni hop \<notin> set new"
proof -
  have inv: "ni_inv ni"
    using NetworkInterface_inv [OF assms(1,2)] ni_run_inv [of ni0 xs] assms(3,4) by auto
  have ni1: "ni1 = sent ni d hop" using send_datagram_eq [OF inv assms(6,5)] assms(7) by simp
  then have "map_of (ni_arp_request_time ni1) hop = Some 0"
    using assms(8) by (auto simp: sent_def update_conv' split: option.splits)
  moreover have "request_frame ni1 hop = request_frame ni hop"
    unfolding ni1 by (auto simp: sent_def request_frame_def arp_request_of_def split: option.splits)
  moreover have "ni_inv ni1" using sent_inv [OF inv assms(6)] ni1 by simp
  ultimately show ?thesis using request_pending_run [of ni1 ys hop 0] assms(9,10) by (simp add: ni_consts)
qed

theorem arp_request_gap_witness:
  "\<exists>ni ni1 ni2 new. NetworkInterface [2, 0, 0, 0, 0, 1] (inet_address 0 0x0a000001) = Inr ni \<and>
     send_datagram ni \<lparr>ip_header = IPv4Header0\<lparr>ih_len := 20\<rparr>, ip_payload = []\<rparr> (inet_address 0 0x0a000002) = Inr ni1 \<and>
     ni_frames_out ni1 = [request_frame ni 0x0a000002] \<and>
     ni_run ni1 [NI_tick 4999, NI_send \<lparr>ip_header = IPv4Header0\<lparr>ih_len := 20\<rparr>, ip_payload = []\<rparr> (inet_address 0 0x0a000002)] = Inr ni2 \<and>
     ni_frames_out ni2 = ni_frames_out ni1 @ new \<and> request_frame ni 0x0a000002 \<notin> set new"
proof -
  let ?d = "\<lparr>ip_header = IPv4Header0\<lparr>ih_len := 20\<rparr>, ip_payload = []\<rparr>"
  obtain ni where ni: "NetworkInterface [2, 0, 0, 0, 0, 1] (inet_address 0 0x0a000001) = Inr ni"
    by (simp add: NetworkInterface_eq)
  have d: "dgram_ok ?d" by (simp add: dgram_ok_def ipv4_header_ok_def IPv4Header0_def)
  have inv: "ni_inv ni" using NetworkInterface_inv [OF _ ni] by simp
  let ?ni1 = "sent ni ?d 0x0a000002"
  have s: "send_datagram ni ?d (inet_address 0 0x0a000002) = Inr ?ni1" by (rule send_datagram_eq [OF inv d]) simp
  have f: "ni_frames_out ?ni1 = ni_frames_out ni @ [request_frame ni 0x0a000002]" "ni_frames_out ni = []"
    using ni by (auto simp: sent_def NetworkInterface_eq)
  have "\<forall>y \<in> set [NI_tick 4999, NI_send ?d (inet_address 0 0x0a000002)]. ni_op_ok y" using d by simp
  from arp_request_gap [OF _ ni, of "[]", OF _ _ _ _ d s f(1) this] s f ni show ?thesis by auto
qed

end
