(* ===== verification/Adapters.thy ===== *)
theory Adapters
  imports TCP_Segment Network_Interface
begin

text \<open>
  The adapters between TCP segments and datagrams: \<^verbatim>\<open>tcp_helpers/fd_adapter.{hh,cc}\<close> (TCP in UDP),
  \<^verbatim>\<open>tcp_over_ip.{hh,cc}\<close> (TCP in IPv4), \<^verbatim>\<open>tuntap_adapter.{hh,cc}\<close> (over a TUN device and, with a network
  interface, over a TAP device), \<^verbatim>\<open>lossy_fd_adapter.hh\<close> and the class \<^verbatim>\<open>FdAdapterConfig\<close>. What is read from
  a device or socket is an argument, what is written is returned; the random numbers of the lossy adapter
  are an argument and the resolver behind \<^verbatim>\<open>Address\<close> is a parameter.
\<close>

section \<open>Definitions\<close>

record FdAdapterConfig =
  fac_source :: Address
  fac_destination :: Address
  fac_loss_rate_dn :: u16
  fac_loss_rate_up :: u16

definition FdAdapterConfig0 :: "resolver \<Rightarrow> FdAdapterConfig res" where
  "FdAdapterConfig0 getaddrinfo =
     bind_res (Address_ip getaddrinfo ''0'' 0) (\<lambda>source.
     bind_res (Address_ip getaddrinfo ''0'' 0) (\<lambda>destination.
       Inr \<lparr>fac_source = source, fac_destination = destination, fac_loss_rate_dn = 0, fac_loss_rate_up = 0\<rparr>))"

record fd_adapter =
  fa_cfg :: FdAdapterConfig
  fa_listen :: bool

definition set_listening :: "fd_adapter \<Rightarrow> bool \<Rightarrow> fd_adapter" where
  "set_listening ad l = ad\<lparr>fa_listen := l\<rparr>"

definition listening :: "fd_adapter \<Rightarrow> bool" where
  "listening ad = fa_listen ad"

definition config :: "fd_adapter \<Rightarrow> FdAdapterConfig" where
  "config ad = fa_cfg ad"

definition adapter_tick :: "fd_adapter \<Rightarrow> u64 \<Rightarrow> fd_adapter" where
  "adapter_tick ad ms = ad"

subsection \<open>TCP in UDP\<close>

record received_datagram =
  rd_source_address :: Address
  rd_payload :: "byte list"

definition udp_adapter_read :: "fd_adapter \<Rightarrow> received_datagram \<Rightarrow> (fd_adapter \<times> TCPSegment option) res" where
  "udp_adapter_read ad datagram =
     (if \<not> listening ad \<and> \<not> Address_eq (rd_source_address datagram) (fac_destination (config ad)) then Inr (ad, None)
      else
        bind_res (tcp_segment_parse TCPSegment0 (Buffer (rd_payload datagram)) 0) (\<lambda>(result, seg).
          if result \<noteq> NoError then Inr (ad, None)
          else if listening ad then
            (if th_syn (ts_header seg) \<and> \<not> th_rst (ts_header seg) then
               let ad = ad\<lparr>fa_cfg := (fa_cfg ad)\<lparr>fac_destination := rd_source_address datagram\<rparr>\<rparr>;
                   ad = set_listening ad False
               in Inr (ad, Some seg)
             else Inr (ad, None))
          else Inr (ad, Some seg)))"

definition udp_adapter_write :: "fd_adapter \<Rightarrow> TCPSegment \<Rightarrow> (Address \<times> buffer_list) res" where
  "udp_adapter_write ad seg =
     bind_res (addr_port (fac_source (config ad))) (\<lambda>sport.
     bind_res (addr_port (fac_destination (config ad))) (\<lambda>dport.
       let seg = seg\<lparr>ts_header := (ts_header seg)\<lparr>th_sport := sport, th_dport := dport\<rparr>\<rparr> in
       bind_res (tcp_segment_serialize seg 0) (\<lambda>payload. Inr (fac_destination (config ad), payload))))"

subsection \<open>TCP in IPv4\<close>

definition unwrap_tcp_in_ip :: "resolver \<Rightarrow> fd_adapter \<Rightarrow> IPv4Datagram \<Rightarrow> (fd_adapter \<times> TCPSegment option) res" where
  "unwrap_tcp_in_ip getaddrinfo ad ip_dgram =
     (let h = ip_header ip_dgram in
      bind_res (if listening ad then Inr True
                else bind_res (ipv4_numeric (fac_source (config ad))) (\<lambda>n. Inr (ih_dst h = n))) (\<lambda>for_us.
      if \<not> for_us then Inr (ad, None)
      else
      bind_res (if listening ad then Inr True
                else bind_res (ipv4_numeric (fac_destination (config ad))) (\<lambda>n. Inr (ih_src h = n))) (\<lambda>from_peer.
      if \<not> from_peer then Inr (ad, None)
      else if ih_proto h \<noteq> PROTO_TCP then Inr (ad, None)
      else
      bind_res (bl_to_Buffer (ip_payload ip_dgram)) (\<lambda>buf.
      bind_res (tcp_segment_parse TCPSegment0 buf (pseudo_cksum h)) (\<lambda>(result, tcp_seg).
      if result \<noteq> NoError then Inr (ad, None)
      else
      bind_res (addr_port (fac_source (config ad))) (\<lambda>source_port.
      if th_dport (ts_header tcp_seg) \<noteq> source_port then Inr (ad, None)
      else if listening ad \<and> \<not> (th_syn (ts_header tcp_seg) \<and> \<not> th_rst (ts_header tcp_seg)) then Inr (ad, None)
      else
      bind_res
        (if listening ad then
           bind_res (Address_ip getaddrinfo (inet_ntoa (ih_dst h)) source_port) (\<lambda>source.
           bind_res (Address_ip getaddrinfo (inet_ntoa (ih_src h)) (th_sport (ts_header tcp_seg))) (\<lambda>destination.
             let ad = ad\<lparr>fa_cfg := (fa_cfg ad)\<lparr>fac_source := source, fac_destination := destination\<rparr>\<rparr> in
             Inr (set_listening ad False)))
         else Inr ad) (\<lambda>ad.
      bind_res (addr_port (fac_destination (config ad))) (\<lambda>destination_port.
      if th_sport (ts_header tcp_seg) \<noteq> destination_port then Inr (ad, None)
      else Inr (ad, Some tcp_seg)))))))))"

definition wrap_tcp_in_ip :: "fd_adapter \<Rightarrow> TCPSegment \<Rightarrow> IPv4Datagram res" where
  "wrap_tcp_in_ip ad seg =
     bind_res (addr_port (fac_source (config ad))) (\<lambda>sport.
     bind_res (addr_port (fac_destination (config ad))) (\<lambda>dport.
     let seg = seg\<lparr>ts_header := (ts_header seg)\<lparr>th_sport := sport, th_dport := dport\<rparr>\<rparr>;
         ip_dgram = IPv4Datagram0
     in
     bind_res (ipv4_numeric (fac_source (config ad))) (\<lambda>src.
     bind_res (ipv4_numeric (fac_destination (config ad))) (\<lambda>dst.
     let h = (ip_header ip_dgram)\<lparr>ih_src := src, ih_dst := dst\<rparr>;
         h = h\<lparr>ih_len := of_nat (unat (ih_hlen h) * 4 + unat (th_doff (ts_header seg)) * 4 + buf_size (ts_payload seg))\<rparr>;
         ip_dgram = ip_dgram\<lparr>ip_header := h\<rparr>
     in
     bind_res (tcp_segment_serialize seg (pseudo_cksum h)) (\<lambda>payload.
       Inr (ip_dgram\<lparr>ip_payload := payload\<rparr>))))))"

subsection \<open>Over a TUN device\<close>

definition tun_adapter_read :: "resolver \<Rightarrow> fd_adapter \<Rightarrow> byte list \<Rightarrow> (fd_adapter \<times> TCPSegment option) res" where
  "tun_adapter_read getaddrinfo ad bytes =
     bind_res (ipv4_datagram_parse IPv4Datagram0 (Buffer bytes)) (\<lambda>(result, ip_dgram).
       if result \<noteq> NoError then Inr (ad, None) else unwrap_tcp_in_ip getaddrinfo ad ip_dgram)"

definition tun_adapter_write :: "fd_adapter \<Rightarrow> TCPSegment \<Rightarrow> buffer_list res" where
  "tun_adapter_write ad seg = bind_res (wrap_tcp_in_ip ad seg) ipv4_datagram_serialize"

subsection \<open>Over a TAP device\<close>

record ethernet_adapter =
  ea_base :: fd_adapter
  ea_interface :: network_interface
  ea_next_hop :: Address

text \<open>The loop of \<^verbatim>\<open>send_pending\<close>, with what it writes to the device.\<close>

fun send_frames :: "EthernetFrame list \<Rightarrow> buffer_list list" where
  "send_frames [] = []"
| "send_frames (frame # frames_out) = ethernet_frame_serialize frame # send_frames frames_out"

definition send_pending :: "ethernet_adapter \<Rightarrow> ethernet_adapter \<times> buffer_list list" where
  "send_pending ea =
     (ea\<lparr>ea_interface := (ea_interface ea)\<lparr>ni_frames_out := []\<rparr>\<rparr>, send_frames (ni_frames_out (ea_interface ea)))"

definition TCPOverIPv4OverEthernetAdapter ::
  "fd_adapter \<Rightarrow> EthernetAddress \<Rightarrow> Address \<Rightarrow> Address \<Rightarrow> (ethernet_adapter \<times> buffer_list list) res" where
  "TCPOverIPv4OverEthernetAdapter base eth_address ip_address next_hop =
     bind_res (NetworkInterface eth_address ip_address) (\<lambda>interface.
       let dummy_frame = EthernetFrame0 in
       Inr (\<lparr>ea_base = base, ea_interface = interface, ea_next_hop = next_hop\<rparr>, [ethernet_frame_serialize dummy_frame]))"

definition tap_adapter_read ::
  "resolver \<Rightarrow> ethernet_adapter \<Rightarrow> byte list \<Rightarrow> (ethernet_adapter \<times> buffer_list list \<times> TCPSegment option) res" where
  "tap_adapter_read getaddrinfo ea bytes =
     bind_res (ethernet_frame_parse EthernetFrame0 (Buffer bytes)) (\<lambda>(result, frame).
       if result \<noteq> NoError then Inr (ea, [], None)
       else
         bind_res (recv_frame (ea_interface ea) frame) (\<lambda>(interface, ip_dgram).
           let (ea, written) = send_pending (ea\<lparr>ea_interface := interface\<rparr>) in
           case ip_dgram of
             Some d \<Rightarrow>
               bind_res (unwrap_tcp_in_ip getaddrinfo (ea_base ea) d) (\<lambda>(base, seg). Inr (ea\<lparr>ea_base := base\<rparr>, written, seg))
           | None \<Rightarrow> Inr (ea, written, None)))"

definition tap_adapter_tick :: "ethernet_adapter \<Rightarrow> u64 \<Rightarrow> ethernet_adapter \<times> buffer_list list" where
  "tap_adapter_tick ea ms = send_pending (ea\<lparr>ea_interface := interface_tick (ea_interface ea) ms\<rparr>)"

definition tap_adapter_write :: "ethernet_adapter \<Rightarrow> TCPSegment \<Rightarrow> (ethernet_adapter \<times> buffer_list list) res" where
  "tap_adapter_write ea seg =
     bind_res (wrap_tcp_in_ip (ea_base ea) seg) (\<lambda>d.
     bind_res (send_datagram (ea_interface ea) d (ea_next_hop ea)) (\<lambda>interface.
       Inr (send_pending (ea\<lparr>ea_interface := interface\<rparr>))))"

subsection \<open>Loss\<close>

definition should_drop :: "FdAdapterConfig \<Rightarrow> bool \<Rightarrow> u32 \<Rightarrow> bool" where
  "should_drop cfg uplink rand =
     (let loss = (if uplink then fac_loss_rate_up cfg else fac_loss_rate_dn cfg)
      in loss \<noteq> 0 \<and> (ucast rand :: u16) < loss)"

definition lossy_read ::
  "('a \<Rightarrow> FdAdapterConfig) \<Rightarrow> ('a \<Rightarrow> ('a \<times> TCPSegment option) res) \<Rightarrow> 'a \<Rightarrow> u32 \<Rightarrow> ('a \<times> TCPSegment option) res" where
  "lossy_read cfg adapter_read ad rand =
     bind_res (adapter_read ad) (\<lambda>(ad, ret). if should_drop (cfg ad) False rand then Inr (ad, None) else Inr (ad, ret))"

definition lossy_write ::
  "('a \<Rightarrow> FdAdapterConfig) \<Rightarrow> ('a \<Rightarrow> TCPSegment \<Rightarrow> 'b list res) \<Rightarrow> 'a \<Rightarrow> TCPSegment \<Rightarrow> u32 \<Rightarrow> 'b list res" where
  "lossy_write cfg adapter_write ad seg rand =
     (if should_drop (cfg ad) True rand then Inr [] else adapter_write ad seg)"

section \<open>Lemmas\<close>

text \<open>
  An adapter for the connection from one IPv4 endpoint to another. The resolver turns the printed form of an
  address and a port into that address, as \<^verbatim>\<open>getaddrinfo\<close> does with \<^verbatim>\<open>AI_NUMERICHOST\<close>.
\<close>

definition fd_between :: "u16 \<Rightarrow> u32 \<Rightarrow> u16 \<Rightarrow> u32 \<Rightarrow> fd_adapter \<Rightarrow> bool" where
  "fd_between p a q b ad \<longleftrightarrow>
     fac_source (fa_cfg ad) = inet_address p a \<and> fac_destination (fa_cfg ad) = inet_address q b"

definition resolves :: "resolver \<Rightarrow> u16 \<Rightarrow> u32 \<Rightarrow> bool" where
  "resolves getaddrinfo p a \<longleftrightarrow> Address_ip getaddrinfo (inet_ntoa a) p = Inr (inet_address p a)"

text \<open>A segment that fits into a datagram, and the segment as the adapter sends it.\<close>

definition seg_fits :: "TCPSegment \<Rightarrow> bool" where
  "seg_fits seg \<longleftrightarrow>
     5 \<le> th_doff (ts_header seg) \<and> th_doff (ts_header seg) < 16 \<and> buffer_ok (ts_payload seg) \<and>
     20 + 4 * unat (th_doff (ts_header seg)) + length (buffer_str (ts_payload seg)) < 2 ^ 16"

definition seg_sent :: "u16 \<Rightarrow> u16 \<Rightarrow> TCPSegment \<Rightarrow> TCPSegment \<Rightarrow> bool" where
  "seg_sent sport dport seg seg' \<longleftrightarrow>
     (\<exists>c. ts_header seg' = (ts_header seg)\<lparr>th_sport := sport, th_dport := dport, th_cksum := c\<rparr>) \<and>
     buffer_str (ts_payload seg') = buffer_str (ts_payload seg)"

lemma pseudo_cksum_bound: "unat (pseudo_cksum h) < 2 ^ 19"
proof -
  have hi: "unat (drop_bit 16 x) < 2 ^ 16" for x :: u32
    using unat_bounds(3) [of x] by (simp add: unat_drop_bit_div)
  have lo: "unat (x AND 0xffff) < 2 ^ 16" for x :: u32
  proof -
    have "x AND 0xffff = take_bit 16 x" by (simp add: take_bit_eq_mask mask_eq_exp_minus_1)
    then have "unat (x AND 0xffff) = unat x mod 2 ^ 16" by (simp only: unat_take_bit_mod)
    then show ?thesis by simp
  qed
  have "unat (pseudo_cksum h) \<le>
      unat (drop_bit 16 (ih_src h)) + unat (ih_src h AND 0xffff) + (unat (drop_bit 16 (ih_dst h)) + unat (ih_dst h AND 0xffff)) +
      unat (ucast (ih_proto h) :: u32) + unat (ucast (payload_length h) :: u32)"
    by (simp add: pseudo_cksum_def Let_def unat_word_ariths)
  moreover have "unat (ucast (ih_proto h) :: u32) < 256" "unat (ucast (payload_length h) :: u32) < 65536"
    using unat_bounds(1) [of "ih_proto h"] unat_bounds(2) [of "payload_length h"] by (simp_all add: unsigned_ucast_eq take_bit_nat_eq_self)
  ultimately show ?thesis using hi [of "ih_src h"] hi [of "ih_dst h"] lo [of "ih_src h"] lo [of "ih_dst h"] by simp
qed

text \<open>A datagram that carries a segment from one endpoint to another, in whatever buffer its payload arrives.\<close>

definition carries :: "u16 \<Rightarrow> u32 \<Rightarrow> u16 \<Rightarrow> u32 \<Rightarrow> TCPSegment \<Rightarrow> IPv4Datagram \<Rightarrow> bool" where
  "carries p a q b seg d \<longleftrightarrow>
     dgram_ok d \<and> ih_src (ip_header d) = a \<and> ih_dst (ip_header d) = b \<and> ih_proto (ip_header d) = PROTO_TCP \<and>
     (\<forall>buf. buffer_ok buf \<and> buffer_str buf = concatenate (ip_payload d) \<longrightarrow>
        (\<exists>seg'. tcp_segment_parse TCPSegment0 buf (pseudo_cksum (ip_header d)) = Inr (NoError, seg') \<and> seg_sent p q seg seg'))"

lemma wrap_tcp_in_ip_eq:
  assumes "fd_between p a q b ad" and "seg_fits seg"
  shows "\<exists>d. wrap_tcp_in_ip ad seg = Inr d \<and> carries p a q b seg d \<and> ih_ttl (ip_header d) = DEFAULT_TTL"
proof -
  let ?seg = "seg\<lparr>ts_header := (ts_header seg)\<lparr>th_sport := p, th_dport := q\<rparr>\<rparr>"
  let ?n = "4 * unat (th_doff (ts_header seg)) + length (buffer_str (ts_payload seg))"
  define h where "h = IPv4Header0\<lparr>ih_src := a, ih_dst := b,
    ih_len := of_nat (20 + unat (th_doff (ts_header seg)) * 4 + buf_size (ts_payload seg))\<rparr>"
  have n: "20 + ?n < 2 ^ 16" and doff: "5 \<le> th_doff (ts_header seg)" "th_doff (ts_header seg) < 16"
    using assms(2) by (simp_all add: seg_fits_def)
  have "(?n + 1) div 2 \<le> 32768" using n by simp
  then have "unat (pseudo_cksum h) + 65535 * ((?n + 1) div 2) < 2 ^ 32" using pseudo_cksum_bound [of h] by simp
  then have pre: "5 \<le> th_doff (ts_header ?seg)" "th_doff (ts_header ?seg) < 16" "unat (pseudo_cksum h) + 65535 *
      ((4 * unat (th_doff (ts_header ?seg)) + length (buffer_str (ts_payload ?seg)) + 1) div 2) < 2 ^ 32"
    using doff by simp_all
  from tcp_segment_wire [OF pre, of TCPSegment0]
  obtain bl c where w: "tcp_segment_serialize ?seg (pseudo_cksum h) = Inr bl"
    "length (concatenate bl) = 4 * unat (th_doff (ts_header ?seg)) + length (buffer_str (ts_payload ?seg))"
    and dec: "\<And>buf. buffer_ok buf \<Longrightarrow> buffer_str buf = concatenate bl \<Longrightarrow>
      \<exists>seg'. tcp_segment_parse TCPSegment0 buf (pseudo_cksum h) = Inr (NoError, seg') \<and>
        ts_header seg' = (ts_header ?seg)\<lparr>th_cksum := c\<rparr> \<and> buffer_ok (ts_payload seg') \<and>
        buffer_str (ts_payload seg') = buffer_str (ts_payload ?seg)"
    by blast
  let ?d = "IPv4Datagram0\<lparr>ip_header := h, ip_payload := bl\<rparr>"
  have "wrap_tcp_in_ip ad seg = Inr ?d"
    using assms(1) w(1) unfolding h_def
    by (simp add: wrap_tcp_in_ip_def fd_between_def config_def Let_def IPv4Datagram0_def IPv4Header0_def del: of_nat_add of_nat_mult)
  moreover have "unat (ih_len h) = 20 + ?n"
  proof -
    have e: "20 + unat (th_doff (ts_header seg)) * 4 + buf_size (ts_payload seg) = 20 + ?n"
      using assms(2) by (simp add: seg_fits_def buf_size_def)
    have "ih_len h = of_nat (20 + unat (th_doff (ts_header seg)) * 4 + buf_size (ts_payload seg))"
      by (simp add: h_def del: of_nat_add of_nat_mult)
    then have "ih_len h = of_nat (20 + ?n)" by (simp only: e)
    then show ?thesis using n by (simp only: unat_of_nat) simp
  qed
  then have "dgram_ok ?d"
    using w(2) by (simp add: dgram_ok_def) (simp add: ipv4_header_ok_def h_def IPv4Header0_def)
  moreover have "\<exists>seg'. tcp_segment_parse TCPSegment0 buf (pseudo_cksum h) = Inr (NoError, seg') \<and> seg_sent p q seg seg'"
    if "buffer_ok buf" "buffer_str buf = concatenate bl" for buf
    using dec [OF that] by (auto simp: seg_sent_def)
  moreover have "ih_src h = a \<and> ih_dst h = b \<and> ih_proto h = PROTO_TCP \<and> ih_ttl h = DEFAULT_TTL"
    by (simp add: h_def IPv4Header0_def)
  ultimately show ?thesis by (intro exI [of _ ?d]) (auto simp: carries_def)
qed

text \<open>What the other end makes of it: a connected adapter, and one that listens and gets a SYN.\<close>

definition seg_for :: "u16 \<Rightarrow> u32 \<Rightarrow> u16 \<Rightarrow> u32 \<Rightarrow> TCPSegment \<Rightarrow> fd_adapter \<Rightarrow> resolver \<Rightarrow> bool" where
  "seg_for p a q b seg ad getaddrinfo \<longleftrightarrow>
     (if fa_listen ad
      then (\<exists>a0. fac_source (fa_cfg ad) = inet_address p a0) \<and> resolves getaddrinfo p a \<and> resolves getaddrinfo q b \<and>
        th_syn (ts_header seg) \<and> \<not> th_rst (ts_header seg)
      else fd_between p a q b ad)"

lemma unwrap_carries:
  assumes "carries q b p a seg d" and "seg_for p a q b seg ad getaddrinfo" and "ip_payload d = [t]" and "buffer_ok t"
  shows "\<exists>ad' seg'. unwrap_tcp_in_ip getaddrinfo ad d = Inr (ad', Some seg') \<and> seg_sent q p seg seg' \<and>
    fd_between p a q b ad' \<and> \<not> fa_listen ad'"
proof -
  have h: "ih_src (ip_header d) = b" "ih_dst (ip_header d) = a" "ih_proto (ip_header d) = PROTO_TCP"
    using assms(1) by (simp_all add: carries_def)
  have "buffer_str t = concatenate (ip_payload d)" using assms(3) by simp
  then obtain seg' where seg': "tcp_segment_parse TCPSegment0 t (pseudo_cksum (ip_header d)) = Inr (NoError, seg')" "seg_sent q p seg seg'"
    using assms(1,4) unfolding carries_def by blast
  have f: "th_sport (ts_header seg') = q" "th_dport (ts_header seg') = p" "th_syn (ts_header seg') = th_syn (ts_header seg)"
    "th_rst (ts_header seg') = th_rst (ts_header seg)"
    using seg'(2) by (auto simp: seg_sent_def)
  show ?thesis
  proof (cases "fa_listen ad")
    case True
    then show ?thesis
      using assms(2,3) h seg' f unfolding seg_for_def
      by (auto simp: unwrap_tcp_in_ip_def Let_def fd_between_def config_def listening_def set_listening_def bl_to_Buffer_def resolves_def)
  next
    case False
    then show ?thesis
      using assms(2,3) h seg' f unfolding seg_for_def
      by (simp add: unwrap_tcp_in_ip_def Let_def fd_between_def config_def listening_def bl_to_Buffer_def)
  qed
qed

lemma pseudo_cksum_cksum [simp]: "pseudo_cksum (h\<lparr>ih_cksum := c\<rparr>) = pseudo_cksum h" "pseudo_cksum (h\<lparr>ih_ttl := t\<rparr>) = pseudo_cksum h"
  by (simp_all add: pseudo_cksum_def payload_length_def)

lemma carries_same: "carries p a q b seg d \<Longrightarrow> dgram_same d d' \<Longrightarrow> carries p a q b seg d'"
  using dgram_same_ok [of d d'] by (auto simp: carries_def dgram_same_def)

section \<open>Properties\<close>

text \<open>
  C38. TCP over IPv4, end to end on bytes. What an adapter writes to its TUN device for a segment is a datagram
  from which the adapter at the other end reads exactly that segment, with the port numbers and the
  checksum filled in, whether it was already connected or was listening and the segment is a SYN; in the
  second case it is connected to the sender afterwards.
\<close>

theorem tcp_over_ip_roundtrip:
  assumes "fd_between q b p a ad" and "seg_fits seg" and "seg_for p a q b seg peer getaddrinfo"
  shows "\<exists>bl peer' seg'. tun_adapter_write ad seg = Inr bl \<and>
    tun_adapter_read getaddrinfo peer (concatenate bl) = Inr (peer', Some seg') \<and>
    seg_sent q p seg seg' \<and> fd_between p a q b peer' \<and> \<not> fa_listen peer'"
proof -
  obtain d where d: "wrap_tcp_in_ip ad seg = Inr d" "carries q b p a seg d"
    using wrap_tcp_in_ip_eq [OF assms(1,2)] by blast
  then obtain bl d' where bl: "ipv4_datagram_serialize d = Inr bl" "length (concatenate bl) < 2 ^ 64"
    "ipv4_datagram_parse IPv4Datagram0 (Buffer (concatenate bl)) = Inr (NoError, d')" "dgram_same d d'"
    using dw.roundtrip [of d] dw.wire [of d] by (auto simp: carries_def)
  obtain t where t: "ip_payload d' = [t]" "buffer_ok t" using ipv4_parse_one_buffer [OF bl(3)] bl(2) by auto
  from unwrap_carries [OF carries_same [OF d(2) bl(4)] assms(3) t] show ?thesis
    using d(1) bl(1,3) by (simp add: tun_adapter_write_def tun_adapter_read_def)
qed

text \<open>
  C39. An adapter lets only its own traffic through. If \<^verbatim>\<open>unwrap_tcp_in_ip\<close> returns a segment, the datagram says it
  carries TCP, the segment passes the checksum and is for the adapter's port; a connected adapter is
  unchanged and the datagram comes from its peer and is addressed to it; a listening one has got a SYN that
  is no RST and now is connected to the sender. If it returns nothing, the adapter is unchanged.
\<close>

theorem unwrap_only_own_traffic:
  assumes "fac_source (fa_cfg ad) = inet_address p a" and "\<not> fa_listen ad \<longrightarrow> fac_destination (fa_cfg ad) = inet_address q b"
    and "resolves getaddrinfo p (ih_dst (ip_header d))" and "\<forall>q. resolves getaddrinfo q (ih_src (ip_header d))"
    and "unwrap_tcp_in_ip getaddrinfo ad d = Inr (ad', r)"
  shows "case r of
      None \<Rightarrow> ad' = ad
    | Some seg \<Rightarrow> ih_proto (ip_header d) = PROTO_TCP \<and> th_dport (ts_header seg) = p \<and>
        (\<exists>buf. bl_to_Buffer (ip_payload d) = Inr buf \<and>
           ic_value (ic_add (InternetChecksum (pseudo_cksum (ip_header d))) (buffer_str buf)) = 0) \<and> \<not> fa_listen ad' \<and>
        (if fa_listen ad
         then th_syn (ts_header seg) \<and> \<not> th_rst (ts_header seg) \<and>
           fd_between p (ih_dst (ip_header d)) (th_sport (ts_header seg)) (ih_src (ip_header d)) ad'
         else ad' = ad \<and> ih_src (ip_header d) = b \<and> ih_dst (ip_header d) = a \<and> th_sport (ts_header seg) = q)"
proof (cases "bl_to_Buffer (ip_payload d)")
  case (Inl e)
  then show ?thesis
    using assms
    by (cases "fa_listen ad") (auto simp: unwrap_tcp_in_ip_def Let_def config_def listening_def split: if_splits)
next
  case (Inr buf)
  have noerr: "tcp_segment_parse TCPSegment0 buf ck = Inr (NoError, seg) \<Longrightarrow> ic_value (ic_add (InternetChecksum ck) (buffer_str buf)) = 0" for ck seg
    by (auto simp: tcp_segment_parse_def split: if_splits)
  show ?thesis
  proof (cases "tcp_segment_parse TCPSegment0 buf (pseudo_cksum (ip_header d))")
    case (Inl e)
    then show ?thesis
      using assms Inr
      by (cases "fa_listen ad") (auto simp: unwrap_tcp_in_ip_def Let_def config_def listening_def split: if_splits)
  next
    case res: (Inr x)
    obtain result seg where x: "x = (result, seg)" by force
    show ?thesis
      using assms Inr res x noerr [of "pseudo_cksum (ip_header d)" seg]
      by (cases "fa_listen ad")
        (auto simp: unwrap_tcp_in_ip_def Let_def config_def listening_def set_listening_def resolves_def fd_between_def split: if_splits)
  qed
qed

lemma dgram_length:
  assumes "dgram_ok d" and "ipv4_datagram_serialize d = Inr bl"
  shows "length (concatenate bl) = unat (ih_len (ip_header d))"
proof -
  let ?h = "ip_header d"
  have ok: "ih_ver ?h = 4" "20 \<le> 4 * unat (ih_hlen ?h)"
    using assms(1) ipv4_header_ok_hlen [of ?h] by (simp_all add: dgram_ok_def ipv4_header_ok_def)
  then have "ipv4_header_serialize (?h\<lparr>ih_cksum := c\<rparr>) =
      Inr (ipv4_before_cksum ?h @ be_bytes 2 (unat c) @ ipv4_after_cksum ?h)" for c
    using ipv4_header_serialize_eq [of "?h\<lparr>ih_cksum := c\<rparr>"] by simp
  then show ?thesis
    using assms ok(2)
    by (auto simp: ipv4_datagram_serialize_def Let_def BufferList_of_string_def dgram_ok_def split: if_splits)
qed

text \<open>An interface that reads the bytes of a frame.\<close>

lemma frame_from_wire:
  assumes "frame_fits f"
  shows "\<exists>f' t. ethernet_frame_parse EthernetFrame0 (Buffer (concatenate (ethernet_frame_serialize f))) = Inr (NoError, f') \<and>
    ef_header f' = ef_header f \<and> ef_payload f' = [t] \<and> buffer_ok t \<and> buffer_str t = concatenate (ef_payload f)"
proof -
  have "length (concatenate (ethernet_frame_serialize f)) < 2 ^ 64" using ew.wire [OF assms] by auto
  then show ?thesis using ethernet_frame_wire [of f EthernetFrame0] assms by (simp add: frame_fits_def)
qed

lemma arp_frame_fits: "arp_fits m \<Longrightarrow> length src = 6 \<Longrightarrow> length dst = 6 \<Longrightarrow> frame_fits (arp_frame src dst m)"
  using arp_serialize_supported [of m] arp_roundtrip_aux(2) [of m _ ARPMessage0]
  by (auto simp: frame_fits_def arp_frame_def eth_ok_def arp_fits_def BufferList_of_string_def)

lemma data_frame_fits: "dgram_ok d \<Longrightarrow> length src = 6 \<Longrightarrow> length dst = 6 \<Longrightarrow> frame_fits (data_frame src dst d)"
  using dgram_serializes [of d] dgram_length [of d] unat_bounds(2) [of "ih_len (ip_header d)"]
  by (auto simp: frame_fits_def data_frame_def eth_ok_def intro: order_less_trans)

lemma recv_arp_wire:
  assumes "ni_inv ni" and "arp_fits m" and "length src = 6" "length dst = 6"
    and "dst = ni_ethernet_address ni \<or> dst = ETHERNET_BROADCAST"
  shows "\<exists>f. ethernet_frame_parse EthernetFrame0 (Buffer (concatenate (ethernet_frame_serialize (arp_frame src dst m)))) =
      Inr (NoError, f) \<and> recv_frame ni f = Inr (learned ni m, None)"
  using frame_from_wire [OF arp_frame_fits [OF assms(2-4)]] recv_arp_frame [OF assms(1,2,5)] by blast

lemma recv_data_wire:
  assumes "dgram_ok d" and "length src = 6" "length dst = 6" and "dst = ni_ethernet_address ni"
  shows "\<exists>f d' t. ethernet_frame_parse EthernetFrame0 (Buffer (concatenate (ethernet_frame_serialize (data_frame src dst d)))) =
      Inr (NoError, f) \<and> recv_frame ni f = Inr (ni, Some d') \<and> dgram_same d d' \<and> ip_payload d' = [t] \<and> buffer_ok t"
  using frame_from_wire [OF data_frame_fits [OF assms(1-3)]] recv_data_frame [OF assms(1,4)] by blast

text \<open>Two interfaces on one link, where the first has not asked for the address of the second yet.\<close>

definition link_ready :: "network_interface \<Rightarrow> network_interface \<Rightarrow> u32 \<Rightarrow> bool" where
  "link_ready x y hop \<longleftrightarrow>
     ni_inv x \<and> ni_inv y \<and> ni_frames_out x = [] \<and> ni_frames_out y = [] \<and> ni_ip y = hop \<and>
     map_of (ni_arp_table x) hop = None \<and> map_of (ni_arp_request_time x) hop = None \<and> waiting y (ni_ip x) = []"

text \<open>The four states of an address resolution, and the frames that go over the link.\<close>

lemma resolution_request:
  assumes "link_ready x y hop"
  shows "sent x d hop =
    x\<lparr>ni_frames_out := [request_frame x hop], ni_arp_request_time := AList.update hop 0 (ni_arp_request_time x),
      ni_arp_wait_ipdata := AList.update hop [d] (ni_arp_wait_ipdata x)\<rparr>"
  using assms by (simp add: link_ready_def sent_def)

lemma resolution_reply:
  assumes "link_ready x y hop"
  shows "ni_frames_out (learned y (arp_request_of x hop)) = [reply_frame y (arp_request_of x hop)]"
    "ni_ethernet_address (learned y (arp_request_of x hop)) = ni_ethernet_address y"
  using assms
  by (simp_all add: link_ready_def learned_def) (simp add: arp_request_of_def)

lemma resolution_data:
  fixes d
  assumes "link_ready x y hop"
  defines "x1 \<equiv> (sent x d hop)\<lparr>ni_frames_out := []\<rparr>"
  shows "ni_frames_out (learned x1 (arp_reply_of y (arp_request_of x hop))) =
    [data_frame (ni_ethernet_address x) (ni_ethernet_address y) d]"
proof -
  have "am_sender_ip_address (arp_reply_of y (arp_request_of x hop)) = hop"
    "am_sender_ethernet_address (arp_reply_of y (arp_request_of x hop)) = ni_ethernet_address y"
    "am_opcode (arp_reply_of y (arp_request_of x hop)) \<noteq> OPCODE_REQUEST"
    using assms(1) by (simp_all add: link_ready_def arp_reply_of_def OPCODE_REPLY_def OPCODE_REQUEST_def)
  moreover have "waiting x1 hop = [d]" by (simp add: x1_def resolution_request [OF assms(1)] waiting_def update_conv')
  moreover have "ni_frames_out x1 = []" "ni_ethernet_address x1 = ni_ethernet_address x"
    by (simp_all add: x1_def resolution_request [OF assms(1)])
  ultimately show ?thesis by (simp add: learned_def)
qed

text \<open>
  C37. The whole stack on a link. Let an adapter over a TAP device write a TCP segment while the address of the
  next hop is not known. It sends one frame, an ARP request; the other adapter answers it with one frame, an
  ARP reply; the first one then sends one frame with the datagram; and from the bytes of this frame the
  other adapter reads exactly the segment, with ports and checksum filled in.
\<close>

theorem tcp_over_ethernet_delivers:
  assumes "link_ready (ea_interface x) (ea_interface y) hop" and "ipv4_numeric (ea_next_hop x) = Inr hop"
    and "fd_between q b p a (ea_base x)" and "seg_fits seg" and "seg_for p a q b seg (ea_base y) getaddrinfo"
  shows "\<exists>x1 y1 x2 y2 w1 w2 w3 seg'.
    tap_adapter_write x seg = Inr (x1, [w1]) \<and>
    tap_adapter_read getaddrinfo y (concatenate w1) = Inr (y1, [w2], None) \<and>
    tap_adapter_read getaddrinfo x1 (concatenate w2) = Inr (x2, [w3], None) \<and>
    tap_adapter_read getaddrinfo y1 (concatenate w3) = Inr (y2, [], Some seg') \<and>
    seg_sent q p seg seg' \<and> fd_between p a q b (ea_base y2) \<and> \<not> fa_listen (ea_base y2)"
proof -
  let ?x = "ea_interface x" and ?y = "ea_interface y"
  let ?req = "arp_request_of ?x hop"
  let ?rep = "arp_reply_of ?y ?req"
  have inv: "ni_inv ?x" "ni_inv ?y" using assms(1) by (simp_all add: link_ready_def)
  have len: "length (ni_ethernet_address ?x) = 6" "length (ni_ethernet_address ?y) = 6" using inv by (simp_all add: ni_inv_def)
  obtain d where d: "wrap_tcp_in_ip (ea_base x) seg = Inr d" "carries q b p a seg d"
    using wrap_tcp_in_ip_eq [OF assms(3,4)] by blast
  have dok: "dgram_ok d" using d(2) by (simp add: carries_def)
  define x1 where "x1 = x\<lparr>ea_interface := (sent ?x d hop)\<lparr>ni_frames_out := []\<rparr>\<rparr>"
  have inv1: "ni_inv (ea_interface x1)" using sent_inv [OF inv(1) dok, of hop] by (simp add: x1_def)
  have eth1: "ni_ethernet_address (ea_interface x1) = ni_ethernet_address ?x"
    by (simp add: x1_def resolution_request [OF assms(1)])
  define w1 where "w1 = ethernet_frame_serialize (request_frame ?x hop)"
  have 1: "tap_adapter_write x seg = Inr (x1, [w1])"
    using d(1) send_datagram_eq [OF inv(1) dok assms(2)] resolution_request [OF assms(1), of d]
    by (simp add: tap_adapter_write_def send_pending_def x1_def w1_def)
  define y1 where "y1 = y\<lparr>ea_interface := (learned ?y ?req)\<lparr>ni_frames_out := []\<rparr>\<rparr>"
  define w2 where "w2 = ethernet_frame_serialize (reply_frame ?y ?req)"
  have bc: "length ETHERNET_BROADCAST = 6" by (simp add: ETHERNET_BROADCAST_def)
  obtain f1 where f1: "ethernet_frame_parse EthernetFrame0 (Buffer (concatenate w1)) = Inr (NoError, f1)"
    "recv_frame ?y f1 = Inr (learned ?y ?req, None)"
    using recv_arp_wire [OF inv(2) arp_request_fits(1) [OF inv(1)] len(1) bc] by (auto simp: w1_def request_frame_def)
  have 2: "tap_adapter_read getaddrinfo y (concatenate w1) = Inr (y1, [w2], None)"
    using f1 resolution_reply(1) [OF assms(1)] by (simp add: tap_adapter_read_def send_pending_def y1_def w2_def)
  have snd: "am_sender_ethernet_address ?req = ni_ethernet_address ?x" by (simp add: arp_request_of_def)
  define x2 where "x2 = x1\<lparr>ea_interface := (learned (ea_interface x1) ?rep)\<lparr>ni_frames_out := []\<rparr>\<rparr>"
  define w3 where "w3 = ethernet_frame_serialize (data_frame (ni_ethernet_address ?x) (ni_ethernet_address ?y) d)"
  obtain f2 where f2: "ethernet_frame_parse EthernetFrame0 (Buffer (concatenate w2)) = Inr (NoError, f2)"
    "recv_frame (ea_interface x1) f2 = Inr (learned (ea_interface x1) ?rep, None)"
    using recv_arp_wire [OF inv1 arp_request_fits(2) [OF inv], of "ni_ethernet_address ?y" "ni_ethernet_address ?x" hop] len eth1
    by (auto simp: w2_def reply_frame_def snd)
  have 3: "tap_adapter_read getaddrinfo x1 (concatenate w2) = Inr (x2, [w3], None)"
    using f2 resolution_data [OF assms(1), of d] by (simp add: tap_adapter_read_def send_pending_def x2_def w3_def x1_def)
  obtain f3 d' t where f3: "ethernet_frame_parse EthernetFrame0 (Buffer (concatenate w3)) = Inr (NoError, f3)"
    "recv_frame (ea_interface y1) f3 = Inr (ea_interface y1, Some d')" "dgram_same d d'" "ip_payload d' = [t]" "buffer_ok t"
    using recv_data_wire [OF dok len, of "ea_interface y1"] resolution_reply(2) [OF assms(1)] by (auto simp: w3_def y1_def)
  have "ea_base y1 = ea_base y" by (simp add: y1_def)
  then obtain ad' seg' where "unwrap_tcp_in_ip getaddrinfo (ea_base y1) d' = Inr (ad', Some seg')" "seg_sent q p seg seg'"
    "fd_between p a q b ad'" "\<not> fa_listen ad'"
    using unwrap_carries [OF carries_same [OF d(2) f3(3)] assms(5) f3(4,5)] by auto
  moreover have "ni_frames_out (ea_interface y1) = []" by (simp add: y1_def)
  ultimately have "tap_adapter_read getaddrinfo y1 (concatenate w3) = Inr (y1\<lparr>ea_base := ad'\<rparr>, [], Some seg') \<and>
      seg_sent q p seg seg' \<and> fd_between p a q b (ea_base (y1\<lparr>ea_base := ad'\<rparr>)) \<and> \<not> fa_listen (ea_base (y1\<lparr>ea_base := ad'\<rparr>))"
    using f3(1,2) by (simp add: tap_adapter_read_def send_pending_def)
  then show ?thesis using 1 2 3 by blast
qed

text \<open>The witnesses: two endpoints, 10.0.0.1 port 7 and 10.0.0.2 port 9, and a resolver that knows their addresses.\<close>

definition sample_resolver :: resolver where
  "sample_resolver node service hints =
     Inr [sockaddr_in (of_nat (stoi service)) (if node = inet_ntoa 0x0A000001 then 0x0A000001 else 0x0A000002)]"

definition sample_adapter :: "u16 \<Rightarrow> u32 \<Rightarrow> u16 \<Rightarrow> u32 \<Rightarrow> bool \<Rightarrow> fd_adapter" where
  "sample_adapter p a q b l =
     \<lparr>fa_cfg = \<lparr>fac_source = inet_address p a, fac_destination = inet_address q b, fac_loss_rate_dn = 0, fac_loss_rate_up = 0\<rparr>,
      fa_listen = l\<rparr>"

definition sample_tap :: "u16 \<Rightarrow> u32 \<Rightarrow> u16 \<Rightarrow> u32 \<Rightarrow> bool \<Rightarrow> u8 \<Rightarrow> ethernet_adapter" where
  "sample_tap p a q b l n =
     \<lparr>ea_base = sample_adapter p a q b l,
      ea_interface = \<lparr>ni_ethernet_address = [2, 0, 0, 0, 0, n], ni_ip_address = inet_address 0 a, ni_frames_out = [],
        ni_arp_table = [], ni_arp_request_time = [], ni_arp_wait_ipdata = []\<rparr>,
      ea_next_hop = inet_address 0 b\<rparr>"

definition sample_syn :: TCPSegment where
  "sample_syn = \<lparr>ts_header = TCPHeader0\<lparr>th_syn := True, th_seqno := WrappingInt32 5\<rparr>, ts_payload = Buffer [1, 2]\<rparr>"

lemma sample_resolves: "resolves sample_resolver p 0x0A000001" "resolves sample_resolver p 0x0A000002"
proof -
  have "inet_ntoa 0x0A000001 \<noteq> inet_ntoa 0x0A000002" using inet_ntoa_inj by fastforce
  then show "resolves sample_resolver p 0x0A000001" "resolves sample_resolver p 0x0A000002"
    by (simp_all add: resolves_def Address_ip_def Address_resolve_def sample_resolver_def of_base_to_base)
qed

lemma sample_conditions:
  "fd_between p a q b (sample_adapter p a q b l)" "seg_fits sample_syn"
  "seg_for 7 0x0A000001 9 0x0A000002 sample_syn (sample_adapter 7 0 0 0 True) sample_resolver"
  by (simp_all add: fd_between_def sample_adapter_def seg_fits_def sample_syn_def TCPHeader0_def seg_for_def sample_resolves) blast

theorem tcp_over_ip_roundtrip_witness:
  "\<exists>bl peer' seg'. tun_adapter_write (sample_adapter 9 0x0A000002 7 0x0A000001 False) sample_syn = Inr bl \<and>
     tun_adapter_read sample_resolver (sample_adapter 7 0 0 0 True) (concatenate bl) = Inr (peer', Some seg') \<and>
     buffer_str (ts_payload seg') = [1, 2] \<and> fd_between 7 0x0A000001 9 0x0A000002 peer'"
proof -
  have "\<exists>bl peer' seg'. tun_adapter_write (sample_adapter 9 0x0A000002 7 0x0A000001 False) sample_syn = Inr bl \<and>
     tun_adapter_read sample_resolver (sample_adapter 7 0 0 0 True) (concatenate bl) = Inr (peer', Some seg') \<and>
     seg_sent 9 7 sample_syn seg' \<and> fd_between 7 0x0A000001 9 0x0A000002 peer' \<and> \<not> fa_listen peer'"
    by (rule tcp_over_ip_roundtrip) (rule sample_conditions)+
  then show ?thesis by (auto simp: seg_sent_def sample_syn_def)
qed

theorem unwrap_only_own_traffic_witness:
  "\<exists>d ad' seg. wrap_tcp_in_ip (sample_adapter 9 0x0A000002 7 0x0A000001 False) sample_syn = Inr d \<and>
     unwrap_tcp_in_ip sample_resolver (sample_adapter 7 0x0A000001 0 0 True) (d\<lparr>ip_payload := [Buffer (concatenate (ip_payload d))]\<rparr>) =
       Inr (ad', Some seg) \<and>
     th_dport (ts_header seg) = 7 \<and> th_syn (ts_header seg) \<and> \<not> fa_listen ad'"
proof -
  let ?ad = "sample_adapter 7 0x0A000001 0 0 True"
  obtain d where d: "wrap_tcp_in_ip (sample_adapter 9 0x0A000002 7 0x0A000001 False) sample_syn = Inr d"
    "carries 9 0x0A000002 7 0x0A000001 sample_syn d"
    using wrap_tcp_in_ip_eq [OF sample_conditions(1,2)] by blast
  define d' where "d' = d\<lparr>ip_payload := [Buffer (concatenate (ip_payload d))]\<rparr>"
  have len: "length (concatenate (ip_payload d)) < 2 ^ 64" using d(2) unat_bounds(2) [of "ih_len (ip_header d)"] by (simp add: carries_def dgram_ok_def)
  have "ip_header d = (ip_header d)\<lparr>ih_cksum := ih_cksum (ip_header d)\<rparr>" by simp
  then have "dgram_same d d'" unfolding dgram_same_def d'_def by (auto intro!: exI [of _ "ih_cksum (ip_header d)"])
  then have c: "carries 9 0x0A000002 7 0x0A000001 sample_syn d'" by (rule carries_same [OF d(2)])
  have "seg_for 7 0x0A000001 9 0x0A000002 sample_syn ?ad sample_resolver"
    by (simp add: seg_for_def sample_resolves sample_adapter_def sample_syn_def TCPHeader0_def) blast
  moreover have "ip_payload d' = [Buffer (concatenate (ip_payload d))]" by (simp add: d'_def)
  moreover have "buffer_ok (Buffer (concatenate (ip_payload d)))" using len by simp
  ultimately obtain ad' seg where u: "unwrap_tcp_in_ip sample_resolver ?ad d' = Inr (ad', Some seg)"
    using unwrap_carries [OF c] by blast
  have h: "ih_dst (ip_header d') = 0x0A000001" "ih_src (ip_header d') = 0x0A000002" using c by (simp_all add: carries_def)
  have "fac_source (fa_cfg ?ad) = inet_address 7 0x0A000001" "fa_listen ?ad" by (simp_all add: sample_adapter_def)
  then have "th_dport (ts_header seg) = 7 \<and> th_syn (ts_header seg) \<and> \<not> fa_listen ad'"
    using unwrap_only_own_traffic [OF _ _ _ _ u] h by (simp add: sample_resolves)
  then show ?thesis using d(1) u by (auto simp: d'_def)
qed

theorem tcp_over_ethernet_delivers_witness:
  "\<exists>x1 y1 x2 y2 w1 w2 w3 seg'.
    tap_adapter_write (sample_tap 9 0x0A000002 7 0x0A000001 False 2) sample_syn = Inr (x1, [w1]) \<and>
    tap_adapter_read sample_resolver (sample_tap 7 0x0A000001 9 0x0A000002 False 1) (concatenate w1) = Inr (y1, [w2], None) \<and>
    tap_adapter_read sample_resolver x1 (concatenate w2) = Inr (x2, [w3], None) \<and>
    tap_adapter_read sample_resolver y1 (concatenate w3) = Inr (y2, [], Some seg') \<and> seg_sent 9 7 sample_syn seg'"
proof -
  let ?x = "sample_tap 9 0x0A000002 7 0x0A000001 False 2" and ?y = "sample_tap 7 0x0A000001 9 0x0A000002 False 1"
  have "link_ready (ea_interface ?x) (ea_interface ?y) 0x0A000001"
    by (simp add: link_ready_def sample_tap_def ni_inv_def ni_ip_def waiting_def)
  moreover have "ipv4_numeric (ea_next_hop ?x) = Inr 0x0A000001" by (simp add: sample_tap_def)
  moreover have "seg_for 7 0x0A000001 9 0x0A000002 sample_syn (ea_base ?y) sample_resolver" "fd_between 9 0x0A000002 7 0x0A000001 (ea_base ?x)"
    by (simp_all add: sample_tap_def seg_for_def sample_conditions) (simp add: sample_adapter_def)
  ultimately show ?thesis using tcp_over_ethernet_delivers [of ?x ?y _ 9 _ 7] sample_conditions(2) by meson
qed

end
