(* ===== verification/Router.thy ===== *)
theory Router
  imports Network_Interface
begin

text \<open>
  \<^verbatim>\<open>libsponge/router.{hh,cc}\<close>: the asynchronous interface, which queues the datagrams it receives, and the
  router, which forwards them by longest prefix match. The \<^verbatim>\<open>std::set\<close> of routes is the list of its elements
  in the order of \<^verbatim>\<open>RouteEntry::operator<\<close>. A prefix length above 32, for which the shift of the mask is
  undefined in C++, is outside the model: the theorems assume at most 32.
\<close>

unbundle bit_operations_syntax

section \<open>Definitions\<close>

record async_interface =
  ani_interface :: network_interface
  ani_datagrams_out :: "IPv4Datagram list"

definition AsyncNetworkInterface :: "network_interface \<Rightarrow> async_interface" where
  "AsyncNetworkInterface ni = \<lparr>ani_interface = ni, ani_datagrams_out = []\<rparr>"

definition async_recv_frame :: "async_interface \<Rightarrow> EthernetFrame \<Rightarrow> async_interface res" where
  "async_recv_frame ai frame =
     bind_res (recv_frame (ani_interface ai) frame) (\<lambda>(ni, optional_dgram).
       let ai = ai\<lparr>ani_interface := ni\<rparr> in
       case optional_dgram of
         Some dgram \<Rightarrow> Inr (ai\<lparr>ani_datagrams_out := ani_datagrams_out ai @ [dgram]\<rparr>)
       | None \<Rightarrow> Inr ai)"

record RouteEntry =
  re_route_prefix :: u32
  re_prefix_length :: u8
  re_next_hop :: "Address option"
  re_interface_num :: nat

definition route_less :: "RouteEntry \<Rightarrow> RouteEntry \<Rightarrow> bool" where
  "route_less a other =
     (if re_prefix_length a \<noteq> re_prefix_length other then re_prefix_length other < re_prefix_length a
      else if re_route_prefix a \<noteq> re_route_prefix other then re_route_prefix a < re_route_prefix other
      else re_interface_num a < re_interface_num other)"

text \<open>\<^verbatim>\<open>std::set::insert\<close>: an element equivalent to one of the set is not inserted.\<close>

fun route_insert :: "RouteEntry \<Rightarrow> RouteEntry list \<Rightarrow> RouteEntry list" where
  "route_insert e [] = [e]"
| "route_insert e (x # xs) =
     (if route_less e x then e # x # xs else if route_less x e then x # route_insert e xs else x # xs)"

record router =
  rt_interfaces :: "async_interface list"
  rt_route_table :: "RouteEntry list"

definition Router0 :: router where
  "Router0 = \<lparr>rt_interfaces = [], rt_route_table = []\<rparr>"

definition add_interface :: "router \<Rightarrow> async_interface \<Rightarrow> router \<times> nat" where
  "add_interface r ai =
     (let r = r\<lparr>rt_interfaces := rt_interfaces r @ [ai]\<rparr> in (r, sub64 (length (rt_interfaces r)) 1))"

definition router_interface :: "router \<Rightarrow> nat \<Rightarrow> async_interface res" where
  "router_interface r N = (if N < length (rt_interfaces r) then Inr (rt_interfaces r ! N) else Inl Out_of_range)"

definition add_route :: "router \<Rightarrow> u32 \<Rightarrow> u8 \<Rightarrow> Address option \<Rightarrow> nat \<Rightarrow> router res" where
  "add_route r route_prefix prefix_length next_hop interface_num =
     bind_res (bind_res (from_ipv4_numeric route_prefix) addr_ip) (\<lambda>_.
     bind_res (case next_hop of Some a \<Rightarrow> addr_ip a | None \<Rightarrow> Inr ''(direct)'') (\<lambda>_.
       Inr (r\<lparr>rt_route_table := route_insert \<lparr>re_route_prefix = route_prefix, re_prefix_length = prefix_length,
                re_next_hop = next_hop, re_interface_num = interface_num\<rparr> (rt_route_table r)\<rparr>)))"

definition route_mask :: "RouteEntry \<Rightarrow> u32" where
  "route_mask route = (if re_prefix_length route = 0 then 0 else push_bit (32 - unat (re_prefix_length route)) (- 1))"

text \<open>The loop of \<^verbatim>\<open>route_one_datagram\<close> over the table.\<close>

fun best_route :: "u32 \<Rightarrow> RouteEntry list \<Rightarrow> RouteEntry option \<Rightarrow> RouteEntry option" where
  "best_route ip [] best = best"
| "best_route ip (route # rest) best =
     (let mask = route_mask route in
      if re_route_prefix route XOR (mask AND ip) = 0 then
        (if best = None \<or> (best \<noteq> None \<and> re_prefix_length (the best) < re_prefix_length route)
         then best_route ip rest (Some route) else best_route ip rest best)
      else best_route ip rest best)"

definition route_one_datagram :: "router \<Rightarrow> IPv4Datagram \<Rightarrow> router res" where
  "route_one_datagram r dgram =
     (let ip = ih_dst (ip_header dgram);
          best = best_route ip (rt_route_table r) None
      in if ih_ttl (ip_header dgram) \<le> 1 then Inr r
      else case best of
        None \<Rightarrow> Inr r
      | Some route \<Rightarrow>
          let dgram = dgram\<lparr>ip_header := (ip_header dgram)\<lparr>ih_ttl := ih_ttl (ip_header dgram) - 1\<rparr>\<rparr> in
          bind_res (router_interface r (re_interface_num route)) (\<lambda>next_interface.
          bind_res (case re_next_hop route of Some a \<Rightarrow> Inr a | None \<Rightarrow> from_ipv4_numeric ip) (\<lambda>next_ip.
          bind_res (send_datagram (ani_interface next_interface) dgram next_ip) (\<lambda>ni.
            Inr (r\<lparr>rt_interfaces := (rt_interfaces r)[re_interface_num route := next_interface\<lparr>ani_interface := ni\<rparr>]\<rparr>)))))"

text \<open>Forwarding does not touch the queues of received datagrams, so the loop of \<^verbatim>\<open>route\<close> ends.\<close>

lemma route_one_datagram_queues:
  "route_one_datagram r d = Inr r' \<Longrightarrow>
     map ani_datagrams_out (rt_interfaces r') = map ani_datagrams_out (rt_interfaces r)"
  by (auto simp: route_one_datagram_def router_interface_def Let_def bind_res_Inr_iff map_update
      split: if_splits option.splits intro!: list_update_same_conv [THEN iffD2])

definition pop_datagram :: "router \<Rightarrow> nat \<Rightarrow> router" where
  "pop_datagram r i =
     r\<lparr>rt_interfaces := (rt_interfaces r)[i := (rt_interfaces r ! i)\<lparr>ani_datagrams_out := tl (ani_datagrams_out (rt_interfaces r ! i))\<rparr>]\<rparr>"

function route_queue :: "router \<Rightarrow> nat \<Rightarrow> router res" where
  "route_queue r i =
     (if i < length (rt_interfaces r) \<and> ani_datagrams_out (rt_interfaces r ! i) \<noteq> [] then
        (case route_one_datagram r (hd (ani_datagrams_out (rt_interfaces r ! i))) of
           Inl e \<Rightarrow> Inl e
         | Inr r \<Rightarrow> route_queue (pop_datagram r i) i)
      else Inr r)"
  by auto
termination
proof (relation "measure (\<lambda>(r, i). length (map ani_datagrams_out (rt_interfaces r) ! i))")
  show "wf (measure (\<lambda>(r, i). length (map ani_datagrams_out (rt_interfaces r) ! i)))" by (rule wf_measure)
next
  fix r i r'
  assume 1: "i < length (rt_interfaces r) \<and> ani_datagrams_out (rt_interfaces r ! i) \<noteq> []"
    and 2: "route_one_datagram r (hd (ani_datagrams_out (rt_interfaces r ! i))) = Inr r'"
  have "map ani_datagrams_out (rt_interfaces r') = map ani_datagrams_out (rt_interfaces r)"
    using route_one_datagram_queues [OF 2] .
  then have "length (rt_interfaces r') = length (rt_interfaces r)"
    "ani_datagrams_out (rt_interfaces r' ! i) = ani_datagrams_out (rt_interfaces r ! i)"
    using 1 by (metis length_map, metis length_map nth_map)
  then show "((pop_datagram r' i, i), (r, i)) \<in> measure (\<lambda>(r, i). length (map ani_datagrams_out (rt_interfaces r) ! i))"
    using 1 by (simp add: pop_datagram_def)
qed

declare route_queue.simps [simp del]

text \<open>The loop of \<^verbatim>\<open>route\<close> over the interfaces, from number \<open>i\<close> on.\<close>

fun route_from :: "router \<Rightarrow> nat list \<Rightarrow> router res" where
  "route_from r [] = Inr r"
| "route_from r (i # is) = bind_res (route_queue r i) (\<lambda>r. route_from r is)"

definition route :: "router \<Rightarrow> router res" where
  "route r = route_from r [0 ..< length (rt_interfaces r)]"

section \<open>Longest prefix match\<close>

text \<open>
  What \<^verbatim>\<open>add_route\<close> documents: a route applies to an address when the first bits of both agree. The comparison of
  the code also asks that the remaining bits of the prefix are zero.
\<close>

definition route_applies :: "RouteEntry \<Rightarrow> u32 \<Rightarrow> bool" where
  "route_applies e ip \<longleftrightarrow> (\<forall>i. 32 - unat (re_prefix_length e) \<le> i \<and> i < 32 \<longrightarrow> bit (re_route_prefix e) i = bit ip i)"

definition route_canonical :: "RouteEntry \<Rightarrow> bool" where
  "route_canonical e \<longleftrightarrow> (\<forall>i < 32 - unat (re_prefix_length e). \<not> bit (re_route_prefix e) i)"

definition route_matches :: "RouteEntry \<Rightarrow> u32 \<Rightarrow> bool" where
  "route_matches e ip \<longleftrightarrow> re_route_prefix e XOR (route_mask e AND ip) = 0"

lemma bit_route_mask: "bit (route_mask e) i \<longleftrightarrow> 32 - unat (re_prefix_length e) \<le> i \<and> i < 32"
  by (auto simp: route_mask_def bit_not_iff bit_mask_iff)

lemma route_matches_iff: "route_matches e ip \<longleftrightarrow> route_canonical e \<and> route_applies e ip"
proof -
  have "route_matches e ip \<longleftrightarrow> (\<forall>i < 32. bit (re_route_prefix e) i = (32 - unat (re_prefix_length e) \<le> i \<and> bit ip i))"
    unfolding route_matches_def by (auto simp: bit_eq_iff bit_xor_iff bit_and_iff bit_route_mask)
  also have "\<dots> \<longleftrightarrow> route_canonical e \<and> route_applies e ip"
    unfolding route_canonical_def route_applies_def by (auto simp: not_le) (metis not_le)+
  finally show ?thesis .
qed

lemma best_route_Cons:
  "best_route ip (e # rs) best =
     (if route_matches e ip \<and> (best = None \<or> re_prefix_length (the best) < re_prefix_length e)
      then best_route ip rs (Some e) else best_route ip rs best)"
  by (auto simp: route_matches_def Let_def)

lemma best_route_spec:
  "case best_route ip rs best of
     None \<Rightarrow> best = None \<and> (\<forall>e \<in> set rs. \<not> route_matches e ip)
   | Some b \<Rightarrow> (best = Some b \<or> b \<in> set rs \<and> route_matches b ip) \<and>
       (\<forall>e \<in> set rs. route_matches e ip \<longrightarrow> re_prefix_length e \<le> re_prefix_length b) \<and>
       (\<forall>e. best = Some e \<longrightarrow> re_prefix_length e \<le> re_prefix_length b)"
proof (induction rs arbitrary: best)
  case (Cons e rs)
  show ?case
    using Cons.IH [of best] Cons.IH [of "Some e"] unfolding best_route_Cons
    by (cases "route_matches e ip"; cases best) (auto split: option.splits if_splits)
qed (simp split: option.split)

text \<open>What the set of routes keeps of the routes that were added.\<close>

definition route_equiv :: "RouteEntry \<Rightarrow> RouteEntry \<Rightarrow> bool" where
  "route_equiv a b \<longleftrightarrow> re_prefix_length a = re_prefix_length b \<and> re_route_prefix a = re_route_prefix b \<and>
     re_interface_num a = re_interface_num b"

lemma route_less_total: "\<not> route_less a b \<Longrightarrow> \<not> route_less b a \<Longrightarrow> route_equiv a b"
  by (auto simp: route_less_def route_equiv_def split: if_splits)

lemma route_insert_set:
  "set (route_insert e xs) \<subseteq> insert e (set xs)" "set xs \<subseteq> set (route_insert e xs)"
  "\<exists>x \<in> set (route_insert e xs). route_equiv e x"
proof -
  show "set (route_insert e xs) \<subseteq> insert e (set xs)" "set xs \<subseteq> set (route_insert e xs)"
    by (induction e xs rule: route_insert.induct) auto
  show "\<exists>x \<in> set (route_insert e xs). route_equiv e x"
    by (induction e xs rule: route_insert.induct) (auto simp: route_less_total, auto simp: route_equiv_def)
qed

lemma route_matches_equiv: "route_equiv a b \<Longrightarrow> route_matches a ip \<longleftrightarrow> route_matches b ip"
  by (simp add: route_equiv_def route_matches_def route_mask_def)

text \<open>A table built by calls of \<^verbatim>\<open>add_route\<close>.\<close>

fun add_routes :: "router \<Rightarrow> RouteEntry list \<Rightarrow> router res" where
  "add_routes r [] = Inr r"
| "add_routes r (e # es) =
     bind_res (add_route r (re_route_prefix e) (re_prefix_length e) (re_next_hop e) (re_interface_num e))
       (\<lambda>r. add_routes r es)"

lemma add_routes_table:
  "add_routes r es = Inr r' \<Longrightarrow>
     set (rt_route_table r') \<subseteq> set (rt_route_table r) \<union> set es \<and>
     (\<forall>e \<in> set (rt_route_table r) \<union> set es. \<exists>x \<in> set (rt_route_table r'). route_equiv e x)"
proof (induction es arbitrary: r)
  case Nil
  then show ?case by (auto simp: route_equiv_def)
next
  case (Cons e es)
  then obtain r1 where r1: "add_route r (re_route_prefix e) (re_prefix_length e) (re_next_hop e) (re_interface_num e) = Inr r1"
    "add_routes r1 es = Inr r'" by (auto simp: bind_res_Inr_iff)
  then have "rt_route_table r1 = route_insert e (rt_route_table r)"
    by (cases e) (auto simp: add_route_def bind_res_Inr_iff)
  then have "set (rt_route_table r1) \<subseteq> insert e (set (rt_route_table r))" "set (rt_route_table r) \<subseteq> set (rt_route_table r1)"
    "\<exists>x \<in> set (rt_route_table r1). route_equiv e x"
    using route_insert_set by metis+
  note tbl = this
  have trans: "route_equiv a b \<Longrightarrow> route_equiv b c \<Longrightarrow> route_equiv a c" for a b c by (simp add: route_equiv_def)
  note IH = Cons.IH [OF r1(2)]
  show ?case
  proof (intro conjI ballI)
    show "set (rt_route_table r') \<subseteq> set (rt_route_table r) \<union> set (e # es)" using IH tbl(1) by auto
    fix a assume "a \<in> set (rt_route_table r) \<union> set (e # es)"
    then consider "a = e" | "a \<in> set (rt_route_table r1) \<union> set es" using tbl(2) by auto
    then show "\<exists>x \<in> set (rt_route_table r'). route_equiv a x" using IH tbl(3) trans by cases blast+
  qed
qed

section \<open>Forwarding\<close>

text \<open>
  What \<^verbatim>\<open>route_one_datagram\<close> decides: the outgoing interface, the IP address of the next hop and the datagram with
  its new time to live.
\<close>

definition hop_address :: "RouteEntry \<Rightarrow> u32 \<Rightarrow> u32" where
  "hop_address e ip = (case re_next_hop e of None \<Rightarrow> ip | Some a \<Rightarrow> (case ipv4_numeric a of Inr hop \<Rightarrow> hop | Inl _ \<Rightarrow> 0))"

definition decrement_ttl :: "IPv4Datagram \<Rightarrow> IPv4Datagram" where
  "decrement_ttl d = d\<lparr>ip_header := (ip_header d)\<lparr>ih_ttl := ih_ttl (ip_header d) - 1\<rparr>\<rparr>"

definition forward :: "RouteEntry list \<Rightarrow> IPv4Datagram \<Rightarrow> (nat \<times> u32 \<times> IPv4Datagram) option" where
  "forward table d =
     (if ih_ttl (ip_header d) \<le> 1 then None
      else map_option (\<lambda>e. (re_interface_num e, hop_address e (ih_dst (ip_header d)), decrement_ttl d))
             (best_route (ih_dst (ip_header d)) table None))"

definition forwarded :: "RouteEntry list \<Rightarrow> network_interface list \<Rightarrow> IPv4Datagram \<Rightarrow> network_interface list" where
  "forwarded table nis d =
     (case forward table d of None \<Rightarrow> nis | Some (n, hop, d') \<Rightarrow> nis[n := sent (nis ! n) d' hop])"

text \<open>
  A router in working order: its routes lead to interfaces it has and to IPv4 addresses, and the datagrams it
  received can be serialised.
\<close>

definition route_ok :: "nat \<Rightarrow> RouteEntry \<Rightarrow> bool" where
  "route_ok n e \<longleftrightarrow> re_interface_num e < n \<and> (\<forall>a. re_next_hop e = Some a \<longrightarrow> (\<exists>hop. ipv4_numeric a = Inr hop))"

definition router_ok :: "router \<Rightarrow> bool" where
  "router_ok r \<longleftrightarrow>
     (\<forall>ai \<in> set (rt_interfaces r). ni_inv (ani_interface ai) \<and> (\<forall>d \<in> set (ani_datagrams_out ai). dgram_ok d)) \<and>
     (\<forall>e \<in> set (rt_route_table r). route_ok (length (rt_interfaces r)) e)"

lemma best_route_in: "best_route ip rs None = Some b \<Longrightarrow> b \<in> set rs"
  using best_route_spec [where ip = ip and rs = rs and best = None] by auto

lemma decrement_ttl_ok [simp]: "dgram_ok (decrement_ttl d) \<longleftrightarrow> dgram_ok d"
  by (simp add: decrement_ttl_def dgram_ok_def ipv4_header_ok_def)

lemma forward_ok:
  "router_ok r \<Longrightarrow> forward (rt_route_table r) d = Some (n, hop, d') \<Longrightarrow>
     n < length (rt_interfaces r) \<and> (dgram_ok d \<longrightarrow> dgram_ok d')"
  by (auto simp: forward_def router_ok_def route_ok_def dest!: best_route_in split: if_splits)

definition queues :: "router \<Rightarrow> IPv4Datagram list list" where
  "queues r = map ani_datagrams_out (rt_interfaces r)"

definition links :: "router \<Rightarrow> network_interface list" where
  "links r = map ani_interface (rt_interfaces r)"

lemma length_links [simp]: "length (links r) = length (rt_interfaces r)" "length (queues r) = length (rt_interfaces r)"
  by (simp_all add: links_def queues_def)

lemma router_eqI: "links r = links r' \<Longrightarrow> queues r = queues r' \<Longrightarrow> rt_route_table r = rt_route_table r' \<Longrightarrow> r = r'"
proof -
  assume "links r = links r'" "queues r = queues r'"
  then have "rt_interfaces r = rt_interfaces r'"
  proof (intro nth_equalityI)
    fix i assume i: "i < length (rt_interfaces r)"
    have "length (rt_interfaces r) = length (rt_interfaces r')" using \<open>links r = links r'\<close> by (metis length_links(1))
    then have "ani_interface (rt_interfaces r ! i) = ani_interface (rt_interfaces r' ! i)"
      "ani_datagrams_out (rt_interfaces r ! i) = ani_datagrams_out (rt_interfaces r' ! i)"
      using i \<open>links r = links r'\<close> \<open>queues r = queues r'\<close> unfolding links_def queues_def by (metis nth_map)+
    then show "rt_interfaces r ! i = rt_interfaces r' ! i" by simp
  qed (metis length_links(1))
  then show "rt_route_table r = rt_route_table r' \<Longrightarrow> r = r'" by simp
qed

lemma route_one_datagram_eq:
  assumes "router_ok r" and "dgram_ok d"
  shows "\<exists>r'. route_one_datagram r d = Inr r' \<and> links r' = forwarded (rt_route_table r) (links r) d \<and>
    queues r' = queues r \<and> rt_route_table r' = rt_route_table r \<and> router_ok r'"
proof (cases "forward (rt_route_table r) d")
  case None
  then show ?thesis
    using assms by (auto simp: route_one_datagram_def forward_def forwarded_def Let_def split: if_splits)
next
  case (Some x)
  then obtain e where e: "best_route (ih_dst (ip_header d)) (rt_route_table r) None = Some e" "\<not> ih_ttl (ip_header d) \<le> 1"
    "x = (re_interface_num e, hop_address e (ih_dst (ip_header d)), decrement_ttl d)"
    by (auto simp: forward_def split: if_splits)
  let ?n = "re_interface_num e" and ?hop = "hop_address e (ih_dst (ip_header d))"
  let ?ai = "rt_interfaces r ! ?n"
  let ?r = "r\<lparr>rt_interfaces := (rt_interfaces r)[?n := ?ai\<lparr>ani_interface := sent (ani_interface ?ai) (decrement_ttl d) ?hop\<rparr>]\<rparr>"
  have n: "?n < length (rt_interfaces r)" and rok: "route_ok (length (rt_interfaces r)) e"
    using assms(1) best_route_in [OF e(1)] by (auto simp: router_ok_def route_ok_def)
  then have inv: "ni_inv (ani_interface ?ai)" "\<forall>d \<in> set (ani_datagrams_out ?ai). dgram_ok d"
    using assms(1) by (auto simp: router_ok_def)
  have "\<exists>a. (case re_next_hop e of Some a \<Rightarrow> Inr a | None \<Rightarrow> from_ipv4_numeric (ih_dst (ip_header d))) = Inr a \<and>
      ipv4_numeric a = Inr ?hop"
    using rok by (auto simp: route_ok_def hop_address_def split: option.split)
  then obtain a where a: "(case re_next_hop e of Some a \<Rightarrow> Inr a | None \<Rightarrow> from_ipv4_numeric (ih_dst (ip_header d))) = Inr a"
    "ipv4_numeric a = Inr ?hop" by blast
  have "send_datagram (ani_interface ?ai) (decrement_ttl d) a = Inr (sent (ani_interface ?ai) (decrement_ttl d) ?hop)"
    using inv(1) assms(2) a(2) by (intro send_datagram_eq) auto
  then have "route_one_datagram r d = Inr ?r"
    using e(1,2) n a(1) by (simp add: route_one_datagram_def router_interface_def Let_def decrement_ttl_def)
  moreover have "links ?r = forwarded (rt_route_table r) (links r) d"
    using Some e(3) n by (simp add: links_def forwarded_def map_update)
  moreover have "queues ?r = queues r"
    using n by (simp add: queues_def map_update list_update_same_conv)
  moreover have "router_ok ?r"
    using assms inv n sent_inv [of "ani_interface ?ai" "decrement_ttl d" ?hop] unfolding router_ok_def
    by (auto dest!: set_update_subset_insert [THEN subsetD])
  ultimately show ?thesis by auto
qed

lemma pop_datagram_fields:
  assumes "i < length (rt_interfaces r)"
  shows "links (pop_datagram r i) = links r" "queues (pop_datagram r i) = (queues r)[i := tl (queues r ! i)]"
    "rt_route_table (pop_datagram r i) = rt_route_table r"
  using assms by (simp_all add: pop_datagram_def links_def queues_def map_update list_update_same_conv)

lemma pop_datagram_ok:
  assumes "router_ok r" and "i < length (rt_interfaces r)"
  shows "router_ok (pop_datagram r i)"
proof -
  let ?ai = "rt_interfaces r ! i"
  have "set (tl (ani_datagrams_out ?ai)) \<subseteq> set (ani_datagrams_out ?ai)" by (cases "ani_datagrams_out ?ai") auto
  moreover have "?ai \<in> set (rt_interfaces r)" using assms(2) by simp
  ultimately have "ni_inv (ani_interface ?ai)" "\<forall>d \<in> set (tl (ani_datagrams_out ?ai)). dgram_ok d"
    using assms(1) unfolding router_ok_def by blast+
  then show ?thesis
    using assms unfolding router_ok_def pop_datagram_def by (auto dest!: set_update_subset_insert [THEN subsetD])
qed

lemma route_queue_eq:
  assumes "router_ok r" and "i < length (rt_interfaces r)" and "queues r ! i = ds"
  shows "\<exists>r'. route_queue r i = Inr r' \<and> links r' = foldl (forwarded (rt_route_table r)) (links r) ds \<and>
    queues r' = (queues r)[i := []] \<and> rt_route_table r' = rt_route_table r \<and> router_ok r'"
  using assms
proof (induction ds arbitrary: r)
  case Nil
  then have "ani_datagrams_out (rt_interfaces r ! i) = []" by (simp add: queues_def)
  then have "route_queue r i = Inr r" by (simp add: route_queue.simps [of r i])
  then show ?case using Nil by (metis foldl_Nil list_update_id)
next
  case (Cons d ds)
  then have q: "ani_datagrams_out (rt_interfaces r ! i) = d # ds" by (simp add: queues_def)
  have "rt_interfaces r ! i \<in> set (rt_interfaces r)" using Cons.prems(2) by simp
  then have "dgram_ok d" using Cons.prems(1) q unfolding router_ok_def by (metis list.set_intros(1))
  then obtain r1 where r1: "route_one_datagram r d = Inr r1" "links r1 = forwarded (rt_route_table r) (links r) d"
    "queues r1 = queues r" "rt_route_table r1 = rt_route_table r" "router_ok r1"
    using route_one_datagram_eq [OF Cons.prems(1)] by blast
  then have i1: "i < length (rt_interfaces r1)" using Cons.prems(2) by (metis length_links(2))
  note pop = pop_datagram_fields [OF i1]
  have i2: "i < length (rt_interfaces (pop_datagram r1 i))" using i1 by (simp add: pop_datagram_def)
  have "queues (pop_datagram r1 i) ! i = ds" using pop(2) r1(3) Cons.prems(2,3) by simp
  from Cons.IH [OF pop_datagram_ok [OF r1(5) i1] i2 this]
  obtain r2 where r2: "route_queue (pop_datagram r1 i) i = Inr r2"
    "links r2 = foldl (forwarded (rt_route_table r)) (links r) (d # ds)"
    "queues r2 = (queues r)[i := []]" "rt_route_table r2 = rt_route_table r" "router_ok r2"
    using pop r1(2-4) by auto
  moreover have "route_queue r i = route_queue (pop_datagram r1 i) i"
    using q r1(1) Cons.prems(2) by (simp add: route_queue.simps [of r i])
  ultimately show ?case by auto
qed

lemma route_from_eq:
  assumes "router_ok r" and "set is \<subseteq> {..< length (rt_interfaces r)}" and "distinct is"
  shows "\<exists>r'. route_from r is = Inr r' \<and>
    links r' = foldl (forwarded (rt_route_table r)) (links r) (concat (map (\<lambda>i. queues r ! i) is)) \<and>
    length (rt_interfaces r') = length (rt_interfaces r) \<and>
    (\<forall>i < length (rt_interfaces r). queues r' ! i = (if i \<in> set is then [] else queues r ! i)) \<and>
    rt_route_table r' = rt_route_table r \<and> router_ok r'"
  using assms
proof (induction "is" arbitrary: r)
  case (Cons i "is")
  obtain r1 where r1: "route_queue r i = Inr r1" "links r1 = foldl (forwarded (rt_route_table r)) (links r) (queues r ! i)"
    "queues r1 = (queues r)[i := []]" "rt_route_table r1 = rt_route_table r" "router_ok r1"
    using route_queue_eq [OF Cons.prems(1), of i] Cons.prems(2) by auto
  have len: "length (rt_interfaces r1) = length (rt_interfaces r)" using r1(3) by (metis length_links(2) length_list_update)
  have m: "map (\<lambda>i. queues r1 ! i) is = map (\<lambda>i. queues r ! i) is" using Cons.prems(3) r1(3) by (auto intro!: nth_list_update_neq)
  obtain r2 where r2: "route_from r1 is = Inr r2"
    "links r2 = foldl (forwarded (rt_route_table r1)) (links r1) (concat (map (\<lambda>i. queues r1 ! i) is))"
    "length (rt_interfaces r2) = length (rt_interfaces r1)"
    "\<forall>i < length (rt_interfaces r1). queues r2 ! i = (if i \<in> set is then [] else queues r1 ! i)"
    "rt_route_table r2 = rt_route_table r1" "router_ok r2"
    using Cons.IH [OF r1(5)] Cons.prems(2,3) len by auto
  have "links r2 = foldl (forwarded (rt_route_table r)) (links r) (concat (map (\<lambda>i. queues r ! i) (i # is)))"
    using r2(2) unfolding m r1(2,4) by simp
  moreover have "\<forall>j < length (rt_interfaces r). queues r2 ! j = (if j \<in> set (i # is) then [] else queues r ! j)"
    using r2(4) len r1(3) by (auto simp: nth_list_update)
  moreover have "route_from r (i # is) = Inr r2" using r1(1) r2(1) by simp
  ultimately show ?case using r2(3,5,6) r1(4) len by metis
qed simp

text \<open>The datagrams that leave through one interface, with their next hops, in order.\<close>

definition outgoing :: "RouteEntry list \<Rightarrow> nat \<Rightarrow> IPv4Datagram list \<Rightarrow> (u32 \<times> IPv4Datagram) list" where
  "outgoing table i ds =
     List.map_filter (\<lambda>d. case forward table d of
       Some (n, hop, d') \<Rightarrow> if n = i then Some (hop, d') else None | None \<Rightarrow> None) ds"

definition send_all :: "network_interface \<Rightarrow> (u32 \<times> IPv4Datagram) list \<Rightarrow> network_interface" where
  "send_all = foldl (\<lambda>ni (hop, d). sent ni d hop)"

lemma length_forwarded [simp]: "length (foldl (forwarded table) nis ds) = length nis"
  by (induction ds arbitrary: nis) (auto simp: forwarded_def split: option.split)

lemma foldl_forwarded_nth:
  "i < length nis \<Longrightarrow> foldl (forwarded table) nis ds ! i = send_all (nis ! i) (outgoing table i ds)"
proof (induction ds arbitrary: nis)
  case Nil
  then show ?case by (simp add: send_all_def outgoing_def List.map_filter_def)
next
  case (Cons d ds)
  have "length (forwarded table nis d) = length nis" using length_forwarded [of table nis "[d]"] by simp
  then have "foldl (forwarded table) nis (d # ds) ! i = send_all (forwarded table nis d ! i) (outgoing table i ds)"
    using Cons by simp
  also have "\<dots> = send_all (nis ! i) (outgoing table i (d # ds))"
    using Cons.prems
    by (auto simp: send_all_def outgoing_def List.map_filter_def forwarded_def nth_list_update split: option.split)
  finally show ?case .
qed

lemma route_eq:
  assumes "router_ok r"
  shows "\<exists>r'. route r = Inr r' \<and> router_ok r' \<and> rt_route_table r' = rt_route_table r \<and>
    rt_interfaces r' = map (\<lambda>i. AsyncNetworkInterface (send_all (ani_interface (rt_interfaces r ! i))
      (outgoing (rt_route_table r) i (concat (map ani_datagrams_out (rt_interfaces r)))))) [0 ..< length (rt_interfaces r)]"
proof -
  let ?n = "length (rt_interfaces r)" and ?ds = "concat (map ani_datagrams_out (rt_interfaces r))"
  have "map (\<lambda>i. queues r ! i) [0 ..< ?n] = queues r" by (metis length_links(2) map_nth)
  then obtain r' where r': "route r = Inr r'" "links r' = foldl (forwarded (rt_route_table r)) (links r) ?ds"
    "length (rt_interfaces r') = ?n" "\<forall>i < ?n. queues r' ! i = []" "rt_route_table r' = rt_route_table r" "router_ok r'"
    using route_from_eq [OF assms, of "[0 ..< ?n]"] by (auto simp: route_def queues_def atLeast0LessThan)
  have "rt_interfaces r' ! i = AsyncNetworkInterface (send_all (ani_interface (rt_interfaces r ! i)) (outgoing (rt_route_table r) i ?ds))"
    if "i < ?n" for i
  proof -
    have "links r' ! i = send_all (links r ! i) (outgoing (rt_route_table r) i ?ds)"
      using that by (simp add: r'(2) foldl_forwarded_nth)
    then show ?thesis using that r'(3,4) by (simp add: links_def queues_def AsyncNetworkInterface_def)
  qed
  then have "rt_interfaces r' = map (\<lambda>i. AsyncNetworkInterface (send_all (ani_interface (rt_interfaces r ! i))
      (outgoing (rt_route_table r) i ?ds))) [0 ..< ?n]"
    using r'(3) by (intro nth_equalityI) auto
  with r' show ?thesis by auto
qed

section \<open>Properties\<close>


text \<open>
  C30. \<^verbatim>\<open>Router::route\<close> forwards every received datagram. On a router in working order it ends without an
  exception; afterwards no datagram is left in a queue, and each interface has been handed, in the
  order of the input queues, exactly the datagrams whose time to live exceeds 1 and whose best route
  names it, with the time to live decremented, for the next hop of the route or else the destination.
\<close>

theorem router_forwards:
  assumes "router_ok r"
  shows "\<exists>r'. route r = Inr r' \<and> router_ok r' \<and> rt_route_table r' = rt_route_table r \<and>
    rt_interfaces r' = map (\<lambda>i. AsyncNetworkInterface (send_all (ani_interface (rt_interfaces r ! i))
      (outgoing (rt_route_table r) i (concat (map ani_datagrams_out (rt_interfaces r)))))) [0 ..< length (rt_interfaces r)]"
  by (rule route_eq [OF assms])

text \<open>
  C31. A route whose prefix has a bit set beyond its length is never chosen, although its documentation says
  that only the high-order bits have to match: the code compares the whole prefix with the masked address.
\<close>

theorem router_host_bits_never_match:
  assumes "\<not> route_canonical e"
  shows "best_route ip rs None \<noteq> Some e"
  using best_route_spec [where ip = ip and rs = rs and best = None] assms by (auto simp: route_matches_iff)

text \<open>
  A header of another IP version, as bytes: the parser reads all the fixed fields before it looks at the version.
\<close>

definition raw_header :: "byte \<Rightarrow> IPv4Header \<Rightarrow> byte list" where
  "raw_header b h =
     b # ih_tos h # be_bytes 2 (unat (ih_len h)) @ be_bytes 2 (unat (ih_id h)) @ be_bytes 2 (unat (ipv4_fragment h)) @
     ih_ttl h # ih_proto h # be_bytes 2 (unat (ih_cksum h)) @ be_bytes 4 (unat (ih_src h)) @ be_bytes 4 (unat (ih_dst h))"

lemma length_raw_header [simp]: "length (raw_header b h) = 20"
  by (simp add: raw_header_def)

lemma ipv4_header_wrong_version:
  assumes "reads p (raw_header b h @ rest)"
    and b: "drop_bit 4 b = ih_ver h" "b AND 0x0f = ih_hlen h"
    and h: "ih_ver h \<noteq> 4" "ih_hlen h = 5" "ih_offset h < 0x2000"
  shows "yields WrongIPVersion (ipv4_header_parse h0 p) h rest"
proof -
  have size: "\<not> buf_size (np_buffer p) < 20" using assms(1) by (auto simp: reads_def buf_size_def)
  from assms(1) have "reads p (b # ih_tos h # be_bytes 2 (unat (ih_len h)) @ be_bytes 2 (unat (ih_id h)) @
      be_bytes 2 (unat (ipv4_fragment h)) @ ih_ttl h # ih_proto h # be_bytes 2 (unat (ih_cksum h)) @
      be_bytes 4 (unat (ih_src h)) @ be_bytes 4 (unat (ih_dst h)) @ rest)"
    by (simp add: raw_header_def)
  then show ?thesis
    unfolding ipv4_header_parse_def Let_def if_not_P [OF size]
    apply -
    apply (erule yields_step, simp only: prod.case)+
    apply (use size in \<open>simp add: b h\<close>)
    apply (auto intro!: yields_done IPv4Header.equality simp: h ipv4_fragment_read)
    done
qed

lemma wrong_version_accepted:
  assumes "drop_bit 4 b = ih_ver h" "b AND 0x0f = ih_hlen h" "ih_ver h \<noteq> 4" "ih_hlen h = 5" "ih_offset h < 0x2000"
    and "20 + length pay = unat (ih_len h)"
  shows "\<exists>d. ipv4_datagram_parse d0 (Buffer (raw_header b h @ pay)) = Inr (NoError, d) \<and> ip_header d = h \<and>
    concatenate (ip_payload d) = pay"
proof -
  have "length (raw_header b h @ pay) < 2 ^ 64" using assms(6) unat_bounds(2) [of "ih_len h"] by simp
  then have "reads (NetParser (Buffer (raw_header b h @ pay))) (raw_header b h @ pay)"
    using reads_NetParser [of "Buffer (raw_header b h @ pay)"] by simp
  from ipv4_header_wrong_version [OF this assms(1-5), of "ip_header d0"] obtain p where
    p: "ipv4_header_parse (ip_header d0) (NetParser (Buffer (raw_header b h @ pay))) = Inr (WrongIPVersion, h, p)" "reads p pay"
    by (auto simp: yields_def)
  moreover have "4 * unat (ih_hlen h) + length pay = unat (ih_len h)" using assms(4,6) by simp
  ultimately show ?thesis
    using payload_length_eq [of h "length pay"]
    by (simp add: ipv4_datagram_parse_def BufferList_def bl_size_eq reads_def Let_def)
qed

text \<open>
  C32. A frame can stop the router. A datagram of any IP version other than 4, with a header of 20 bytes and a
  consistent length, is accepted by \<^verbatim>\<open>recv_frame\<close>; when the router then forwards it to a next hop
  in the ARP cache, the serialiser throws and nothing catches the exception.
\<close>

theorem router_wrong_version_throws:
  assumes "drop_bit 4 b = ih_ver h" "b AND 0x0f = ih_hlen h" "ih_ver h \<noteq> 4" "ih_hlen h = 5" "ih_offset h < 0x2000"
    and "20 + length pay = unat (ih_len h)"
    and "frame = \<lparr>ef_header = \<lparr>eh_dst = ni_ethernet_address ni, eh_src = src, eh_type = TYPE_IPv4\<rparr>,
                  ef_payload = [Buffer (raw_header b h @ pay)]\<rparr>"
    and "1 < ih_ttl h" and "best_route (ih_dst h) (rt_route_table r) None = Some e"
    and "route_ok (length (rt_interfaces r)) e"
    and "map_of (ni_arp_table (ani_interface (rt_interfaces r ! re_interface_num e))) (hop_address e (ih_dst h)) = Some (eth, t)"
  shows "\<exists>d. recv_frame ni frame = Inr (ni, Some d) \<and> route_one_datagram r d = Inl (Runtime_error ''wrong IP version'')"
proof -
  obtain d where d: "ipv4_datagram_parse IPv4Datagram0 (Buffer (raw_header b h @ pay)) = Inr (NoError, d)" "ip_header d = h"
    "concatenate (ip_payload d) = pay"
    using wrong_version_accepted [OF assms(1-6)] by blast
  then have "recv_frame ni frame = Inr (ni, Some d)"
    by (simp add: recv_frame_def assms(7) bl_to_Buffer_def)
  moreover have "\<exists>a. (case re_next_hop e of Some a \<Rightarrow> Inr a | None \<Rightarrow> from_ipv4_numeric (ih_dst h)) = Inr a \<and>
      ipv4_numeric a = Inr (hop_address e (ih_dst h))"
    using assms(10) by (auto simp: route_ok_def hop_address_def split: option.split)
  moreover have "ipv4_datagram_serialize (decrement_ttl d) = Inl (Runtime_error ''wrong IP version'')"
    using d(2,3) assms(3,4,6) payload_length_eq [of h "length pay"]
    by (simp add: ipv4_datagram_serialize_def decrement_ttl_def bl_size_eq ipv4_header_serialize_def payload_length_def)
  moreover have "\<not> ih_ttl h \<le> 1" using assms(8) by (simp add: not_le)
  ultimately show ?thesis
    using assms(9-11) d(2)
    by (auto simp: route_one_datagram_def router_interface_def route_ok_def send_datagram_def decrement_ttl_def Let_def)
qed

text \<open>The witnesses: a router with one interface and the routes of a small network.\<close>

definition sample_interface :: network_interface where
  "sample_interface =
     \<lparr>ni_ethernet_address = [2, 0, 0, 0, 0, 1], ni_ip_address = inet_address 0 0x0A000001, ni_frames_out = [],
      ni_arp_table = [(0x0A000002, ([2, 0, 0, 0, 0, 2], 0))], ni_arp_request_time = [], ni_arp_wait_ipdata = []\<rparr>"

definition sample_route :: "u32 \<Rightarrow> u8 \<Rightarrow> RouteEntry" where
  "sample_route a n =
     \<lparr>re_route_prefix = a, re_prefix_length = n, re_next_hop = Some (inet_address 0 0x0A000002), re_interface_num = 0\<rparr>"

definition sample_router :: router where
  "sample_router =
     \<lparr>rt_interfaces = [\<lparr>ani_interface = sample_interface,
         ani_datagrams_out = [IPv4Datagram0\<lparr>ip_header := IPv4Header0\<lparr>ih_len := 20\<rparr>\<rparr>]\<rparr>],
      rt_route_table = [sample_route 0 0]\<rparr>"


lemma sample_router_ok: "router_ok sample_router"
  by (simp add: router_ok_def sample_router_def sample_interface_def ni_inv_def ni_ip_def route_ok_def sample_route_def
      dgram_ok_def ipv4_header_ok_def IPv4Datagram0_def IPv4Header0_def ARP_ENTRY_TTL_MS_def)

theorem router_forwards_witness:
  "router_ok sample_router \<and> (\<exists>r'. route sample_router = Inr r' \<and> map ani_datagrams_out (rt_interfaces r') = [[]])"
  using router_forwards [OF sample_router_ok] sample_router_ok
  by (auto simp: sample_router_def AsyncNetworkInterface_def)

theorem router_host_bits_never_match_witness:
  "\<not> route_canonical (sample_route 0x801E4CFF 16) \<and>
     best_route 0x801E0101 [sample_route 0x801E4CFF 16] None \<noteq> Some (sample_route 0x801E4CFF 16)"
proof -
  have "bit (0x801E4CFF :: u32) 0" by simp
  then have "\<not> route_canonical (sample_route 0x801E4CFF 16)"
    unfolding route_canonical_def sample_route_def by (auto intro!: exI [of _ 0])
  then show ?thesis using router_host_bits_never_match by blast
qed

theorem router_wrong_version_throws_witness:
  "\<exists>frame d. recv_frame sample_interface frame = Inr (sample_interface, Some d) \<and>
     route_one_datagram sample_router d = Inl (Runtime_error ''wrong IP version'')"
proof -
  let ?h = "IPv4Header0\<lparr>ih_ver := 6, ih_len := 20\<rparr>"
  let ?e = "sample_route 0 0"
  have r: "best_route (ih_dst ?h) (rt_route_table sample_router) None = Some ?e"
    by (simp add: sample_router_def sample_route_def route_mask_def)
  have a: "map_of (ni_arp_table (ani_interface (rt_interfaces sample_router ! re_interface_num ?e))) (hop_address ?e (ih_dst ?h))
      = Some ([2, 0, 0, 0, 0, 2], 0)"
    by (simp add: sample_router_def sample_route_def sample_interface_def hop_address_def)
  have "route_ok (length (rt_interfaces sample_router)) ?e" by (simp add: route_ok_def sample_router_def sample_route_def)
  from router_wrong_version_throws [OF _ _ _ _ _ _ refl _ r this a, where b = "0x65" and pay = "[]"]
  show ?thesis by (simp add: IPv4Header0_def DEFAULT_TTL_def) blast
qed

end
