(* ===== verification/Printing.thy ===== *)
theory Printing
  imports Formatting TCP_Segment IPv4_Datagram Ethernet_ARP
begin

text \<open>
  The text forms of the headers: \<^verbatim>\<open>TCPHeader::to_string\<close>, \<^verbatim>\<open>summary\<close> and \<^verbatim>\<open>operator==\<close>, \<^verbatim>\<open>IPv4Header::to_string\<close> and
  \<^verbatim>\<open>summary\<close>, \<^verbatim>\<open>to_string\<close> of an Ethernet address and of an \<^verbatim>\<open>EthernetHeader\<close>, \<^verbatim>\<open>ARPMessage::to_string\<close>, the output
  operator of \<^verbatim>\<open>WrappingInt32\<close> and \<^verbatim>\<open>hexdump\<close> of \<^verbatim>\<open>util.cc\<close>. A printed header shows every field: the text
  determines the header.
\<close>

section \<open>Definitions\<close>

abbreviation (input) newline :: string where
  "newline \<equiv> [CHR 0x0A]"

text \<open>\<^verbatim>\<open>operator<<\<close> of \<^verbatim>\<open>WrappingInt32\<close> on a stream that prints in the given base.\<close>

definition print_WrappingInt32 :: "nat \<Rightarrow> WrappingInt32 \<Rightarrow> string" where
  "print_WrappingInt32 base a = to_base base (unat (raw_value a))"

subsection \<open>TCP\<close>

definition tcp_header_to_string :: "TCPHeader \<Rightarrow> string" where
  "tcp_header_to_string h =
     ''TCP source port: '' @ hex (unat (th_sport h)) @ newline @
     ''TCP dest port: '' @ hex (unat (th_dport h)) @ newline @
     ''TCP seqno: '' @ print_WrappingInt32 16 (th_seqno h) @ newline @
     ''TCP ackno: '' @ print_WrappingInt32 16 (th_ackno h) @ newline @
     ''TCP doff: '' @ hex (unat (th_doff h)) @ newline @
     ''Flags: urg: '' @ boolalpha (th_urg h) @ '' ack: '' @ boolalpha (th_ack h) @ '' psh: '' @ boolalpha (th_psh h) @
     '' rst: '' @ boolalpha (th_rst h) @ '' syn: '' @ boolalpha (th_syn h) @ '' fin: '' @ boolalpha (th_fin h) @ newline @
     ''TCP winsize: '' @ hex (unat (th_win h)) @ newline @
     ''TCP cksum: '' @ hex (unat (th_cksum h)) @ newline @
     ''TCP uptr: '' @ hex (unat (th_uptr h)) @ newline"

definition tcp_header_summary :: "TCPHeader \<Rightarrow> string" where
  "tcp_header_summary h =
     ''Header(flags='' @ (if th_syn h then ''S'' else '''') @ (if th_ack h then ''A'' else '''') @
     (if th_rst h then ''R'' else '''') @ (if th_fin h then ''F'' else '''') @
     '',seqno='' @ print_WrappingInt32 10 (th_seqno h) @ '',ack='' @ print_WrappingInt32 10 (th_ackno h) @
     '',win='' @ dec (unat (th_win h)) @ '')''"

definition tcp_header_eq :: "TCPHeader \<Rightarrow> TCPHeader \<Rightarrow> bool" where
  "tcp_header_eq h other \<longleftrightarrow>
     wi_eq (th_seqno h) (th_seqno other) \<and> wi_eq (th_ackno h) (th_ackno other) \<and> th_doff h = th_doff other \<and>
     th_urg h = th_urg other \<and> th_ack h = th_ack other \<and> th_psh h = th_psh other \<and> th_rst h = th_rst other \<and>
     th_syn h = th_syn other \<and> th_fin h = th_fin other \<and> th_win h = th_win other \<and> th_uptr h = th_uptr other"

subsection \<open>IPv4\<close>

definition ipv4_header_to_string :: "IPv4Header \<Rightarrow> string" where
  "ipv4_header_to_string h =
     ''IP version: '' @ hex (unat (ih_ver h)) @ newline @
     ''IP hdr len: '' @ hex (unat (ih_hlen h)) @ newline @
     ''IP tos: '' @ hex (unat (ih_tos h)) @ newline @
     ''IP dgram len: '' @ hex (unat (ih_len h)) @ newline @
     ''IP id: '' @ hex (unat (ih_id h)) @ newline @
     ''Flags: df: '' @ boolalpha (ih_df h) @ '' mf: '' @ boolalpha (ih_mf h) @ newline @
     ''Offset: '' @ hex (unat (ih_offset h)) @ newline @
     ''TTL: '' @ hex (unat (ih_ttl h)) @ newline @
     ''Protocol: '' @ hex (unat (ih_proto h)) @ newline @
     ''Checksum: '' @ hex (unat (ih_cksum h)) @ newline @
     ''Src addr: '' @ hex (unat (ih_src h)) @ newline @
     ''Dst addr: '' @ hex (unat (ih_dst h)) @ newline"

definition ipv4_header_summary :: "IPv4Header \<Rightarrow> string" where
  "ipv4_header_summary h =
     ''IPv'' @ hex (unat (ih_ver h)) @ '', '' @
     ''len='' @ hex (unat (ih_len h)) @ '', '' @
     ''protocol='' @ hex (unat (ih_proto h)) @ '', '' @
     (if 10 \<le> ih_ttl h then '''' else ''ttl='' @ dec (unat (ih_ttl h)) @ '', '') @
     ''src='' @ inet_ntoa (ih_src h) @ '', '' @
     ''dst='' @ inet_ntoa (ih_dst h)"

subsection \<open>Ethernet and ARP\<close>

fun ethernet_address_to_string :: "EthernetAddress \<Rightarrow> string" where
  "ethernet_address_to_string [] = ''''"
| "ethernet_address_to_string (b # bs) =
     setw 2 CHR ''0'' (hex (unat b)) @ (if bs \<noteq> [] then '':'' else '''') @ ethernet_address_to_string bs"

definition ethernet_header_to_string :: "EthernetHeader \<Rightarrow> string" where
  "ethernet_header_to_string h =
     ''dst='' @ ethernet_address_to_string (eh_dst h) @
     '', src='' @ ethernet_address_to_string (eh_src h) @
     '', type='' @
     (if eh_type h = TYPE_IPv4 then ''IPv4''
      else if eh_type h = TYPE_ARP then ''ARP''
      else ''[unknown type '' @ hex (unat (eh_type h)) @ ''!]'')"

definition arp_to_string :: "ARPMessage \<Rightarrow> string" where
  "arp_to_string m =
     (let opcode_str = ''(unknown type)'';
          opcode_str = (if am_opcode m = OPCODE_REQUEST then ''REQUEST'' else opcode_str);
          opcode_str = (if am_opcode m = OPCODE_REPLY then ''REPLY'' else opcode_str)
      in ''opcode='' @ opcode_str @
         '', sender='' @ ethernet_address_to_string (am_sender_ethernet_address m) @ ''/'' @ inet_ntoa (am_sender_ip_address m) @
         '', target='' @ ethernet_address_to_string (am_target_ethernet_address m) @ ''/'' @ inet_ntoa (am_target_ip_address m))"

subsection \<open>\<^verbatim>\<open>hexdump\<close>\<close>

text \<open>
  The stream \<^verbatim>\<open>pchars\<close> is its contents and its put position, which \<^verbatim>\<open>str\<close> sets to the start: the first
  character written overwrites the blank it was set to. The result of the loop is the output, the
  stream and the number of bytes printed.
\<close>

definition isprint :: "byte \<Rightarrow> bool" where
  "isprint b \<longleftrightarrow> 0x20 \<le> b \<and> b \<le> 0x7e"

definition ss_put :: "string \<times> nat \<Rightarrow> char \<Rightarrow> string \<times> nat" where
  "ss_put ss c = (take (snd ss) (fst ss) @ [c] @ drop (snd ss + 1) (fst ss), snd ss + 1)"

fun hexdump_loop :: "byte list \<Rightarrow> string \<Rightarrow> string \<times> nat \<Rightarrow> nat \<Rightarrow> string \<times> (string \<times> nat) \<times> nat" where
  "hexdump_loop [] indent_string pchars printed = ('''', pchars, printed)"
| "hexdump_loop (b # data) indent_string pchars printed =
     (let (sep, pchars) =
            (if printed mod 16 = 0 then
               let (line, pchars) = (if printed \<noteq> 0 then (''    '' @ fst pchars @ newline, ('' '', 0)) else ('''', pchars))
               in (line @ indent_string @ setw 8 CHR ''0'' (hex printed) @ '':    '', pchars)
             else if printed mod 2 = 0 then ('' '', pchars)
             else ('''', pchars));
          out = setw 2 CHR ''0'' (hex (unat b));
          pchars = ss_put pchars (if isprint b then char_of (unat b) else CHR ''.'');
          (rest, pchars, printed) = hexdump_loop data indent_string pchars (printed + 1)
      in (sep @ out @ rest, pchars, printed))"

definition hexdump :: "byte list \<Rightarrow> nat \<Rightarrow> string" where
  "hexdump data indent =
     (let indent_string = replicate indent CHR '' '';
          (out, pchars, printed) = hexdump_loop data indent_string ('' '', 0) 0;
          print_rem = (16 - printed mod 16) mod 16
      in out @ replicate (2 * print_rem + print_rem div 2 + 4) CHR '' '' @ fst pchars @ newline @ newline)"

section \<open>Lemmas\<close>

text \<open>Text up to a separator that it does not contain is determined by the whole.\<close>

lemma append_sep_iff:
  assumes "c \<notin> set p" and "c \<notin> set q"
  shows "p @ c # x = q @ c # y \<longleftrightarrow> p = q \<and> x = y"
proof
  assume eq: "p @ c # x = q @ c # y"
  have "takeWhile (\<lambda>a. a \<noteq> c) (p @ c # x) = p" using assms(1) by (subst takeWhile_append2) auto
  moreover have "takeWhile (\<lambda>a. a \<noteq> c) (q @ c # y) = q" using assms(2) by (subst takeWhile_append2) auto
  ultimately show "p = q \<and> x = y" using eq by simp
qed simp

definition is_digit_char :: "char \<Rightarrow> bool" where
  "is_digit_char c \<longleftrightarrow> (\<exists>d < 16. c = digit_char d)"

lemma not_digit_char:
  "\<not> is_digit_char (CHR 0x0A)" "\<not> is_digit_char (CHR '','')" "\<not> is_digit_char (CHR '' '')" "\<not> is_digit_char (CHR '')'')"
  "\<not> is_digit_char (CHR '':'')" "\<not> is_digit_char (CHR ''/'')" "\<not> is_digit_char (CHR ''!'')" "\<not> is_digit_char (CHR ''.'')"
  by (auto simp: is_digit_char_def dest!: arg_cong [where f = "of_char :: char \<Rightarrow> nat"] simp: of_char_digit_char split: if_splits)

lemma digits_no_sep [simp]: "\<not> is_digit_char c \<Longrightarrow> c \<notin> set (hex n)" "\<not> is_digit_char c \<Longrightarrow> c \<notin> set (dec n)"
  using set_to_base [of 16 n] set_to_base [of 10 n] by (auto simp: is_digit_char_def)

lemma print_no_sep [simp]: "\<not> is_digit_char c \<Longrightarrow> c \<notin> set (print_WrappingInt32 16 a)"
  by (simp add: print_WrappingInt32_def)

lemma boolalpha_no_sep [simp]: "CHR 0x0A \<notin> set (boolalpha b)" "CHR '' '' \<notin> set (boolalpha b)"
  by (simp_all add: boolalpha_def)

lemma print_iff [simp]:
  "hex m = hex n \<longleftrightarrow> m = n" "dec m = dec n \<longleftrightarrow> m = n" "boolalpha a = boolalpha b \<longleftrightarrow> a = b"
  "print_WrappingInt32 16 v = print_WrappingInt32 16 w \<longleftrightarrow> v = w"
  by (auto dest!: hex_inj dec_inj simp: boolalpha_def print_WrappingInt32_def word_unat_eq_iff [symmetric] intro: WrappingInt32.expand)

lemma tcp_header_to_string_iff: "tcp_header_to_string h = tcp_header_to_string h' \<longleftrightarrow> h = h'"
proof
  assume "tcp_header_to_string h = tcp_header_to_string h'"
  then show "h = h'"
    unfolding tcp_header_to_string_def
    by (simp add: append_sep_iff not_digit_char) (simp add: word_unat_eq_iff)
qed simp

lemma ipv4_header_to_string_iff: "ipv4_header_to_string h = ipv4_header_to_string h' \<longleftrightarrow> h = h'"
proof
  assume "ipv4_header_to_string h = ipv4_header_to_string h'"
  then show "h = h'"
    unfolding ipv4_header_to_string_def
    by (simp add: append_sep_iff not_digit_char) (simp add: word_unat_eq_iff)
qed simp

lemma length_hex_byte: "length (setw 2 CHR ''0'' (hex (unat (b :: byte)))) = 2"
  using to_base_length_le [of 16 "unat b" 2] unat_bounds(1) [of b] by (simp add: length_setw max_def)

lemma ethernet_address_to_string_iff:
  "length a = length b \<Longrightarrow> ethernet_address_to_string a @ x = ethernet_address_to_string b @ y \<longleftrightarrow> a = b \<and> x = y"
proof (induction a b rule: list_induct2)
  case (Cons p ps q qs)
  have "(ps \<noteq> []) = (qs \<noteq> [])" using Cons.hyps by auto
  then show ?case
    using Cons.IH length_hex_byte [of p] length_hex_byte [of q]
    by (auto simp: append_eq_append_conv dest!: setw_hex_inj simp: word_unat_eq_iff)
qed simp

lemma ethernet_header_to_string_iff:
  assumes "length (eh_dst h) = 6" "length (eh_src h) = 6" "length (eh_dst h') = 6" "length (eh_src h') = 6"
  shows "ethernet_header_to_string h = ethernet_header_to_string h' \<longleftrightarrow> h = h'"
proof
  assume "ethernet_header_to_string h = ethernet_header_to_string h'"
  then show "h = h'"
    using assms unfolding ethernet_header_to_string_def
    by (simp add: ethernet_address_to_string_iff append_sep_iff not_digit_char word_unat_eq_iff split: if_splits)
qed simp

lemma tcp_header_eq_iff:
  "tcp_header_eq h h' \<longleftrightarrow> h\<lparr>th_sport := 0, th_dport := 0, th_cksum := 0\<rparr> = h'\<lparr>th_sport := 0, th_dport := 0, th_cksum := 0\<rparr>"
  by (cases h; cases h') (auto simp: tcp_header_eq_def wi_eq_def WrappingInt32.expand)

section \<open>Properties\<close>

text \<open>
  C40. The printed headers are complete: two TCP headers, or two IPv4 headers, or two Ethernet headers (whose
  addresses have six bytes) print the same text only if they are the same, so every field can be read
  off the text; \<^verbatim>\<open>operator==\<close> of TCP headers is equality up to the ports and the checksum.
\<close>

theorem printed_headers_complete:
  assumes "length (eh_dst e) = 6" "length (eh_src e) = 6" "length (eh_dst e') = 6" "length (eh_src e') = 6"
  shows "(tcp_header_to_string h = tcp_header_to_string h' \<longleftrightarrow> h = h') \<and>
    (ipv4_header_to_string i = ipv4_header_to_string i' \<longleftrightarrow> i = i') \<and>
    (ethernet_header_to_string e = ethernet_header_to_string e' \<longleftrightarrow> e = e') \<and>
    (tcp_header_eq h h' \<longleftrightarrow> h\<lparr>th_sport := 0, th_dport := 0, th_cksum := 0\<rparr> = h'\<lparr>th_sport := 0, th_dport := 0, th_cksum := 0\<rparr>)"
  using assms by (simp add: tcp_header_to_string_iff ipv4_header_to_string_iff ethernet_header_to_string_iff tcp_header_eq_iff)

theorem printed_headers_complete_witness:
  "ethernet_header_to_string (EthernetHeader0\<lparr>eh_dst := [1, 2, 3, 4, 5, 6], eh_src := [6, 5, 4, 3, 2, 1], eh_type := 5\<rparr>) \<noteq>
   ethernet_header_to_string (EthernetHeader0\<lparr>eh_dst := [1, 2, 3, 4, 5, 6], eh_src := [6, 5, 4, 3, 2, 1], eh_type := TYPE_ARP\<rparr>)"
  using printed_headers_complete [of "EthernetHeader0\<lparr>eh_dst := [1, 2, 3, 4, 5, 6], eh_src := [6, 5, 4, 3, 2, 1], eh_type := 5\<rparr>"
      "EthernetHeader0\<lparr>eh_dst := [1, 2, 3, 4, 5, 6], eh_src := [6, 5, 4, 3, 2, 1], eh_type := TYPE_ARP\<rparr>"]
  by (simp add: EthernetHeader0_def TYPE_ARP_def)

end
