(* ===== verification/Network_Simulator.thy ===== *)
theory Network_Simulator
  imports Router Printing
begin

text \<open>
  \<^verbatim>\<open>apps/network_simulator.cc\<close>: hosts with a network interface, a router with seven interfaces, the cables
  between them, and the ten transmissions the program tests. The random generator \<^verbatim>\<open>rd\<close> is a parameter \<open>rng\<close>, the
  function from the number of a draw to its value, and the number of draws so far is passed along; the
  resolver behind \<^verbatim>\<open>Address\<close> is a parameter. The \<^verbatim>\<open>unordered_map\<close> of hosts is an association list in the order
  of insertion. The output on the console is left out, but not what it evaluates.
\<close>

unbundle bit_operations_syntax

section \<open>Definitions\<close>

type_synonym generator = "nat \<Rightarrow> u32"

definition random_bytes :: "generator \<Rightarrow> nat \<Rightarrow> EthernetAddress" where
  "random_bytes rng n = map (\<lambda>i. ucast (rng (n + i))) [0 ..< 6]"

definition random_host_ethernet_address :: "generator \<Rightarrow> nat \<Rightarrow> EthernetAddress \<times> nat" where
  "random_host_ethernet_address rng n =
     (let addr = random_bytes rng n;
          addr = addr[0 := addr ! 0 OR 0x02];
          addr = addr[0 := addr ! 0 AND 0xfe]
      in (addr, n + 6))"

definition random_router_ethernet_address :: "generator \<Rightarrow> nat \<Rightarrow> EthernetAddress \<times> nat" where
  "random_router_ethernet_address rng n =
     (let addr = random_bytes rng n;
          addr = addr[0 := 0x02];
          addr = addr[1 := 0];
          addr = addr[2 := 0]
      in (addr, n + 6))"

definition simulator_ip :: "resolver \<Rightarrow> string \<Rightarrow> u32 res" where
  "simulator_ip getaddrinfo str = bind_res (Address_ip getaddrinfo str 0) ipv4_numeric"

fun clear :: "'a list \<Rightarrow> 'a list \<Rightarrow> 'a list" where
  "clear [] queue2 = queue2"
| "clear (x # queue1) queue2 = clear queue1 (tl queue2)"

definition frame_summary :: "EthernetFrame \<Rightarrow> string res" where
  "frame_summary frame =
     (let ret = ethernet_header_to_string (ef_header frame) in
      if eh_type (ef_header frame) = TYPE_IPv4 then
        bind_res (bl_to_Buffer (ef_payload frame)) (\<lambda>buf.
        bind_res (ipv4_datagram_parse IPv4Datagram0 buf) (\<lambda>(result, dgram).
          if result = NoError then
            Inr (ret @ '' '' @ ipv4_header_summary (ip_header dgram) @
              '' payload=\"'' @ map (\<lambda>b. char_of (unat b)) (concatenate (ip_payload dgram)) @ ''\"'')
          else Inr (ret @ '' (bad IPv4)'')))
      else if eh_type (ef_header frame) = TYPE_ARP then
        bind_res (bl_to_Buffer (ef_payload frame)) (\<lambda>buf.
        bind_res (arp_parse ARPMessage0 buf) (\<lambda>(result, arp).
          if result = NoError then Inr (ret @ '' '' @ arp_to_string arp) else Inr (ret @ '' (bad ARP)'')))
      else Inr ret)"

subsection \<open>Hosts\<close>

record host =
  h_name :: string
  h_my_address :: Address
  h_interface :: async_interface
  h_next_hop :: Address
  h_expecting_to_receive :: "IPv4Datagram list"

definition serialized :: "IPv4Datagram \<Rightarrow> byte list res" where
  "serialized d = bind_res (ipv4_datagram_serialize d) (\<lambda>bl. Inr (concatenate bl))"

fun expecting :: "IPv4Datagram list \<Rightarrow> IPv4Datagram \<Rightarrow> bool res" where
  "expecting [] expected = Inr False"
| "expecting (x # xs) expected =
     bind_res (serialized x) (\<lambda>a. bind_res (serialized expected) (\<lambda>b.
       if a = b then Inr True else expecting xs expected))"

fun remove_expectation :: "IPv4Datagram list \<Rightarrow> IPv4Datagram \<Rightarrow> IPv4Datagram list res" where
  "remove_expectation [] expected = Inr []"
| "remove_expectation (x # xs) expected =
     bind_res (serialized x) (\<lambda>a. bind_res (serialized expected) (\<lambda>b.
       if a = b then Inr xs else bind_res (remove_expectation xs expected) (\<lambda>xs. Inr (x # xs))))"

definition Host :: "generator \<Rightarrow> nat \<Rightarrow> string \<Rightarrow> Address \<Rightarrow> Address \<Rightarrow> (host \<times> nat) res" where
  "Host rng n name my_address next_hop =
     (let (eth, n) = random_host_ethernet_address rng n in
      bind_res (NetworkInterface eth my_address) (\<lambda>ni.
        Inr (\<lparr>h_name = name, h_my_address = my_address, h_interface = AsyncNetworkInterface ni, h_next_hop = next_hop,
              h_expecting_to_receive = []\<rparr>, n)))"

text \<open>The text of a payload, as bytes.\<close>

definition string_bytes :: "string \<Rightarrow> byte list" where
  "string_bytes s = map (\<lambda>c. of_nat (of_char c)) s"

definition send_to :: "generator \<Rightarrow> nat \<Rightarrow> host \<Rightarrow> Address \<Rightarrow> u8 \<Rightarrow> (host \<times> IPv4Datagram \<times> nat) res" where
  "send_to rng n h destination ttl =
     (let dgram = IPv4Datagram0 in
      bind_res (ipv4_numeric (h_my_address h)) (\<lambda>src.
      let dgram = dgram\<lparr>ip_header := (ip_header dgram)\<lparr>ih_src := src\<rparr>\<rparr> in
      bind_res (ipv4_numeric destination) (\<lambda>dst.
      let dgram = dgram\<lparr>ip_header := (ip_header dgram)\<lparr>ih_dst := dst\<rparr>\<rparr>;
          dgram = dgram\<lparr>ip_payload := BufferList_of_string (string_bytes (''random payload: {'' @ dec (unat (rng n)) @ ''}''))\<rparr>;
          dgram = dgram\<lparr>ip_header := (ip_header dgram)\<lparr>
            ih_len := of_nat (unat (ih_hlen (ip_header dgram)) * 4 + bl_size (ip_payload dgram))\<rparr>\<rparr>;
          dgram = dgram\<lparr>ip_header := (ip_header dgram)\<lparr>ih_ttl := ttl\<rparr>\<rparr>
      in
      bind_res (send_datagram (ani_interface (h_interface h)) dgram (h_next_hop h)) (\<lambda>ni.
      bind_res (addr_ip (h_next_hop h)) (\<lambda>_.
        Inr (h\<lparr>h_interface := (h_interface h)\<lparr>ani_interface := ni\<rparr>\<rparr>, dgram, n + 1))))))"

definition host_expect :: "host \<Rightarrow> IPv4Datagram \<Rightarrow> host" where
  "host_expect h expected = h\<lparr>h_expecting_to_receive := h_expecting_to_receive h @ [expected]\<rparr>"

text \<open>The loop of \<^verbatim>\<open>check\<close> over the datagrams received; the lists are those received and those expected.\<close>

definition unexpected_datagram :: "string \<Rightarrow> IPv4Datagram \<Rightarrow> exn" where
  "unexpected_datagram name d =
     Runtime_error (''Host '' @ name @ '' received unexpected Internet datagram: '' @ ipv4_header_summary (ip_header d) @
       '' payload=\"'' @ map (\<lambda>b. char_of (unat b)) (concatenate (ip_payload d)) @ ''\"'')"

definition missing_datagram :: "string \<Rightarrow> IPv4Datagram \<Rightarrow> exn" where
  "missing_datagram name d =
     Runtime_error (''Host '' @ name @ '' did NOT receive an expected Internet datagram: '' @ ipv4_header_summary (ip_header d) @
       '' payload=\"'' @ map (\<lambda>b. char_of (unat b)) (concatenate (ip_payload d)) @ ''\"'')"

fun check_received :: "string \<Rightarrow> IPv4Datagram list \<Rightarrow> IPv4Datagram list \<Rightarrow> IPv4Datagram list res" where
  "check_received name [] expected = Inr expected"
| "check_received name (d # datagrams_out) expected =
     bind_res (expecting expected d) (\<lambda>found.
       if \<not> found then Inl (unexpected_datagram name d)
       else bind_res (remove_expectation expected d) (check_received name datagrams_out))"

definition host_check :: "host \<Rightarrow> host res" where
  "host_check h =
     bind_res (check_received (h_name h) (ani_datagrams_out (h_interface h)) (h_expecting_to_receive h)) (\<lambda>expected.
       case expected of
         [] \<Rightarrow> Inr (h\<lparr>h_interface := (h_interface h)\<lparr>ani_datagrams_out := []\<rparr>, h_expecting_to_receive := []\<rparr>)
       | d # _ \<Rightarrow> Inl (missing_datagram (h_name h) d))"

subsection \<open>The network\<close>

record network =
  nw_router :: router
  nw_default_id :: nat
  nw_eth0_id :: nat
  nw_eth1_id :: nat
  nw_eth2_id :: nat
  nw_uun3_id :: nat
  nw_hs4_id :: nat
  nw_mit5_id :: nat
  nw_hosts :: "(string \<times> host) list"

fun deliver :: "EthernetFrame list \<Rightarrow> async_interface \<Rightarrow> async_interface res" where
  "deliver [] dst = Inr dst"
| "deliver (frame # to_send) dst =
     (let frame = frame\<lparr>ef_payload := BufferList_of_string (concatenate (ef_payload frame))\<rparr> in
      bind_res (frame_summary frame) (\<lambda>_. bind_res (async_recv_frame dst frame) (deliver to_send)))"

abbreviation (input) frames_out :: "async_interface \<Rightarrow> EthernetFrame list" where
  "frames_out ai \<equiv> ni_frames_out (ani_interface ai)"

definition set_frames_out :: "async_interface \<Rightarrow> EthernetFrame list \<Rightarrow> async_interface" where
  "set_frames_out ai fs = ai\<lparr>ani_interface := (ani_interface ai)\<lparr>ni_frames_out := fs\<rparr>\<rparr>"

definition exchange_frames :: "async_interface \<Rightarrow> async_interface \<Rightarrow> (async_interface \<times> async_interface) res" where
  "exchange_frames x y =
     (let x_frames = frames_out x; y_frames = frames_out y in
      bind_res (deliver x_frames y) (\<lambda>y.
      bind_res (deliver y_frames x) (\<lambda>x.
        Inr (set_frames_out x (clear x_frames (frames_out x)), set_frames_out y (clear y_frames (frames_out y))))))"

definition exchange_frames3 ::
  "async_interface \<Rightarrow> async_interface \<Rightarrow> async_interface \<Rightarrow> (async_interface \<times> async_interface \<times> async_interface) res" where
  "exchange_frames3 x y z =
     (let x_frames = frames_out x; y_frames = frames_out y; z_frames = frames_out z in
      bind_res (deliver x_frames y) (\<lambda>y.
      bind_res (deliver x_frames z) (\<lambda>z.
      bind_res (deliver y_frames x) (\<lambda>x.
      bind_res (deliver y_frames z) (\<lambda>z.
      bind_res (deliver z_frames x) (\<lambda>x.
      bind_res (deliver z_frames y) (\<lambda>y.
        Inr (set_frames_out x (clear x_frames (frames_out x)), set_frames_out y (clear y_frames (frames_out y)),
             set_frames_out z (clear z_frames (frames_out z))))))))))"

definition network_host :: "network \<Rightarrow> string \<Rightarrow> host res" where
  "network_host nw name =
     (case map_of (nw_hosts nw) name of
        None \<Rightarrow> Inl (Runtime_error (''unknown host: '' @ name))
      | Some h \<Rightarrow> if h_name h \<noteq> name then Inl (Runtime_error (''invalid host: '' @ name)) else Inr h)"

text \<open>What the code does through the references that \<^verbatim>\<open>host\<close> and \<^verbatim>\<open>Router::interface\<close> return.\<close>

definition set_host :: "network \<Rightarrow> string \<Rightarrow> host \<Rightarrow> network" where
  "set_host nw name h = nw\<lparr>nw_hosts := AList.update name h (nw_hosts nw)\<rparr>"

definition set_interface :: "network \<Rightarrow> nat \<Rightarrow> async_interface \<Rightarrow> network" where
  "set_interface nw i ai = nw\<lparr>nw_router := (nw_router nw)\<lparr>rt_interfaces := (rt_interfaces (nw_router nw))[i := ai]\<rparr>\<rparr>"

definition set_host_interface :: "network \<Rightarrow> string \<Rightarrow> host \<Rightarrow> async_interface \<Rightarrow> network" where
  "set_host_interface nw name h ai = set_host nw name (h\<lparr>h_interface := ai\<rparr>)"

definition cable :: "network \<Rightarrow> nat \<Rightarrow> string \<Rightarrow> network res" where
  "cable nw i name =
     bind_res (router_interface (nw_router nw) i) (\<lambda>x.
     bind_res (network_host nw name) (\<lambda>h.
     bind_res (exchange_frames x (h_interface h)) (\<lambda>(x, y).
       Inr (set_host_interface (set_interface nw i x) name h y))))"

definition cable3 :: "network \<Rightarrow> nat \<Rightarrow> string \<Rightarrow> string \<Rightarrow> network res" where
  "cable3 nw i name name' =
     bind_res (router_interface (nw_router nw) i) (\<lambda>x.
     bind_res (network_host nw name) (\<lambda>h.
     bind_res (network_host nw name') (\<lambda>h'.
     bind_res (exchange_frames3 x (h_interface h) (h_interface h')) (\<lambda>(x, y, z).
       Inr (set_host_interface (set_host_interface (set_interface nw i x) name h y) name' h' z)))))"

definition simulate_physical_connections :: "network \<Rightarrow> network res" where
  "simulate_physical_connections nw =
     bind_res (cable nw (nw_default_id nw) ''default_router'') (\<lambda>nw.
     bind_res (cable nw (nw_eth0_id nw) ''applesauce'') (\<lambda>nw.
     bind_res (cable nw (nw_eth2_id nw) ''cherrypie'') (\<lambda>nw.
     bind_res (cable nw (nw_hs4_id nw) ''hs_router'') (\<lambda>nw.
       cable3 nw (nw_uun3_id nw) ''dm42'' ''dm43''))))"

fun simulate_loop :: "nat \<Rightarrow> network \<Rightarrow> network res" where
  "simulate_loop 0 nw = Inr nw"
| "simulate_loop (Suc i) nw =
     bind_res (route (nw_router nw)) (\<lambda>r.
     bind_res (simulate_physical_connections (nw\<lparr>nw_router := r\<rparr>)) (simulate_loop i))"

fun check_hosts :: "(string \<times> host) list \<Rightarrow> (string \<times> host) list res" where
  "check_hosts [] = Inr []"
| "check_hosts ((name, h) # hs) = bind_res (host_check h) (\<lambda>h. bind_res (check_hosts hs) (\<lambda>hs. Inr ((name, h) # hs)))"

definition simulate :: "network \<Rightarrow> network res" where
  "simulate nw = bind_res (simulate_loop 256 nw) (\<lambda>nw. bind_res (check_hosts (nw_hosts nw)) (\<lambda>hs. Inr (nw\<lparr>nw_hosts := hs\<rparr>)))"

subsection \<open>Construction\<close>

text \<open>One \<^verbatim>\<open>add_interface\<close> and one \<^verbatim>\<open>insert\<close> of the constructor.\<close>

definition new_interface :: "resolver \<Rightarrow> generator \<Rightarrow> string \<Rightarrow> router \<times> nat \<Rightarrow> ((router \<times> nat) \<times> nat) res" where
  "new_interface getaddrinfo rng ip rn =
     (let (eth, n) = random_router_ethernet_address rng (snd rn) in
      bind_res (Address_ip getaddrinfo ip 0) (\<lambda>address.
      bind_res (NetworkInterface eth address) (\<lambda>ni.
        let (r, i) = add_interface (fst rn) (AsyncNetworkInterface ni) in Inr ((r, n), i))))"

definition insert_host ::
  "resolver \<Rightarrow> generator \<Rightarrow> string \<Rightarrow> string \<Rightarrow> string \<Rightarrow> (string \<times> host) list \<times> nat \<Rightarrow> ((string \<times> host) list \<times> nat) res" where
  "insert_host getaddrinfo rng name ip hop hn =
     bind_res (Address_ip getaddrinfo ip 0) (\<lambda>my_address.
     bind_res (Address_ip getaddrinfo hop 0) (\<lambda>next_hop.
     bind_res (Host rng (snd hn) name my_address next_hop) (\<lambda>(h, n).
       Inr (map_insert name h (fst hn), n))))"

definition route_to :: "resolver \<Rightarrow> string \<Rightarrow> u8 \<Rightarrow> Address option \<Rightarrow> nat \<Rightarrow> router \<Rightarrow> router res" where
  "route_to getaddrinfo str len next_hop i r = bind_res (simulator_ip getaddrinfo str) (\<lambda>prefix. add_route r prefix len next_hop i)"

definition Network :: "resolver \<Rightarrow> generator \<Rightarrow> nat \<Rightarrow> (network \<times> nat) res" where
  "Network getaddrinfo rng n =
     bind_res (new_interface getaddrinfo rng ''171.67.76.46'' (Router0, n)) (\<lambda>(rn, default_id).
     bind_res (new_interface getaddrinfo rng ''10.0.0.1'' rn) (\<lambda>(rn, eth0_id).
     bind_res (new_interface getaddrinfo rng ''172.16.0.1'' rn) (\<lambda>(rn, eth1_id).
     bind_res (new_interface getaddrinfo rng ''192.168.0.1'' rn) (\<lambda>(rn, eth2_id).
     bind_res (new_interface getaddrinfo rng ''198.178.229.1'' rn) (\<lambda>(rn, uun3_id).
     bind_res (new_interface getaddrinfo rng ''143.195.0.2'' rn) (\<lambda>(rn, hs4_id).
     bind_res (new_interface getaddrinfo rng ''128.30.76.255'' rn) (\<lambda>((r, n), mit5_id).
     bind_res (insert_host getaddrinfo rng ''applesauce'' ''10.0.0.2'' ''10.0.0.1'' ([], n)) (\<lambda>hn.
     bind_res (insert_host getaddrinfo rng ''default_router'' ''171.67.76.1'' ''0'' hn) (\<lambda>hn.
     bind_res (insert_host getaddrinfo rng ''cherrypie'' ''192.168.0.2'' ''192.168.0.1'' hn) (\<lambda>hn.
     bind_res (insert_host getaddrinfo rng ''hs_router'' ''143.195.0.1'' ''0'' hn) (\<lambda>hn.
     bind_res (insert_host getaddrinfo rng ''dm42'' ''198.178.229.42'' ''198.178.229.1'' hn) (\<lambda>hn.
     bind_res (insert_host getaddrinfo rng ''dm43'' ''198.178.229.43'' ''198.178.229.1'' hn) (\<lambda>(hs, n).
     let nw = \<lparr>nw_router = r, nw_default_id = default_id, nw_eth0_id = eth0_id, nw_eth1_id = eth1_id, nw_eth2_id = eth2_id,
           nw_uun3_id = uun3_id, nw_hs4_id = hs4_id, nw_mit5_id = mit5_id, nw_hosts = hs\<rparr>
     in
     bind_res (network_host nw ''default_router'') (\<lambda>default_router.
     bind_res (network_host nw ''hs_router'') (\<lambda>hs_router.
     let hs_hop = Some (h_my_address hs_router) in
     bind_res (route_to getaddrinfo ''0.0.0.0'' 0 (Some (h_my_address default_router)) default_id r) (\<lambda>r.
     bind_res (route_to getaddrinfo ''10.0.0.0'' 8 None eth0_id r) (\<lambda>r.
     bind_res (route_to getaddrinfo ''172.16.0.0'' 16 None eth1_id r) (\<lambda>r.
     bind_res (route_to getaddrinfo ''192.168.0.0'' 24 None eth2_id r) (\<lambda>r.
     bind_res (route_to getaddrinfo ''198.178.229.0'' 24 None uun3_id r) (\<lambda>r.
     bind_res (route_to getaddrinfo ''143.195.0.0'' 17 hs_hop hs4_id r) (\<lambda>r.
     bind_res (route_to getaddrinfo ''143.195.128.0'' 18 hs_hop hs4_id r) (\<lambda>r.
     bind_res (route_to getaddrinfo ''143.195.192.0'' 19 hs_hop hs4_id r) (\<lambda>r.
     bind_res (Address_ip getaddrinfo ''128.30.0.1'' 0) (\<lambda>mit_hop.
     bind_res (route_to getaddrinfo ''128.30.76.255'' 16 (Some mit_hop) mit5_id r) (\<lambda>r.
       Inr (nw\<lparr>nw_router := r\<rparr>, n))))))))))))))))))))))))))"

subsection \<open>The tests\<close>

text \<open>
  One test: a host sends a datagram to an address, and, when a receiver is named, that host expects it with the
  time to live decremented.
\<close>

definition transmit ::
  "generator \<Rightarrow> string \<Rightarrow> Address \<Rightarrow> u8 \<Rightarrow> string option \<Rightarrow> network \<times> nat \<Rightarrow> (network \<times> nat) res" where
  "transmit rng sender destination ttl receiver nwn =
     bind_res (network_host (fst nwn) sender) (\<lambda>h.
     bind_res (send_to rng (snd nwn) h destination ttl) (\<lambda>(h, dgram_sent, n).
     let nw = set_host (fst nwn) sender h in
     bind_res
       (case receiver of
          None \<Rightarrow> Inr nw
        | Some name \<Rightarrow>
            let dgram_sent = dgram_sent\<lparr>ip_header := (ip_header dgram_sent)\<lparr>ih_ttl := ih_ttl (ip_header dgram_sent) - 1\<rparr>\<rparr> in
            bind_res (network_host nw name) (\<lambda>e. Inr (set_host nw name (host_expect e dgram_sent)))) (\<lambda>nw.
     bind_res (simulate nw) (\<lambda>nw. Inr (nw, n)))))"

definition transmit_host :: "generator \<Rightarrow> string \<Rightarrow> string \<Rightarrow> network \<times> nat \<Rightarrow> (network \<times> nat) res" where
  "transmit_host rng sender receiver nwn =
     bind_res (network_host (fst nwn) receiver) (\<lambda>h. transmit rng sender (h_my_address h) 64 (Some receiver) nwn)"

definition transmit_ip ::
  "resolver \<Rightarrow> generator \<Rightarrow> string \<Rightarrow> string \<Rightarrow> u8 \<Rightarrow> string option \<Rightarrow> network \<times> nat \<Rightarrow> (network \<times> nat) res" where
  "transmit_ip getaddrinfo rng sender ip ttl receiver nwn =
     bind_res (Address_ip getaddrinfo ip 0) (\<lambda>destination. transmit rng sender destination ttl receiver nwn)"

definition network_simulator :: "resolver \<Rightarrow> generator \<Rightarrow> (network \<times> nat) res" where
  "network_simulator getaddrinfo rng =
     bind_res (Network getaddrinfo rng 0) (\<lambda>nwn.
     bind_res (transmit_host rng ''applesauce'' ''cherrypie'' nwn) (\<lambda>nwn.
     bind_res (transmit_host rng ''cherrypie'' ''applesauce'' nwn) (\<lambda>nwn.
     bind_res (transmit_ip getaddrinfo rng ''applesauce'' ''1.2.3.4'' 64 (Some ''default_router'') nwn) (\<lambda>nwn.
     bind_res (transmit_ip getaddrinfo rng ''applesauce'' ''143.195.131.17'' 64 (Some ''hs_router'') nwn) (\<lambda>nwn.
     bind_res (transmit_ip getaddrinfo rng ''cherrypie'' ''143.195.193.52'' 64 (Some ''hs_router'') nwn) (\<lambda>nwn.
     bind_res (transmit_ip getaddrinfo rng ''cherrypie'' ''143.195.223.255'' 64 (Some ''hs_router'') nwn) (\<lambda>nwn.
     bind_res (transmit_ip getaddrinfo rng ''cherrypie'' ''143.195.224.0'' 64 (Some ''default_router'') nwn) (\<lambda>nwn.
     bind_res (transmit_host rng ''dm42'' ''dm43'' nwn) (\<lambda>nwn.
     bind_res (transmit_ip getaddrinfo rng ''applesauce'' ''1.2.3.4'' 1 None nwn) (\<lambda>nwn.
       transmit_ip getaddrinfo rng ''applesauce'' ''1.2.3.4'' 0 None nwn))))))))))"

definition simulator_main :: "resolver \<Rightarrow> generator \<Rightarrow> nat" where
  "simulator_main getaddrinfo rng = (case network_simulator getaddrinfo rng of Inl _ \<Rightarrow> 1 | Inr _ \<Rightarrow> 0)"

end
