(* ===== verification/Network_Link.thy ===== *)
theory Network_Link
  imports Network_Simulator
begin

text \<open>
  How the simulated network carries one datagram over one link: what \<^verbatim>\<open>deliver\<close> and \<^verbatim>\<open>exchange_frames\<close> of
  \<^verbatim>\<open>apps/network_simulator.cc\<close> do with the frames of the network interfaces, and the three exchanges of an
  address resolution, as the stages of a state machine with a measure.
\<close>

section \<open>Frames on a link\<close>

declare map_of_eq_Some_iff [simp del] Some_eq_map_of_iff [simp del]

text \<open>A frame in the form in which \<^verbatim>\<open>deliver\<close> hands it over.\<close>

definition flat :: "EthernetFrame \<Rightarrow> EthernetFrame" where
  "flat f = f\<lparr>ef_payload := BufferList_of_string (concatenate (ef_payload f))\<rparr>"

lemma frame_summary_flat: "length (concatenate (ef_payload f)) < 2 ^ 64 \<Longrightarrow> \<exists>s. frame_summary (flat f) = Inr s"
  using ipv4_datagram_parse_total [of "Buffer (concatenate (ef_payload f))" IPv4Datagram0]
    arp_parse_safe [of "Buffer (concatenate (ef_payload f))" ARPMessage0]
  by (auto simp: frame_summary_def flat_def BufferList_of_string_def bl_to_Buffer_def Let_def)

lemma deliver_flat:
  assumes "length (concatenate (ef_payload f)) < 2 ^ 64" and "recv_frame (ani_interface ai) (flat f) = Inr (ni, r)"
  shows "deliver [f] ai = Inr (ai\<lparr>ani_interface := ni, ani_datagrams_out := ani_datagrams_out ai @ (case r of Some d \<Rightarrow> [d] | None \<Rightarrow> [])\<rparr>)"
  using frame_summary_flat [OF assms(1)] assms(2)
  by (auto simp: flat_def async_recv_frame_def Let_def split: option.split)

lemma arp_frame_length: "arp_fits m \<Longrightarrow> length (concatenate (ef_payload (arp_frame src dst m))) < 2 ^ 64"
  using aw.wire [of m] by (auto simp: arp_encode_def arp_frame_def bind_res_Inr_iff)

lemma data_frame_length: "dgram_ok d \<Longrightarrow> length (concatenate (ef_payload (data_frame src dst d))) < 2 ^ 64"
  using dw.wire [of d] by (auto simp: data_frame_def)

lemma flat_frame:
  "ef_header (flat f) = ef_header f" "ef_payload (flat f) = [Buffer (concatenate (ef_payload f))]"
  by (simp_all add: flat_def BufferList_of_string_def)

lemma deliver_arp:
  assumes "ni_inv (ani_interface ai)" and "arp_fits m"
  shows "deliver [arp_frame src dst m] ai =
    Inr (if dst = ni_ethernet_address (ani_interface ai) \<or> dst = ETHERNET_BROADCAST
         then ai\<lparr>ani_interface := learned (ani_interface ai) m\<rparr> else ai)"
proof (cases "dst = ni_ethernet_address (ani_interface ai) \<or> dst = ETHERNET_BROADCAST")
  case True
  have "recv_frame (ani_interface ai) (flat (arp_frame src dst m)) = Inr (learned (ani_interface ai) m, None)"
    by (rule recv_arp_frame [OF assms True]) (use arp_frame_length [OF assms(2)] in \<open>auto simp: flat_frame\<close>)
  then show ?thesis using deliver_flat [OF arp_frame_length [OF assms(2)]] True by simp
next
  case False
  then have "recv_frame (ani_interface ai) (flat (arp_frame src dst m)) = Inr (ani_interface ai, None)"
    by (simp add: recv_frame_def flat_frame) (simp add: arp_frame_def)
  then show ?thesis using deliver_flat [OF arp_frame_length [OF assms(2)]] False by simp
qed

lemma deliver_data:
  assumes "dgram_ok d"
  shows "dst = ni_ethernet_address (ani_interface ai) \<Longrightarrow>
      \<exists>d'. deliver [data_frame src dst d] ai = Inr (ai\<lparr>ani_datagrams_out := ani_datagrams_out ai @ [d']\<rparr>) \<and> dgram_same d d'"
    "dst \<noteq> ni_ethernet_address (ani_interface ai) \<Longrightarrow> dst \<noteq> ETHERNET_BROADCAST \<Longrightarrow> deliver [data_frame src dst d] ai = Inr ai"
proof -
  note len = data_frame_length [OF assms, of src dst]
  { assume "dst = ni_ethernet_address (ani_interface ai)"
    then obtain d' where "recv_frame (ani_interface ai) (flat (data_frame src dst d)) = Inr (ani_interface ai, Some d')" "dgram_same d d'"
      using recv_data_frame [OF assms, of dst "ani_interface ai" "flat (data_frame src dst d)" src] len by (auto simp: flat_frame)
    then show "\<exists>d'. deliver [data_frame src dst d] ai = Inr (ai\<lparr>ani_datagrams_out := ani_datagrams_out ai @ [d']\<rparr>) \<and> dgram_same d d'"
      using deliver_flat [OF len] by auto }
  assume "dst \<noteq> ni_ethernet_address (ani_interface ai)" "dst \<noteq> ETHERNET_BROADCAST"
  then have "recv_frame (ani_interface ai) (flat (data_frame src dst d)) = Inr (ani_interface ai, None)"
    by (simp add: recv_frame_def flat_frame) (simp add: data_frame_def)
  then show "deliver [data_frame src dst d] ai = Inr ai" using deliver_flat [OF len] by simp
qed

section \<open>The exchange of frames\<close>

text \<open>
  What \<^verbatim>\<open>exchange_frames\<close> does when one participant has a frame to send: every other one receives it and it leaves
  the queue; new frames stay for the next exchange. Both overloads are covered by the list of participants.
\<close>

definition lan_exchange :: "async_interface list \<Rightarrow> async_interface list res" where
  "lan_exchange ms =
     (case ms of
        [x, y] \<Rightarrow> bind_res (exchange_frames x y) (\<lambda>(x, y). Inr [x, y])
      | [x, y, z] \<Rightarrow> bind_res (exchange_frames3 x y z) (\<lambda>(x, y, z). Inr [x, y, z])
      | _ \<Rightarrow> Inr ms)"

lemma set_frames_out_same [simp]: "set_frames_out ai (frames_out ai) = ai"
  by (simp add: set_frames_out_def)

lemma lan_exchange_idle:
  assumes "\<forall>m \<in> set ms. frames_out m = []"
  shows "lan_exchange ms = Inr ms"
proof -
  have "set_frames_out m [] = m" if "m \<in> set ms" for m
    using set_frames_out_same [of m] assms that by (metis (no_types))
  then show ?thesis
    using assms by (auto simp: lan_exchange_def exchange_frames_def exchange_frames3_def Let_def split: list.split)
qed

lemma lan_exchange_token:
  assumes "length ms = 2 \<or> length ms = 3" and "i < length ms" and "length ms' = length ms" and "frames_out (ms ! i) = [f]"
    and "\<forall>j < length ms. j \<noteq> i \<longrightarrow> frames_out (ms ! j) = [] \<and> deliver [f] (ms ! j) = Inr (ms' ! j)"
    and "ms' ! i = set_frames_out (ms ! i) []"
  shows "lan_exchange ms = Inr ms'"
  using assms(1)
proof
  assume 2: "length ms = 2"
  then obtain x y x' y' where ms: "ms = [x, y]" "ms' = [x', y']" using assms(3) by (auto simp: numeral_eq_Suc length_Suc_conv)
  have "i = 0 \<or> i = 1" using assms(2) 2 by auto
  then show ?thesis
    using assms(4-6) unfolding ms
    by (auto simp: lan_exchange_def exchange_frames_def Let_def All_less_Suc numeral_eq_Suc simp del: deliver.simps(2))
next
  assume 3: "length ms = 3"
  then obtain x y z x' y' z' where ms: "ms = [x, y, z]" "ms' = [x', y', z']"
    using assms(3) by (auto simp: numeral_eq_Suc length_Suc_conv)
  have "i = 0 \<or> i = 1 \<or> i = 2" using assms(2) 3 by auto
  then show ?thesis
    using assms(4-6) unfolding ms
    by (auto simp: lan_exchange_def exchange_frames3_def Let_def All_less_Suc numeral_eq_Suc simp del: deliver.simps(2))
qed

section \<open>A datagram crosses a link\<close>

text \<open>
  The addresses on a link are a list of pairs; no station has the broadcast address, and on a link with three
  stations the Ethernet addresses differ. A station only caches addresses of the link.
\<close>

type_synonym link_addresses = "(u32 \<times> EthernetAddress) list"

definition lan_ok :: "link_addresses \<Rightarrow> bool" where
  "lan_ok as \<longleftrightarrow> (length as = 2 \<or> length as = 3) \<and> distinct (map fst as) \<and> (\<forall>a \<in> set as. snd a \<noteq> ETHERNET_BROADCAST) \<and>
     (length as = 3 \<longrightarrow> distinct (map snd as))"

definition ni_addr :: "network_interface \<Rightarrow> u32 \<times> EthernetAddress" where
  "ni_addr ni = (ni_ip ni, ni_ethernet_address ni)"

definition station :: "link_addresses \<Rightarrow> u32 set \<Rightarrow> network_interface \<Rightarrow> bool" where
  "station as pending ni \<longleftrightarrow>
     ni_inv ni \<and> (\<forall>ip e t. map_of (ni_arp_table ni) ip = Some (e, t) \<longrightarrow> map_of as ip = Some e) \<and>
     (\<forall>ip. map_of (ni_arp_request_time ni) ip \<noteq> None \<longrightarrow> ip \<in> pending \<or> map_of (ni_arp_table ni) ip \<noteq> None)"

definition idle :: "link_addresses \<Rightarrow> network_interface \<Rightarrow> bool" where
  "idle as ni \<longleftrightarrow> station as {} ni \<and> ni_frames_out ni = [] \<and> ni_arp_wait_ipdata ni = []"

definition asked :: "link_addresses \<Rightarrow> u32 \<Rightarrow> IPv4Datagram \<Rightarrow> network_interface \<Rightarrow> bool" where
  "asked as hop d ni \<longleftrightarrow> station as {hop} ni \<and> ni_frames_out ni = [] \<and> ni_arp_wait_ipdata ni = [(hop, [d])] \<and>
     map_of (ni_arp_table ni) hop = None"

definition arp_ask :: "u32 \<times> EthernetAddress \<Rightarrow> u32 \<Rightarrow> ARPMessage" where
  "arp_ask a hop = ARPMessage0\<lparr>am_opcode := OPCODE_REQUEST, am_sender_ethernet_address := snd a,
     am_sender_ip_address := fst a, am_target_ethernet_address := replicate 6 0, am_target_ip_address := hop\<rparr>"

definition arp_answer :: "u32 \<times> EthernetAddress \<Rightarrow> u32 \<times> EthernetAddress \<Rightarrow> ARPMessage" where
  "arp_answer b a = ARPMessage0\<lparr>am_opcode := OPCODE_REPLY, am_sender_ip_address := fst b, am_sender_ethernet_address := snd b,
     am_target_ip_address := fst a, am_target_ethernet_address := snd a\<rparr>"

lemma arp_of_addr:
  "arp_request_of ni hop = arp_ask (ni_addr ni) hop" "arp_reply_of ni (arp_ask a hop) = arp_answer (ni_addr ni) a"
  "request_frame ni hop = arp_frame (ni_ethernet_address ni) ETHERNET_BROADCAST (arp_ask (ni_addr ni) hop)"
  "reply_frame ni (arp_ask a hop) = arp_frame (ni_ethernet_address ni) (snd a) (arp_answer (ni_addr ni) a)"
  by (simp_all add: arp_request_of_def arp_reply_of_def arp_ask_def arp_answer_def ni_addr_def request_frame_def reply_frame_def)

lemma arp_ask_fits: "length (snd a) = 6 \<Longrightarrow> arp_fits (arp_ask a hop)" "length (snd a) = 6 \<Longrightarrow> length (snd b) = 6 \<Longrightarrow> arp_fits (arp_answer b a)"
  by (simp_all add: arp_fits_def arp_ok_def arp_supported_def arp_ask_def arp_answer_def ARPMessage0_def)

lemma ni_addr_update [simp]:
  "ni_addr (ni\<lparr>ni_frames_out := fs\<rparr>) = ni_addr ni" "ni_addr (learned ni m) = ni_addr ni" "ni_addr (sent ni d hop) = ni_addr ni"
  by (auto simp: ni_addr_def learned_def sent_def split: option.splits)

lemma station_frames [simp]: "station as X (ni\<lparr>ni_frames_out := fs\<rparr>) \<longleftrightarrow> station as X ni"
  by (simp add: station_def)

text \<open>The moves of one station.\<close>

lemma idle_sends:
  assumes "idle as ni" and "dgram_ok d" and "map_of as hop = Some e"
  shows "(ni_frames_out (sent ni d hop) = [data_frame (ni_ethernet_address ni) e d] \<and> idle as ((sent ni d hop)\<lparr>ni_frames_out := []\<rparr>)) \<or>
    (ni_frames_out (sent ni d hop) = [request_frame ni hop] \<and> asked as hop d ((sent ni d hop)\<lparr>ni_frames_out := []\<rparr>))"
proof (cases "map_of (ni_arp_table ni) hop")
  case (Some x)
  then obtain e' t where x: "map_of (ni_arp_table ni) hop = Some (e', t)" by (cases x) simp
  then have "e' = e" using assms(1,3) unfolding idle_def station_def by fastforce
  then show ?thesis using x assms(1) by (simp add: sent_def idle_def station_def)
next
  case None
  then have req: "map_of (ni_arp_request_time ni) hop = None" using assms(1) unfolding idle_def station_def by blast
  have "ni_inv ((sent ni d hop)\<lparr>ni_frames_out := []\<rparr>)" using assms(1,2) by (simp add: sent_inv idle_def station_def)
  then show ?thesis
    using None req assms(1)
    by (simp add: sent_def idle_def asked_def station_def update_conv')
qed

lemma station_learns:
  assumes "station as X ni" and "map_of as (am_sender_ip_address m) = Some (am_sender_ethernet_address m)" and "arp_ok m"
  shows "station as (X - {am_sender_ip_address m}) (learned ni m)"
proof -
  have "ni_inv (learned ni m)" using assms(1,3) by (simp add: station_def learned_inv)
  then show ?thesis using assms(1,2) by (auto simp: station_def learned_def update_conv' split: if_splits)
qed

lemma idle_hears_ask:
  assumes "idle as ni" and "map_of as (fst a) = Some (snd a)" and "length (snd a) = 6"
  shows "idle as ((learned ni (arp_ask a hop))\<lparr>ni_frames_out := []\<rparr>)"
    "ni_frames_out (learned ni (arp_ask a hop)) =
       (if ni_ip ni = hop then [arp_frame (ni_ethernet_address ni) (snd a) (arp_answer (ni_addr ni) a)] else [])"
proof -
  have f: "am_sender_ip_address (arp_ask a hop) = fst a" "am_sender_ethernet_address (arp_ask a hop) = snd a"
    "am_opcode (arp_ask a hop) = OPCODE_REQUEST" "am_target_ip_address (arp_ask a hop) = hop"
    by (simp_all add: arp_ask_def)
  have "station as ({} - {fst a}) (learned ni (arp_ask a hop))"
    using station_learns [of as "{}" ni "arp_ask a hop"] assms f arp_ask_fits(1) [of a hop] by (simp add: idle_def arp_fits_def)
  then show "idle as ((learned ni (arp_ask a hop))\<lparr>ni_frames_out := []\<rparr>)"
    using assms(1) by (simp add: idle_def) (simp add: learned_def)
  show "ni_frames_out (learned ni (arp_ask a hop)) =
       (if ni_ip ni = hop then [arp_frame (ni_ethernet_address ni) (snd a) (arp_answer (ni_addr ni) a)] else [])"
    using assms(1) f by (auto simp: learned_def idle_def waiting_def arp_of_addr)
qed

lemma asked_hears_answer:
  assumes "asked as (fst b) d ni" and "map_of as (fst b) = Some (snd b)" and "length (snd b) = 6" "length (snd a) = 6"
  shows "idle as ((learned ni (arp_answer b a))\<lparr>ni_frames_out := []\<rparr>)"
    "ni_frames_out (learned ni (arp_answer b a)) = [data_frame (ni_ethernet_address ni) (snd b) d]"
proof -
  have f: "am_sender_ip_address (arp_answer b a) = fst b" "am_sender_ethernet_address (arp_answer b a) = snd b"
    "am_opcode (arp_answer b a) \<noteq> OPCODE_REQUEST"
    by (simp_all add: arp_answer_def OPCODE_REPLY_def OPCODE_REQUEST_def)
  have "station as ({fst b} - {fst b}) (learned ni (arp_answer b a))"
    using station_learns [of as "{fst b}" ni "arp_answer b a"] assms f arp_ask_fits(2) [of a b] by (simp add: asked_def arp_fits_def)
  then show "idle as ((learned ni (arp_answer b a))\<lparr>ni_frames_out := []\<rparr>)"
    using assms(1) f by (simp add: idle_def asked_def) (simp add: learned_def)
  show "ni_frames_out (learned ni (arp_answer b a)) = [data_frame (ni_ethernet_address ni) (snd b) d]"
    using assms(1) f by (simp add: learned_def asked_def waiting_def)
qed

text \<open>
  The stages of a transmission from station \<open>i\<close> to station \<open>j\<close>: the question for the address, its answer, and the
  datagram itself.
\<close>

datatype stage = Idle | Ask nat nat IPv4Datagram | Answer nat nat IPv4Datagram | Send nat nat IPv4Datagram

fun stage_ok :: "nat \<Rightarrow> stage \<Rightarrow> bool" where
  "stage_ok n Idle \<longleftrightarrow> True"
| "stage_ok n (Ask i j d) \<longleftrightarrow> i < n \<and> j < n \<and> i \<noteq> j \<and> dgram_ok d"
| "stage_ok n (Answer i j d) \<longleftrightarrow> i < n \<and> j < n \<and> i \<noteq> j \<and> dgram_ok d"
| "stage_ok n (Send i j d) \<longleftrightarrow> i < n \<and> j < n \<and> i \<noteq> j \<and> dgram_ok d"

fun stage_frames :: "link_addresses \<Rightarrow> stage \<Rightarrow> nat \<Rightarrow> EthernetFrame list" where
  "stage_frames as Idle k = []"
| "stage_frames as (Ask i j d) k = (if k = i then [arp_frame (snd (as ! i)) ETHERNET_BROADCAST (arp_ask (as ! i) (fst (as ! j)))] else [])"
| "stage_frames as (Answer i j d) k = (if k = j then [arp_frame (snd (as ! j)) (snd (as ! i)) (arp_answer (as ! j) (as ! i))] else [])"
| "stage_frames as (Send i j d) k = (if k = i then [data_frame (snd (as ! i)) (snd (as ! j)) d] else [])"

fun stage_rest :: "link_addresses \<Rightarrow> stage \<Rightarrow> nat \<Rightarrow> network_interface \<Rightarrow> bool" where
  "stage_rest as (Ask i j d) k ni \<longleftrightarrow> (if k = i then asked as (fst (as ! j)) d ni else idle as ni)"
| "stage_rest as (Answer i j d) k ni \<longleftrightarrow> (if k = i then asked as (fst (as ! j)) d ni else idle as ni)"
| "stage_rest as _ k ni \<longleftrightarrow> idle as ni"

definition member_ok :: "link_addresses \<Rightarrow> stage \<Rightarrow> nat \<Rightarrow> network_interface \<Rightarrow> bool" where
  "member_ok as st k ni \<longleftrightarrow> ni_addr ni = as ! k \<and> ni_frames_out ni = stage_frames as st k \<and> stage_rest as st k (ni\<lparr>ni_frames_out := []\<rparr>)"

definition on_lan :: "link_addresses \<Rightarrow> stage \<Rightarrow> async_interface list \<Rightarrow> bool" where
  "on_lan as st ms \<longleftrightarrow> lan_ok as \<and> length ms = length as \<and> stage_ok (length as) st \<and>
     (\<forall>k < length as. member_ok as st k (ani_interface (ms ! k)))"

lemma ni_frames_same: "ni_frames_out ni = [] \<Longrightarrow> ni\<lparr>ni_frames_out := []\<rparr> = ni"
  by (cases ni) simp

lemma member_idle:
  assumes "stage_frames as st k = []" and "\<And>ni. stage_rest as st k ni \<longleftrightarrow> idle as ni" and "member_ok as st k ni"
  shows "idle as ni"
proof -
  have "ni_frames_out ni = []" using assms(1,3) by (simp add: member_ok_def)
  moreover have "idle as (ni\<lparr>ni_frames_out := []\<rparr>)" using assms(3) unfolding member_ok_def assms(2) by blast
  ultimately show ?thesis by (simp add: ni_frames_same)
qed

lemma lan_lookup: "lan_ok as \<Longrightarrow> k < length as \<Longrightarrow> map_of as (fst (as ! k)) = Some (snd (as ! k))"
  by (simp add: lan_ok_def)

lemma lan_ip_inj: "lan_ok as \<Longrightarrow> k < length as \<Longrightarrow> j < length as \<Longrightarrow> fst (as ! k) = fst (as ! j) \<Longrightarrow> k = j"
  unfolding lan_ok_def by (metis length_map nth_map nth_eq_iff_index_eq)

lemma lan_eth_other:
  assumes "lan_ok as" and "i < length as" "j < length as" "k < length as" and "i \<noteq> j" "k \<noteq> i" "k \<noteq> j"
  shows "snd (as ! i) \<noteq> snd (as ! k)" "snd (as ! i) \<noteq> ETHERNET_BROADCAST"
proof -
  have "length as \<noteq> 2" using assms(2-7) by auto
  then have "distinct (map snd as)" using assms(1) by (auto simp: lan_ok_def)
  then show "snd (as ! i) \<noteq> snd (as ! k)" using assms(2,4,6) by (metis length_map nth_map nth_eq_iff_index_eq)
  show "snd (as ! i) \<noteq> ETHERNET_BROADCAST" using assms(1,2) by (auto simp: lan_ok_def)
qed

lemma member_eth:
  assumes "member_ok as st k ni"
  shows "length (snd (as ! k)) = 6" "ni_inv ni"
proof -
  have "stage_rest as st k (ni\<lparr>ni_frames_out := []\<rparr>)" using assms by (simp add: member_ok_def)
  then show inv: "ni_inv ni" by (cases st) (auto simp: idle_def asked_def station_def split: if_splits)
  have "snd (as ! k) = ni_ethernet_address ni" using assms by (metis member_ok_def ni_addr_def snd_conv)
  then show "length (snd (as ! k)) = 6" using inv by (simp add: ni_inv_def)
qed

lemma on_lan_member:
  assumes "on_lan as st ms" and "k < length as"
  shows "member_ok as st k (ani_interface (ms ! k))" "length (snd (as ! k)) = 6" "ni_inv (ani_interface (ms ! k))"
    "ni_ip (ani_interface (ms ! k)) = fst (as ! k)" "ni_ethernet_address (ani_interface (ms ! k)) = snd (as ! k)"
    "ni_addr (ani_interface (ms ! k)) = as ! k"
proof -
  show m: "member_ok as st k (ani_interface (ms ! k))" using assms by (simp add: on_lan_def)
  show "length (snd (as ! k)) = 6" "ni_inv (ani_interface (ms ! k))" using member_eth [OF m] by simp_all
  show a: "ni_addr (ani_interface (ms ! k)) = as ! k" using m by (simp add: member_ok_def)
  show "ni_ip (ani_interface (ms ! k)) = fst (as ! k)" "ni_ethernet_address (ani_interface (ms ! k)) = snd (as ! k)"
    unfolding a [symmetric] by (simp_all add: ni_addr_def)
qed

lemma lan_step:
  assumes "on_lan as st ms" and "stage_ok (length as) st'" and "i < length as" and "stage_frames as st i = [f]"
    and "\<And>k. k < length as \<Longrightarrow> k \<noteq> i \<Longrightarrow> stage_frames as st k = [] \<and> deliver [f] (ms ! k) = Inr (hear k) \<and> member_ok as st' k (ani_interface (hear k))"
    and "member_ok as st' i ((ani_interface (ms ! i))\<lparr>ni_frames_out := []\<rparr>)"
  shows "\<exists>ms'. lan_exchange ms = Inr ms' \<and> on_lan as st' ms' \<and> ani_datagrams_out (ms' ! i) = ani_datagrams_out (ms ! i) \<and>
    (\<forall>k < length as. k \<noteq> i \<longrightarrow> ms' ! k = hear k)"
proof -
  let ?ms = "map (\<lambda>k. if k = i then set_frames_out (ms ! k) [] else hear k) [0 ..< length ms]"
  have len: "length ms = length as" "lan_ok as" using assms(1) by (simp_all add: on_lan_def)
  have fr: "frames_out (ms ! k) = stage_frames as st k" if "k < length as" for k
    using on_lan_member(1) [OF assms(1) that] by (simp add: member_ok_def)
  have "lan_exchange ms = Inr ?ms"
    by (rule lan_exchange_token [of _ i _ f]) (use assms(3-5) len fr in \<open>auto simp: lan_ok_def simp del: deliver.simps\<close>)
  then show ?thesis
    using assms(2,3,5,6) len by (intro exI [of _ ?ms]) (auto simp: on_lan_def set_frames_out_def)
qed

lemma lan_ask:
  assumes "on_lan as (Ask i j d) ms"
  shows "\<exists>ms'. lan_exchange ms = Inr ms' \<and> on_lan as (Answer i j d) ms' \<and>
    (\<forall>k < length as. ani_datagrams_out (ms' ! k) = ani_datagrams_out (ms ! k))"
proof -
  note mem = on_lan_member [OF assms]
  have ok: "lan_ok as" "i < length as" "j < length as" "i \<noteq> j" "dgram_ok d" using assms by (auto simp: on_lan_def)
  let ?m = "arp_ask (as ! i) (fst (as ! j))"
  let ?hear = "\<lambda>k. (ms ! k)\<lparr>ani_interface := learned (ani_interface (ms ! k)) ?m\<rparr>"
  have "\<exists>ms'. lan_exchange ms = Inr ms' \<and> on_lan as (Answer i j d) ms' \<and> ani_datagrams_out (ms' ! i) = ani_datagrams_out (ms ! i) \<and>
      (\<forall>k < length as. k \<noteq> i \<longrightarrow> ms' ! k = ?hear k)"
  proof (rule lan_step [OF assms _ ok(2)])
    fix k assume k: "k < length as" "k \<noteq> i"
    have idle: "idle as (ani_interface (ms ! k))" by (rule member_idle [OF _ _ mem(1) [OF k(1)]]) (use k(2) in auto)
    note h = idle_hears_ask [OF idle lan_lookup [OF ok(1,2)] mem(2) [OF ok(2)], of "fst (as ! j)"]
    have "fst (as ! k) = fst (as ! j) \<longleftrightarrow> k = j" using lan_ip_inj [OF ok(1) k(1) ok(3)] by auto
    then have "member_ok as (Answer i j d) k (ani_interface (?hear k))" using h k(2) mem(4-6) [OF k(1)] by (auto simp: member_ok_def)
    then show "stage_frames as (Ask i j d) k = [] \<and>
        deliver [arp_frame (snd (as ! i)) ETHERNET_BROADCAST ?m] (ms ! k) = Inr (?hear k) \<and> member_ok as (Answer i j d) k (ani_interface (?hear k))"
      using deliver_arp [OF mem(3) [OF k(1)] arp_ask_fits(1) [OF mem(2) [OF ok(2)]]] k(2) by simp
  qed (use ok mem(1) [OF ok(2)] in \<open>auto simp: member_ok_def\<close>)
  then obtain ms' where ms': "lan_exchange ms = Inr ms'" "on_lan as (Answer i j d) ms'" "ani_datagrams_out (ms' ! i) = ani_datagrams_out (ms ! i)"
    "\<forall>k < length as. k \<noteq> i \<longrightarrow> ms' ! k = ?hear k" by blast
  then have "ani_datagrams_out (ms' ! k) = ani_datagrams_out (ms ! k)" if "k < length as" for k
    using that by (cases "k = i") simp_all
  then show ?thesis using ms'(1,2) by blast
qed

lemma lan_answer:
  assumes "on_lan as (Answer i j d) ms"
  shows "\<exists>ms'. lan_exchange ms = Inr ms' \<and> on_lan as (Send i j d) ms' \<and>
    (\<forall>k < length as. ani_datagrams_out (ms' ! k) = ani_datagrams_out (ms ! k))"
proof -
  note mem = on_lan_member [OF assms]
  have ok: "lan_ok as" "i < length as" "j < length as" "i \<noteq> j" "dgram_ok d" using assms by (auto simp: on_lan_def)
  let ?m = "arp_answer (as ! j) (as ! i)"
  let ?hear = "\<lambda>k. if k = i then (ms ! k)\<lparr>ani_interface := learned (ani_interface (ms ! k)) ?m\<rparr> else ms ! k"
  have "\<exists>ms'. lan_exchange ms = Inr ms' \<and> on_lan as (Send i j d) ms' \<and> ani_datagrams_out (ms' ! j) = ani_datagrams_out (ms ! j) \<and>
      (\<forall>k < length as. k \<noteq> j \<longrightarrow> ms' ! k = ?hear k)"
  proof (rule lan_step [OF assms _ ok(3)])
    fix k assume k: "k < length as" "k \<noteq> j"
    note del = deliver_arp [OF mem(3) [OF k(1)] arp_ask_fits(2) [OF mem(2) [OF ok(2)] mem(2) [OF ok(3)]], of "snd (as ! j)" "snd (as ! i)"]
    have "member_ok as (Send i j d) k (ani_interface (?hear k)) \<and>
        deliver [arp_frame (snd (as ! j)) (snd (as ! i)) ?m] (ms ! k) = Inr (?hear k)"
    proof (cases "k = i")
      case True
      have "asked as (fst (as ! j)) d (ani_interface (ms ! i))"
        using mem(1) [OF ok(2)] ok(4) by (auto simp: member_ok_def ni_frames_same)
      note h = asked_hears_answer [OF this lan_lookup [OF ok(1,3)] mem(2) [OF ok(3)] mem(2) [OF ok(2)]]
      show ?thesis using h del True mem(5,6) [OF ok(2)] by (simp add: member_ok_def del: deliver.simps)
    next
      case False
      show ?thesis
        using del False mem(1) [OF k(1)] mem(5) [OF k(1)] lan_eth_other [OF ok(1-3) k(1) ok(4) False k(2)] k(2)
        by (simp add: member_ok_def del: deliver.simps)
    qed
    then show "stage_frames as (Answer i j d) k = [] \<and> deliver [arp_frame (snd (as ! j)) (snd (as ! i)) ?m] (ms ! k) = Inr (?hear k) \<and>
        member_ok as (Send i j d) k (ani_interface (?hear k))"
      using k(2) by (simp del: deliver.simps)
  qed (use ok mem(1) [OF ok(3)] in \<open>auto simp: member_ok_def\<close>)
  then obtain ms' where ms': "lan_exchange ms = Inr ms'" "on_lan as (Send i j d) ms'" "ani_datagrams_out (ms' ! j) = ani_datagrams_out (ms ! j)"
    "\<forall>k < length as. k \<noteq> j \<longrightarrow> ms' ! k = ?hear k" by blast
  then have "ani_datagrams_out (ms' ! k) = ani_datagrams_out (ms ! k)" if "k < length as" for k
    using that by (cases "k = j") simp_all
  then show ?thesis using ms'(1,2) by blast
qed

lemma lan_send:
  assumes "on_lan as (Send i j d) ms"
  shows "\<exists>ms' d'. lan_exchange ms = Inr ms' \<and> on_lan as Idle ms' \<and> dgram_same d d' \<and>
    (\<forall>k < length as. ani_datagrams_out (ms' ! k) = ani_datagrams_out (ms ! k) @ (if k = j then [d'] else []))"
proof -
  note mem = on_lan_member [OF assms]
  have ok: "lan_ok as" "i < length as" "j < length as" "i \<noteq> j" "dgram_ok d" using assms by (auto simp: on_lan_def)
  obtain d' where d': "deliver [data_frame (snd (as ! i)) (snd (as ! j)) d] (ms ! j) =
      Inr ((ms ! j)\<lparr>ani_datagrams_out := ani_datagrams_out (ms ! j) @ [d']\<rparr>)" "dgram_same d d'"
    using deliver_data(1) [OF ok(5), of "snd (as ! j)" "ms ! j"] mem(5) [OF ok(3)] by auto
  let ?hear = "\<lambda>k. if k = j then (ms ! k)\<lparr>ani_datagrams_out := ani_datagrams_out (ms ! k) @ [d']\<rparr> else ms ! k"
  have "\<exists>ms'. lan_exchange ms = Inr ms' \<and> on_lan as Idle ms' \<and> ani_datagrams_out (ms' ! i) = ani_datagrams_out (ms ! i) \<and>
      (\<forall>k < length as. k \<noteq> i \<longrightarrow> ms' ! k = ?hear k)"
  proof (rule lan_step [OF assms _ ok(2)])
    fix k assume k: "k < length as" "k \<noteq> i"
    have "deliver [data_frame (snd (as ! i)) (snd (as ! j)) d] (ms ! k) = Inr (?hear k)"
      using d'(1) deliver_data(2) [OF ok(5), of "snd (as ! j)" "ms ! k"] mem(5) [OF k(1)] lan_eth_other [OF ok(1,3,2) k(1)] k(2) ok(4)
      by (cases "k = j") (simp_all del: deliver.simps)
    then show "stage_frames as (Send i j d) k = [] \<and> deliver [data_frame (snd (as ! i)) (snd (as ! j)) d] (ms ! k) = Inr (?hear k) \<and>
        member_ok as Idle k (ani_interface (?hear k))"
      using mem(1) [OF k(1)] k(2) by (auto simp: member_ok_def simp del: deliver.simps)
  qed (use ok mem(1) [OF ok(2)] in \<open>auto simp: member_ok_def\<close>)
  then obtain ms' where ms': "lan_exchange ms = Inr ms'" "on_lan as Idle ms'" "ani_datagrams_out (ms' ! i) = ani_datagrams_out (ms ! i)"
    "\<forall>k < length as. k \<noteq> i \<longrightarrow> ms' ! k = ?hear k" by blast
  then have "\<forall>k < length as. ani_datagrams_out (ms' ! k) = ani_datagrams_out (ms ! k) @ (if k = j then [d'] else [])"
    using ok(4) by auto
  then show ?thesis using ms'(1,2) d'(2) by blast
qed

text \<open>The transmission in one measure: who sends what to whom, and how many exchanges it still takes.\<close>

fun stage_route :: "stage \<Rightarrow> (nat \<times> nat \<times> IPv4Datagram) option" where
  "stage_route Idle = None"
| "stage_route (Ask i j d) = Some (i, j, d)"
| "stage_route (Answer i j d) = Some (i, j, d)"
| "stage_route (Send i j d) = Some (i, j, d)"

fun stage_rank :: "stage \<Rightarrow> nat" where
  "stage_rank Idle = 0"
| "stage_rank (Ask i j d) = 3"
| "stage_rank (Answer i j d) = 2"
| "stage_rank (Send i j d) = 1"

lemma lan_progress:
  assumes "on_lan as st ms" and "stage_route st = Some (i, j, d)"
  shows "\<exists>ms' st' ds. lan_exchange ms = Inr ms' \<and> on_lan as st' ms' \<and> stage_rank st = Suc (stage_rank st') \<and>
    (\<forall>k < length as. ani_datagrams_out (ms' ! k) = ani_datagrams_out (ms ! k) @ (if k = j then ds else [])) \<and>
    (if st' = Idle then \<exists>d'. ds = [d'] \<and> dgram_same d d' else ds = [] \<and> stage_route st' = Some (i, j, d))"
proof (cases st)
  case (Ask i' j' d')
  then obtain ms' where "lan_exchange ms = Inr ms'" "on_lan as (Answer i j d) ms'"
    "\<forall>k < length as. ani_datagrams_out (ms' ! k) = ani_datagrams_out (ms ! k)"
    using lan_ask [of as i j d ms] assms by auto
  then show ?thesis using Ask assms(2) by (intro exI [of _ ms'] exI [of _ "Answer i j d"] exI [of _ "[]"]) simp
next
  case (Answer i' j' d')
  then obtain ms' where "lan_exchange ms = Inr ms'" "on_lan as (Send i j d) ms'"
    "\<forall>k < length as. ani_datagrams_out (ms' ! k) = ani_datagrams_out (ms ! k)"
    using lan_answer [of as i j d ms] assms by auto
  then show ?thesis using Answer assms(2) by (intro exI [of _ ms'] exI [of _ "Send i j d"] exI [of _ "[]"]) simp
next
  case (Send i' j' d')
  then obtain ms' d' where "lan_exchange ms = Inr ms'" "on_lan as Idle ms'" "dgram_same d d'"
    "\<forall>k < length as. ani_datagrams_out (ms' ! k) = ani_datagrams_out (ms ! k) @ (if k = j then [d'] else [])"
    using lan_send [of as i j d ms] assms by auto
  then show ?thesis using Send assms(2) by (intro exI [of _ ms'] exI [of _ Idle] exI [of _ "[d']"]) simp
qed (use assms(2) in simp)

lemma lan_start:
  assumes "on_lan as Idle ms" and "i < length as" "j < length as" "i \<noteq> j" and "dgram_ok d"
  shows "\<exists>st. stage_route st = Some (i, j, d) \<and>
    on_lan as st (ms[i := (ms ! i)\<lparr>ani_interface := sent (ani_interface (ms ! i)) d (fst (as ! j))\<rparr>])"
proof -
  let ?ni = "ani_interface (ms ! i)"
  note mem = on_lan_member [OF assms(1)]
  have ok: "lan_ok as" "length ms = length as" using assms(1) by (simp_all add: on_lan_def)
  have "idle as ?ni" using mem(1) [OF assms(2)] by (auto simp: member_ok_def ni_frames_same)
  note s = idle_sends [OF this assms(5) lan_lookup [OF ok(1) assms(3)]]
  have "\<exists>st. (st = Ask i j d \<or> st = Send i j d) \<and> member_ok as st i (sent ?ni d (fst (as ! j)))"
    using s mem(5,6) [OF assms(2)] by (auto simp: member_ok_def arp_of_addr)
  then obtain st where st: "st = Ask i j d \<or> st = Send i j d" "member_ok as st i (sent ?ni d (fst (as ! j)))" by blast
  moreover have "member_ok as st k (ani_interface (ms ! k))" if "k < length as" "k \<noteq> i" for k
    using st(1) mem(1) [OF that(1)] that(2) by (auto simp: member_ok_def)
  ultimately show ?thesis
    using ok assms(2-5) by (intro exI [of _ st]) (auto simp: on_lan_def nth_list_update)
qed

end
