(* ===== verification/Network_Delivery.thy ===== *)
theory Network_Delivery
  imports Network_Link "HOL-Library.Multiset"
begin

text \<open>
  How the simulated network of \<^verbatim>\<open>apps/network_simulator.cc\<close> carries one datagram from a host through the router to
  another host: the cables as links with independent stations, the rounds of \<^verbatim>\<open>simulate\<close> while a datagram
  crosses a link, waits at the router and crosses the next link, and the check of what the hosts received.
\<close>

declare map_of_eq_Some_iff [simp del] Some_eq_map_of_iff [simp del]

section \<open>The cables\<close>

text \<open>
  The five links of \<^verbatim>\<open>simulate_physical_connections\<close>: the number of the router's interface and the names of the
  hosts.
\<close>

definition cables :: "(nat \<times> string list) list" where
  "cables = [(0, [''default_router'']), (1, [''applesauce'']), (3, [''cherrypie'']), (5, [''hs_router'']), (4, [''dm42'', ''dm43''])]"

definition host_names :: "string list" where
  "host_names = [''applesauce'', ''default_router'', ''cherrypie'', ''hs_router'', ''dm42'', ''dm43'']"

definition wired :: "network \<Rightarrow> bool" where
  "wired nw \<longleftrightarrow> nw_default_id nw = 0 \<and> nw_eth0_id nw = 1 \<and> nw_eth2_id nw = 3 \<and> nw_hs4_id nw = 5 \<and> nw_uun3_id nw = 4 \<and>
     length (rt_interfaces (nw_router nw)) = 7 \<and> map fst (nw_hosts nw) = host_names \<and> (\<forall>(name, h) \<in> set (nw_hosts nw). h_name h = name)"

definition host_of :: "network \<Rightarrow> string \<Rightarrow> host" where
  "host_of nw name = the (map_of (nw_hosts nw) name)"

definition members :: "network \<Rightarrow> nat \<times> string list \<Rightarrow> async_interface list" where
  "members nw c = rt_interfaces (nw_router nw) ! fst c # map (\<lambda>name. h_interface (host_of nw name)) (snd c)"

definition set_hosts :: "network \<Rightarrow> (string \<times> async_interface) list \<Rightarrow> network" where
  "set_hosts = foldl (\<lambda>nw (name, ai). set_host_interface nw name (host_of nw name) ai)"

definition set_members :: "network \<Rightarrow> nat \<times> string list \<Rightarrow> async_interface list \<Rightarrow> network" where
  "set_members nw c ms = set_hosts (set_interface nw (fst c) (hd ms)) (zip (snd c) (tl ms))"

definition plug :: "network \<Rightarrow> nat \<times> string list \<Rightarrow> network res" where
  "plug nw c = bind_res (lan_exchange (members nw c)) (\<lambda>ms. Inr (set_members nw c ms))"

fun plug_all :: "(nat \<times> string list) list \<Rightarrow> network \<Rightarrow> network res" where
  "plug_all [] nw = Inr nw"
| "plug_all (c # cs) nw = bind_res (plug nw c) (plug_all cs)"

lemma wired_host:
  assumes "wired nw" and "name \<in> set host_names"
  shows "map_of (nw_hosts nw) name = Some (host_of nw name)" "network_host nw name = Inr (host_of nw name)" "h_name (host_of nw name) = name"
proof -
  have "name \<in> fst ` set (nw_hosts nw)" using assms by (metis image_set wired_def)
  then obtain h where h: "map_of (nw_hosts nw) name = Some h" by (metis map_of_eq_None_iff not_None_eq)
  then have "h_name h = name" using assms(1) map_of_SomeD [OF h] by (auto simp: wired_def)
  with h show "map_of (nw_hosts nw) name = Some (host_of nw name)" "network_host nw name = Inr (host_of nw name)"
    "h_name (host_of nw name) = name"
    by (simp_all add: host_of_def network_host_def)
qed

lemma update_same: "map_of al k = Some v \<Longrightarrow> AList.update k v al = al"
  by (induction al) (auto split: if_splits)

lemma keys_update: "k \<in> fst ` set al \<Longrightarrow> map fst (AList.update k v al) = map fst al"
  by (induction al) auto

lemma set_fields [simp]:
  "nw_router (set_host nw name h) = nw_router nw" "host_of (set_interface nw i ai) n = host_of nw n"
  "host_of (set_host nw name h) n = (if n = name then h else host_of nw n)"
  "rt_interfaces (nw_router (set_interface nw i ai)) = (rt_interfaces (nw_router nw))[i := ai]"
  "rt_route_table (nw_router (set_interface nw i ai)) = rt_route_table (nw_router nw)"
  by (simp_all add: set_host_def set_interface_def host_of_def update_conv')

lemma wired_set_interface [simp]: "wired (set_interface nw i ai) \<longleftrightarrow> wired nw"
  by (simp add: wired_def set_interface_def)

lemma set_update_subset: "set (AList.update k v al) \<subseteq> insert (k, v) (set al)"
  by (induction al) auto

lemma wired_set_host:
  assumes "wired nw" and "name \<in> set host_names" and "h_name h = name"
  shows "wired (set_host nw name h)"
proof -
  have "name \<in> fst ` set (nw_hosts nw)" using assms(1,2) by (metis image_set wired_def)
  then have "map fst (nw_hosts (set_host nw name h)) = host_names"
    using assms(1) by (simp add: set_host_def keys_update wired_def)
  moreover have "\<forall>(n, h) \<in> set (nw_hosts (set_host nw name h)). h_name h = n"
    using assms(1,3) set_update_subset [of name h "nw_hosts nw"] unfolding wired_def set_host_def by auto
  ultimately show ?thesis using assms(1) by (simp add: wired_def) (simp add: set_host_def)
qed

lemma set_interface_same: "set_interface nw i (rt_interfaces (nw_router nw) ! i) = nw"
  by (simp add: set_interface_def)

lemma set_host_same: "wired nw \<Longrightarrow> name \<in> set host_names \<Longrightarrow> set_host nw name (host_of nw name) = nw"
  using wired_host(1) [of nw name] by (simp add: set_host_def update_same)

lemma cables_names: "c \<in> set cables \<Longrightarrow> set (snd c) \<subseteq> set host_names \<and> fst c < 7 \<and> distinct (snd c) \<and> (length (snd c) = 1 \<or> length (snd c) = 2)"
  by (auto simp: cables_def host_names_def)

lemma cables_disjoint:
  assumes "c \<in> set cables" and "c' \<in> set cables" and "c \<noteq> c'"
  shows "fst c \<noteq> fst c' \<and> set (snd c) \<inter> set (snd c') = {}"
proof -
  have d: "distinct (map fst cables)" "distinct (map snd cables)" "distinct (concat (map snd cables))" by (simp_all add: cables_def)
  then have "fst c \<noteq> fst c'" "snd c \<noteq> snd c'" using assms by (metis distinct_map inj_on_contraD)+
  moreover have "snd c \<in> set (map snd cables)" "snd c' \<in> set (map snd cables)" using assms(1,2) by simp_all
  ultimately show ?thesis using d(3) unfolding distinct_concat_iff by blast
qed

definition plan :: "network \<Rightarrow> RouteEntry list \<times> (Address \<times> Address \<times> IPv4Datagram list) list" where
  "plan nw = (rt_route_table (nw_router nw),
     map (\<lambda>name. (h_my_address (host_of nw name), h_next_hop (host_of nw name), h_expecting_to_receive (host_of nw name))) host_names)"

lemma set_hosts_effect:
  assumes "wired nw" and "set names \<subseteq> set host_names" and "distinct names" and "length ais = length names"
  shows "wired (set_hosts nw (zip names ais)) \<and> nw_router (set_hosts nw (zip names ais)) = nw_router nw \<and>
    plan (set_hosts nw (zip names ais)) = plan nw \<and>
    map (\<lambda>n. h_interface (host_of (set_hosts nw (zip names ais)) n)) names = ais \<and>
    (\<forall>n. n \<notin> set names \<longrightarrow> host_of (set_hosts nw (zip names ais)) n = host_of nw n)"
  using assms
proof (induction names arbitrary: ais nw)
  case Nil
  then show ?case by (simp add: set_hosts_def)
next
  case (Cons name names)
  then obtain ai ais' where ais: "ais = ai # ais'" by (cases ais) auto
  let ?nw = "set_host_interface nw name (host_of nw name) ai"
  have "wired ?nw" using Cons.prems wired_host(3) [of nw name] unfolding set_host_interface_def by (intro wired_set_host) auto
  moreover have "plan ?nw = plan nw" by (auto simp: plan_def set_host_interface_def)
  moreover have "set_hosts nw (zip (name # names) ais) = set_hosts ?nw (zip names ais')" by (simp add: ais set_hosts_def)
  ultimately show ?case
    using Cons.IH [of ?nw ais'] Cons.prems by (auto simp: ais set_host_interface_def)
qed

lemma set_hosts_same:
  "wired nw \<Longrightarrow> set names \<subseteq> set host_names \<Longrightarrow> set_hosts nw (zip names (map (\<lambda>n. h_interface (host_of nw n)) names)) = nw"
proof (induction names)
  case (Cons name names)
  then show ?case using set_host_same [of nw name] by (simp add: set_hosts_def set_host_interface_def)
qed (simp add: set_hosts_def)

lemma set_members_effect:
  assumes "wired nw" and "c \<in> set cables" and "length ms = Suc (length (snd c))"
  shows "wired (set_members nw c ms)" "plan (set_members nw c ms) = plan nw" "members (set_members nw c ms) c = ms"
    "nw_router (set_members nw c ms) = (nw_router nw)\<lparr>rt_interfaces := (rt_interfaces (nw_router nw))[fst c := hd ms]\<rparr>"
    "c' \<in> set cables \<Longrightarrow> c' \<noteq> c \<Longrightarrow> members (set_members nw c ms) c' = members nw c'"
proof -
  let ?nw = "set_interface nw (fst c) (hd ms)"
  note cn = cables_names [OF assms(2)]
  have "wired ?nw" "plan ?nw = plan nw" using assms(1) by (simp_all add: plan_def)
  then have e: "wired (set_members nw c ms) \<and> nw_router (set_members nw c ms) = nw_router ?nw \<and> plan (set_members nw c ms) = plan nw \<and>
      map (\<lambda>n. h_interface (host_of (set_members nw c ms) n)) (snd c) = tl ms \<and>
      (\<forall>n. n \<notin> set (snd c) \<longrightarrow> host_of (set_members nw c ms) n = host_of ?nw n)"
    using set_hosts_effect [of ?nw "snd c" "tl ms"] cn assms(3) unfolding set_members_def by simp
  show "wired (set_members nw c ms)" "plan (set_members nw c ms) = plan nw"
    "nw_router (set_members nw c ms) = (nw_router nw)\<lparr>rt_interfaces := (rt_interfaces (nw_router nw))[fst c := hd ms]\<rparr>"
    using e by (simp_all add: set_interface_def)
  have len: "length (rt_interfaces (nw_router nw)) = 7" using assms(1) by (simp add: wired_def)
  obtain m ms' where ms: "ms = m # ms'" using assms(3) by (cases ms) auto
  then show "members (set_members nw c ms) c = ms"
    using e len cn by (simp add: members_def)
  show "members (set_members nw c ms) c' = members nw c'" if "c' \<in> set cables" "c' \<noteq> c"
  proof -
    have d: "fst c' \<noteq> fst c" "set (snd c') \<inter> set (snd c) = {}" using cables_disjoint [OF that(1) assms(2) that(2)] by auto
    then have "n \<notin> set (snd c)" if "n \<in> set (snd c')" for n using that by blast
    then show ?thesis using e d(1) by (simp add: members_def)
  qed
qed

lemma set_members_same: "wired nw \<Longrightarrow> c \<in> set cables \<Longrightarrow> set_members nw c (members nw c) = nw"
  using cables_names [of c] by (simp add: set_members_def members_def set_interface_same set_hosts_same)

lemma members_length: "length (members nw c) = Suc (length (snd c))"
  by (simp add: members_def)

lemma lan_exchange_length: "lan_exchange ms = Inr ms' \<Longrightarrow> length ms' = length ms"
  by (auto simp: lan_exchange_def bind_res_Inr_iff split: list.splits)

lemma plug_idle: "wired nw \<Longrightarrow> c \<in> set cables \<Longrightarrow> \<forall>m \<in> set (members nw c). frames_out m = [] \<Longrightarrow> plug nw c = Inr nw"
  by (simp add: plug_def lan_exchange_idle set_members_same)

lemma plug_all_idle:
  "wired nw \<Longrightarrow> set cs \<subseteq> set cables \<Longrightarrow> \<forall>c \<in> set cs. \<forall>m \<in> set (members nw c). frames_out m = [] \<Longrightarrow> plug_all cs nw = Inr nw"
  by (induction cs) (simp_all add: plug_idle)

lemma plug_all_token:
  assumes "wired nw" and "set cs \<subseteq> set cables" and "distinct cs" and "c \<in> set cs" and "lan_exchange (members nw c) = Inr ms"
    and "\<forall>c' \<in> set cs. c' \<noteq> c \<longrightarrow> (\<forall>m \<in> set (members nw c'). frames_out m = [])"
  shows "plug_all cs nw = Inr (set_members nw c ms)"
  using assms
proof (induction cs)
  case (Cons a cs)
  show ?case
  proof (cases "a = c")
    case True
    have c: "c \<in> set cables" "length ms = Suc (length (snd c))"
      using Cons.prems True lan_exchange_length members_length [of nw c] by auto
    note e = set_members_effect [OF Cons.prems(1) c]
    have "members (set_members nw c ms) c' = members nw c'" "c' \<noteq> c" if "c' \<in> set cs" for c'
      using e(5) [of c'] that Cons.prems(2,3) True by auto
    then have "plug_all cs (set_members nw c ms) = Inr (set_members nw c ms)"
      using Cons.prems by (intro plug_all_idle [OF e(1)]) auto
    then show ?thesis using True Cons.prems(5) by (simp add: plug_def)
  next
    case False
    then have "plug nw a = Inr nw" using Cons.prems by (intro plug_idle) auto
    then show ?thesis using Cons False by simp
  qed
qed simp

lemma cable_plug:
  assumes "wired nw"
  shows "(i, [name]) \<in> set cables \<Longrightarrow> cable nw i name = plug nw (i, [name])"
    "(i, [name, name']) \<in> set cables \<Longrightarrow> cable3 nw i name name' = plug nw (i, [name, name'])"
proof -
  have len: "length (rt_interfaces (nw_router nw)) = 7" using assms by (simp add: wired_def)
  { assume c: "(i, [name]) \<in> set cables"
    note cn = cables_names [OF c]
    show "cable nw i name = plug nw (i, [name])"
      using wired_host(2) [OF assms] cn len
      by (cases "exchange_frames (rt_interfaces (nw_router nw) ! i) (h_interface (host_of nw name))")
        (auto simp: cable_def plug_def members_def lan_exchange_def router_interface_def set_members_def set_hosts_def) }
  assume c: "(i, [name, name']) \<in> set cables"
  note cn = cables_names [OF c]
  show "cable3 nw i name name' = plug nw (i, [name, name'])"
    using wired_host(2) [OF assms] cn len
    by (cases "exchange_frames3 (rt_interfaces (nw_router nw) ! i) (h_interface (host_of nw name)) (h_interface (host_of nw name'))")
      (auto simp: cable3_def plug_def members_def lan_exchange_def router_interface_def set_members_def set_hosts_def set_host_interface_def)
qed

lemma plug_wired:
  assumes "wired nw" and "c \<in> set cables" and "plug nw c = Inr nw'"
  shows "wired nw'"
proof -
  obtain ms where ms: "lan_exchange (members nw c) = Inr ms" "nw' = set_members nw c ms" using assms(3) by (auto simp: plug_def bind_res_Inr_iff)
  then have "length ms = Suc (length (snd c))" using lan_exchange_length [OF ms(1)] members_length [of nw c] by simp
  then show ?thesis using set_members_effect(1) [OF assms(1,2)] ms(2) by simp
qed

lemma plug_then:
  assumes "wired nw" and "c \<in> set cables" and "\<And>nw'. wired nw' \<Longrightarrow> f nw' = plug_all cs nw'"
  shows "bind_res (plug nw c) f = plug_all (c # cs) nw"
  using plug_wired [OF assms(1,2)] assms(3) by (cases "plug nw c") simp_all

lemma physical_plug:
  assumes "wired nw"
  shows "simulate_physical_connections nw = plug_all cables nw"
proof -
  have c: "cable nw (nw_default_id nw) ''default_router'' = plug nw (0, [''default_router''])"
    "cable nw (nw_eth0_id nw) ''applesauce'' = plug nw (1, [''applesauce''])"
    "cable nw (nw_eth2_id nw) ''cherrypie'' = plug nw (3, [''cherrypie''])"
    "cable nw (nw_hs4_id nw) ''hs_router'' = plug nw (5, [''hs_router''])"
    "cable3 nw (nw_uun3_id nw) ''dm42'' ''dm43'' = plug nw (4, [''dm42'', ''dm43''])" if "wired nw" for nw
    using that cable_plug [OF that] by (simp_all add: cables_def wired_def)
  have "bind_res x (plug_all []) = x" for x :: "network res" by (cases x) simp_all
  then have 5: "cable3 nw (nw_uun3_id nw) ''dm42'' ''dm43'' = plug_all [(4, [''dm42'', ''dm43''])] nw" if "wired nw" for nw
    using c(5) [OF that] by simp
  have 4: "bind_res (cable nw (nw_hs4_id nw) ''hs_router'') (\<lambda>nw. cable3 nw (nw_uun3_id nw) ''dm42'' ''dm43'') =
      plug_all [(5, [''hs_router'']), (4, [''dm42'', ''dm43''])] nw" if "wired nw" for nw
    unfolding c(4) [OF that] by (rule plug_then [OF that _ 5]) (simp_all add: cables_def)
  have 3: "bind_res (cable nw (nw_eth2_id nw) ''cherrypie'') (\<lambda>nw.
        bind_res (cable nw (nw_hs4_id nw) ''hs_router'') (\<lambda>nw. cable3 nw (nw_uun3_id nw) ''dm42'' ''dm43'')) =
      plug_all [(3, [''cherrypie'']), (5, [''hs_router'']), (4, [''dm42'', ''dm43''])] nw" if "wired nw" for nw
    unfolding c(3) [OF that] by (rule plug_then [OF that _ 4]) (simp_all add: cables_def)
  have 2: "bind_res (cable nw (nw_eth0_id nw) ''applesauce'') (\<lambda>nw. bind_res (cable nw (nw_eth2_id nw) ''cherrypie'') (\<lambda>nw.
        bind_res (cable nw (nw_hs4_id nw) ''hs_router'') (\<lambda>nw. cable3 nw (nw_uun3_id nw) ''dm42'' ''dm43''))) =
      plug_all [(1, [''applesauce'']), (3, [''cherrypie'']), (5, [''hs_router'']), (4, [''dm42'', ''dm43''])] nw" if "wired nw" for nw
    unfolding c(2) [OF that] by (rule plug_then [OF that _ 3]) (simp_all add: cables_def)
  show ?thesis
    unfolding simulate_physical_connections_def c(1) [OF assms] by (subst cables_def, rule plug_then [OF assms _ 2]) (simp_all add: cables_def)
qed

text \<open>Routing when the router has received nothing, or one datagram.\<close>

definition router_quiet :: "router \<Rightarrow> bool" where
  "router_quiet r \<longleftrightarrow> (\<forall>ai \<in> set (rt_interfaces r). ani_datagrams_out ai = [])"

lemma route_quiet:
  assumes "router_ok r" and "router_quiet r"
  shows "route r = Inr r"
proof -
  have q: "concat (map ani_datagrams_out (rt_interfaces r)) = []" using assms(2) by (simp add: router_quiet_def)
  have e: "send_all ni (outgoing table i []) = ni" for ni table i by (simp add: outgoing_def send_all_def List.map_filter_def)
  obtain r' where r': "route r = Inr r'" "rt_route_table r' = rt_route_table r"
    "rt_interfaces r' = map (\<lambda>i. AsyncNetworkInterface (ani_interface (rt_interfaces r ! i))) [0 ..< length (rt_interfaces r)]"
    using route_eq [OF assms(1), unfolded q e] by blast
  have "AsyncNetworkInterface (ani_interface ai) = ai" if "ai \<in> set (rt_interfaces r)" for ai
    using assms(2) that by (cases ai) (auto simp: router_quiet_def AsyncNetworkInterface_def)
  then have "rt_interfaces r' = rt_interfaces r" using r'(3) by (auto intro: nth_equalityI)
  then show ?thesis using r'(1,2) by simp
qed

lemma route_one:
  assumes "router_ok r" and "i < length (rt_interfaces r)" and "ani_datagrams_out (rt_interfaces r ! i) = [d]"
    and "\<And>k. k < length (rt_interfaces r) \<Longrightarrow> k \<noteq> i \<Longrightarrow> ani_datagrams_out (rt_interfaces r ! k) = []"
  shows "\<exists>r'. route r = Inr r' \<and> router_ok r' \<and> router_quiet r' \<and> rt_route_table r' = rt_route_table r \<and>
    length (rt_interfaces r') = length (rt_interfaces r) \<and>
    (\<forall>k < length (rt_interfaces r). ani_interface (rt_interfaces r' ! k) =
       (case forward (rt_route_table r) d of
          Some (n, hop, d') \<Rightarrow> if n = k then sent (ani_interface (rt_interfaces r ! k)) d' hop else ani_interface (rt_interfaces r ! k)
        | None \<Rightarrow> ani_interface (rt_interfaces r ! k)))"
proof -
  have "rt_interfaces r = take i (rt_interfaces r) @ rt_interfaces r ! i # drop (Suc i) (rt_interfaces r)"
    using assms(2) by (simp add: id_take_nth_drop)
  moreover have "\<forall>ai \<in> set (take i (rt_interfaces r)) \<union> set (drop (Suc i) (rt_interfaces r)). ani_datagrams_out ai = []"
    using assms(4) by (auto simp: in_set_conv_nth)
  then have "concat (map ani_datagrams_out (take i (rt_interfaces r))) = []" "concat (map ani_datagrams_out (drop (Suc i) (rt_interfaces r))) = []"
    by simp_all
  ultimately have "concat (map ani_datagrams_out (rt_interfaces r)) = [d]"
    using assms(3) by (metis append_Nil append_Nil2 concat.simps(2) concat_append list.simps(9) map_append)
  then obtain r' where r': "route r = Inr r'" "router_ok r'" "rt_route_table r' = rt_route_table r"
    "rt_interfaces r' = map (\<lambda>k. AsyncNetworkInterface (send_all (ani_interface (rt_interfaces r ! k)) (outgoing (rt_route_table r) k [d])))
      [0 ..< length (rt_interfaces r)]"
    using route_eq [OF assms(1)] by auto
  then show ?thesis
    by (intro exI [of _ r']) (auto simp: router_quiet_def AsyncNetworkInterface_def outgoing_def send_all_def List.map_filter_def split: option.split)
qed

section \<open>One datagram in the network\<close>

text \<open>
  All links are idle but one, which is at some stage of a transmission. \<open>la\<close> gives the addresses on each link.
\<close>

definition net_at :: "(nat \<times> string list \<Rightarrow> link_addresses) \<Rightarrow> network \<Rightarrow> nat \<times> string list \<Rightarrow> stage \<Rightarrow> bool" where
  "net_at la nw c st \<longleftrightarrow> wired nw \<and> router_ok (nw_router nw) \<and>
     (\<forall>c' \<in> set cables. on_lan (la c') (if c' = c then st else Idle) (members nw c'))"

definition received :: "network \<Rightarrow> nat \<times> string list \<Rightarrow> nat \<Rightarrow> IPv4Datagram list" where
  "received nw c k = ani_datagrams_out (members nw c ! k)"

definition unplugged_same :: "network \<Rightarrow> network \<Rightarrow> bool" where
  "unplugged_same nw nw' \<longleftrightarrow> (\<forall>k. k \<notin> fst ` set cables \<longrightarrow> rt_interfaces (nw_router nw') ! k = rt_interfaces (nw_router nw) ! k)"

lemma on_lan_idle: "on_lan as Idle ms \<Longrightarrow> m \<in> set ms \<Longrightarrow> frames_out m = []"
  by (auto simp: on_lan_def member_ok_def in_set_conv_nth)

lemma on_lan_cong: "on_lan as st ms \<Longrightarrow> map ani_interface ms' = map ani_interface ms \<Longrightarrow> on_lan as st ms'"
  unfolding on_lan_def by (metis length_map nth_map)

lemma net_at_lan: "net_at la nw c st \<Longrightarrow> c' \<in> set cables \<Longrightarrow> on_lan (la c') (if c' = c then st else Idle) (members nw c')"
  by (simp add: net_at_def)

lemma net_at_length: "net_at la nw c st \<Longrightarrow> c' \<in> set cables \<Longrightarrow> length (la c') = Suc (length (snd c'))"
  by (auto simp: net_at_def on_lan_def members_length split: if_splits)

lemma members_0 [simp]: "members nw c ! 0 = rt_interfaces (nw_router nw) ! fst c"
  by (simp add: members_def)

lemma router_quiet_iff:
  assumes "wired nw"
  shows "router_quiet (nw_router nw) \<longleftrightarrow>
    (\<forall>c \<in> set cables. received nw c 0 = []) \<and> (\<forall>k < 7. k \<notin> fst ` set cables \<longrightarrow> ani_datagrams_out (rt_interfaces (nw_router nw) ! k) = [])"
proof -
  have "router_quiet (nw_router nw) \<longleftrightarrow> (\<forall>k < 7. ani_datagrams_out (rt_interfaces (nw_router nw) ! k) = [])"
    using assms by (simp add: router_quiet_def all_set_conv_all_nth wired_def)
  moreover have "\<forall>c \<in> set cables. fst c < 7" using cables_names by blast
  ultimately show ?thesis unfolding received_def members_0 by blast
qed

lemma quiet_loop:
  assumes "net_at la nw c Idle" and "router_quiet (nw_router nw)"
  shows "simulate_loop n nw = Inr nw"
proof (induction n)
  case (Suc n)
  have "simulate_physical_connections nw = Inr nw"
    using assms(1) on_lan_idle by (subst physical_plug) (auto simp: net_at_def intro!: plug_all_idle)
  then show ?case using Suc assms route_quiet [of "nw_router nw"] by (simp add: net_at_def)
qed simp

lemma transfer_step:
  assumes "net_at la nw c st" and "c \<in> set cables" and "stage_route st = Some (i, j, d)" and "router_quiet (nw_router nw)"
  shows "\<exists>nw' st' ds. (\<forall>n. simulate_loop (Suc n) nw = simulate_loop n nw') \<and> net_at la nw' c st' \<and> plan nw' = plan nw \<and>
    stage_rank st = Suc (stage_rank st') \<and> unplugged_same nw nw' \<and>
    (\<forall>c' \<in> set cables. \<forall>k < length (la c'). received nw' c' k = received nw c' k @ (if c' = c \<and> k = j then ds else [])) \<and>
    (if st' = Idle then \<exists>d'. ds = [d'] \<and> dgram_same d d' else ds = [] \<and> stage_route st' = Some (i, j, d))"
proof -
  have w: "wired nw" and ok: "router_ok (nw_router nw)" and lan: "on_lan (la c) st (members nw c)"
    using assms(1,2) by (auto simp: net_at_def)
  obtain ms st' ds where ms: "lan_exchange (members nw c) = Inr ms" "on_lan (la c) st' ms" "stage_rank st = Suc (stage_rank st')"
    "\<forall>k < length (la c). ani_datagrams_out (ms ! k) = ani_datagrams_out (members nw c ! k) @ (if k = j then ds else [])"
    "if st' = Idle then \<exists>d'. ds = [d'] \<and> dgram_same d d' else ds = [] \<and> stage_route st' = Some (i, j, d)"
    using lan_progress [OF lan assms(3)] by blast
  have len: "length ms = Suc (length (snd c))" using lan_exchange_length [OF ms(1)] by (simp add: members_length)
  define nw' where "nw' = set_members nw c ms"
  note e = set_members_effect [OF w assms(2) len, folded nw'_def]
  have "plug_all cables nw = Inr nw'"
    unfolding nw'_def
  proof (rule plug_all_token [OF w _ _ assms(2) ms(1)])
    show "distinct cables" by (simp add: cables_def)
    show "\<forall>c' \<in> set cables. c' \<noteq> c \<longrightarrow> (\<forall>m \<in> set (members nw c'). frames_out m = [])"
    proof (intro ballI impI)
      fix c' m assume "c' \<in> set cables" "c' \<noteq> c" "m \<in> set (members nw c')"
      then show "frames_out m = []" using net_at_lan [OF assms(1), of c'] on_lan_idle [of "la c'" "members nw c'" m] by simp
    qed
  qed simp
  then have loop: "simulate_loop (Suc n) nw = simulate_loop n nw'" for n
    using physical_plug [OF w] route_quiet [OF ok assms(4)] by simp
  have rec: "\<forall>c' \<in> set cables. \<forall>k < length (la c'). received nw' c' k = received nw c' k @ (if c' = c \<and> k = j then ds else [])"
  proof (intro ballI allI impI)
    fix c' k assume "c' \<in> set cables" "k < length (la c')"
    then show "received nw' c' k = received nw c' k @ (if c' = c \<and> k = j then ds else [])"
      using ms(4) e(3) e(5) [of c'] by (cases "c' = c") (simp_all add: received_def)
  qed
  have dok: "dgram_ok d" using lan assms(3) by (cases st) (auto simp: on_lan_def)
  have "router_ok (nw_router nw')"
  proof -
    have "ani_datagrams_out (hd ms) = (if 0 = j then ds else [])"
    proof -
      have "ani_datagrams_out (rt_interfaces (nw_router nw) ! fst c) = []"
        using assms(4) w cables_names [OF assms(2)] by (simp add: router_quiet_def wired_def)
      then show ?thesis using ms(4) len net_at_length [OF assms(1,2)] by (cases ms) auto
    qed
    moreover have "\<forall>x \<in> set ds. dgram_ok x" using ms(5) dok dgram_same_ok by (auto split: if_splits)
    moreover have "ni_inv (ani_interface (hd ms))" using on_lan_member(3) [OF ms(2), of 0] len net_at_length [OF assms(1,2)] by (cases ms) auto
    ultimately show ?thesis
      using ok e(4) unfolding router_ok_def by (auto dest!: set_update_subset_insert [THEN subsetD] split: if_splits)
  qed
  moreover have "\<forall>c' \<in> set cables. on_lan (la c') (if c' = c then st' else Idle) (members nw' c')"
  proof
    fix c' assume "c' \<in> set cables"
    then show "on_lan (la c') (if c' = c then st' else Idle) (members nw' c')"
      using net_at_lan [OF assms(1), of c'] ms(2) e(3) e(5) [of c'] by (cases "c' = c") simp_all
  qed
  ultimately have "net_at la nw' c st'" using e(1) by (simp add: net_at_def)
  moreover have "unplugged_same nw nw'"
    unfolding unplugged_same_def
  proof (intro allI impI)
    fix k assume "k \<notin> fst ` set cables"
    then have "fst c \<noteq> k" using assms(2) by blast
    then show "rt_interfaces (nw_router nw') ! k = rt_interfaces (nw_router nw) ! k" using e(4) by simp
  qed
  ultimately show ?thesis using loop e(2) ms(3,5) rec by blast
qed

lemma unplugged_same_trans: "unplugged_same nw nw' \<Longrightarrow> unplugged_same nw' nw'' \<Longrightarrow> unplugged_same nw nw''"
  by (simp add: unplugged_same_def)

lemma transfer:
  assumes "net_at la nw c st" and "c \<in> set cables" and "stage_route st = Some (i, j, d)" and "router_quiet (nw_router nw)"
  shows "\<exists>nw' d'. (\<forall>n. simulate_loop (stage_rank st + n) nw = simulate_loop n nw') \<and> net_at la nw' c Idle \<and> plan nw' = plan nw \<and>
    unplugged_same nw nw' \<and> dgram_same d d' \<and>
    (\<forall>c' \<in> set cables. \<forall>k < length (la c'). received nw' c' k = received nw c' k @ (if c' = c \<and> k = j then [d'] else []))"
  using assms
proof (induction "stage_rank st" arbitrary: nw st rule: less_induct)
  case less
  note len = net_at_length [OF less.prems(1)]
  obtain nw1 st1 ds where 1: "\<forall>n. simulate_loop (Suc n) nw = simulate_loop n nw1" "net_at la nw1 c st1" "plan nw1 = plan nw"
    "stage_rank st = Suc (stage_rank st1)" "unplugged_same nw nw1"
    "\<forall>c' \<in> set cables. \<forall>k < length (la c'). received nw1 c' k = received nw c' k @ (if c' = c \<and> k = j then ds else [])"
    "if st1 = Idle then \<exists>d'. ds = [d'] \<and> dgram_same d d' else ds = [] \<and> stage_route st1 = Some (i, j, d)"
    using transfer_step [OF less.prems] by blast
  show ?case
  proof (cases "st1 = Idle")
    case True
    then obtain d' where d': "ds = [d']" "dgram_same d d'" using 1(7) by auto
    show ?thesis
      using 1(1-6) True d' by (intro exI [of _ nw1] exI [of _ d']) simp
  next
    case False
    then have ds: "ds = []" "stage_route st1 = Some (i, j, d)" using 1(7) by auto
    have same: "received nw1 c' k = received nw c' k" if "c' \<in> set cables" "k < length (la c')" for c' k
      using 1(6) that ds(1) by simp
    have "router_quiet (nw_router nw1)"
    proof -
      have w: "wired nw" "wired nw1" using less.prems(1) 1(2) by (simp_all add: net_at_def)
      have "received nw1 c' 0 = received nw c' 0" if "c' \<in> set cables" for c' using same [OF that] len [OF that] by simp
      then show ?thesis
        using less.prems(4) 1(5) unfolding router_quiet_iff [OF w(1)] router_quiet_iff [OF w(2)] unplugged_same_def by auto
    qed
    then obtain nw' d' where 2: "\<forall>n. simulate_loop (stage_rank st1 + n) nw1 = simulate_loop n nw'" "net_at la nw' c Idle"
      "plan nw' = plan nw1" "unplugged_same nw1 nw'" "dgram_same d d'"
      "\<forall>c' \<in> set cables. \<forall>k < length (la c'). received nw' c' k = received nw1 c' k @ (if c' = c \<and> k = j then [d'] else [])"
      using less.hyps [of st1 nw1] 1(2,4) ds(2) less.prems(2) by auto
    then show ?thesis
      using 1(1,3,4) same unplugged_same_trans [OF 1(5) 2(4)] by (intro exI [of _ nw'] exI [of _ d']) simp
  qed
qed

text \<open>The router passes a datagram on: within the same round it is on its way over the outgoing link.\<close>

lemma forwarding:
  assumes "net_at la nw c Idle" and "c \<in> set cables" and "received nw c 0 = [d]"
    and "\<And>c'. c' \<in> set cables \<Longrightarrow> c' \<noteq> c \<Longrightarrow> received nw c' 0 = []"
    and "\<And>k. k < 7 \<Longrightarrow> k \<notin> fst ` set cables \<Longrightarrow> ani_datagrams_out (rt_interfaces (nw_router nw) ! k) = []"
    and "forward (rt_route_table (nw_router nw)) d = Some (fst c2, fst (la c2 ! j), d2)"
    and "c2 \<in> set cables" and "0 < j" "j < length (la c2)" and "dgram_ok d2"
  shows "\<exists>nw' st. (\<forall>n. simulate_loop (Suc n) nw = simulate_loop (Suc n) nw') \<and> net_at la nw' c2 st \<and> stage_route st = Some (0, j, d2) \<and>
    plan nw' = plan nw \<and> router_quiet (nw_router nw') \<and> nw_hosts nw' = nw_hosts nw"
proof -
  have w: "wired nw" and ok: "router_ok (nw_router nw)" using assms(1) by (auto simp: net_at_def)
  have len: "length (rt_interfaces (nw_router nw)) = 7" using w by (simp add: wired_def)
  have lt: "fst c' < 7" if "c' \<in> set cables" for c' using cables_names [OF that] by simp
  have "ani_datagrams_out (rt_interfaces (nw_router nw) ! k) = []" if "k < 7" "k \<noteq> fst c" for k
    using assms(4,5) that unfolding received_def members_0 by (cases "k \<in> fst ` set cables") auto
  then obtain r where r: "route (nw_router nw) = Inr r" "router_ok r" "router_quiet r" "rt_route_table r = rt_route_table (nw_router nw)"
    "length (rt_interfaces r) = 7"
    "\<forall>k < 7. ani_interface (rt_interfaces r ! k) = (if fst c2 = k then sent (ani_interface (rt_interfaces (nw_router nw) ! k)) d2 (fst (la c2 ! j))
       else ani_interface (rt_interfaces (nw_router nw) ! k))"
    using route_one [OF ok, of "fst c" d] assms(3,6) lt [OF assms(2)] by (auto simp: len received_def)
  let ?nw = "nw\<lparr>nw_router := r\<rparr>"
  have w': "wired ?nw" using w r(5) by (simp add: wired_def)
  have same: "host_of ?nw = host_of nw" by (simp add: host_of_def fun_eq_iff)
  have "plan ?nw = plan nw" by (simp add: plan_def same r(4))
  obtain st where st: "stage_route st = Some (0, j, d2)" "on_lan (la c2) st ((members nw c2)[0 := (members nw c2 ! 0)\<lparr>ani_interface :=
      sent (ani_interface (members nw c2 ! 0)) d2 (fst (la c2 ! j))\<rparr>])"
  proof -
    have "on_lan (la c2) Idle (members nw c2)" using net_at_lan [OF assms(1,7)] by (simp split: if_splits)
    moreover have "0 < length (la c2)" "0 \<noteq> j" using assms(8,9) by auto
    ultimately show ?thesis using lan_start [of "la c2" "members nw c2" 0 j d2] assms(9,10) that by blast
  qed
  have "on_lan (la c') (if c' = c2 then st else Idle) (members ?nw c')" if c': "c' \<in> set cables" for c'
  proof -
    define ms where "ms = (if c' = c2 then (members nw c2)[0 := (members nw c2 ! 0)\<lparr>ani_interface :=
      sent (ani_interface (members nw c2 ! 0)) d2 (fst (la c2 ! j))\<rparr>] else members nw c')"
    have "on_lan (la c') (if c' = c2 then st else Idle) ms"
      using st(2) net_at_lan [OF assms(1) c'] by (auto simp: ms_def split: if_splits)
    moreover have "map ani_interface (members ?nw c') = map ani_interface ms"
      using r(6) lt [OF c'] cables_disjoint [OF c' assms(7)] by (auto simp: ms_def members_def same)
    ultimately show ?thesis by (rule on_lan_cong)
  qed
  then have "net_at la ?nw c2 st" using w' r(2) by (simp add: net_at_def)
  moreover have "simulate_loop (Suc n) nw = simulate_loop (Suc n) ?nw" for n
    using r(1) route_quiet [OF r(2,3)] by simp
  ultimately show ?thesis using st(1) \<open>plan ?nw = plan nw\<close> r(3) by (intro exI [of _ ?nw] exI [of _ st]) simp
qed

lemma dropping:
  assumes "net_at la nw c Idle" and "c \<in> set cables" and "received nw c 0 = [d]"
    and "\<And>c'. c' \<in> set cables \<Longrightarrow> c' \<noteq> c \<Longrightarrow> received nw c' 0 = []"
    and "\<And>k. k < 7 \<Longrightarrow> k \<notin> fst ` set cables \<Longrightarrow> ani_datagrams_out (rt_interfaces (nw_router nw) ! k) = []"
    and "forward (rt_route_table (nw_router nw)) d = None"
  shows "\<exists>nw'. (\<forall>n. simulate_loop (Suc n) nw = simulate_loop (Suc n) nw') \<and> net_at la nw' c Idle \<and>
    plan nw' = plan nw \<and> router_quiet (nw_router nw') \<and> nw_hosts nw' = nw_hosts nw"
proof -
  have w: "wired nw" and ok: "router_ok (nw_router nw)" using assms(1) by (auto simp: net_at_def)
  have len: "length (rt_interfaces (nw_router nw)) = 7" using w by (simp add: wired_def)
  have lt: "fst c' < 7" if "c' \<in> set cables" for c' using cables_names [OF that] by simp
  have "ani_datagrams_out (rt_interfaces (nw_router nw) ! k) = []" if "k < 7" "k \<noteq> fst c" for k
    using assms(4,5) that unfolding received_def members_0 by (cases "k \<in> fst ` set cables") auto
  then obtain r where r: "route (nw_router nw) = Inr r" "router_ok r" "router_quiet r" "rt_route_table r = rt_route_table (nw_router nw)"
    "length (rt_interfaces r) = 7" "\<forall>k < 7. ani_interface (rt_interfaces r ! k) = ani_interface (rt_interfaces (nw_router nw) ! k)"
    using route_one [OF ok, of "fst c" d] assms(3,6) lt [OF assms(2)] by (auto simp: len received_def)
  let ?nw = "nw\<lparr>nw_router := r\<rparr>"
  have same: "host_of ?nw = host_of nw" by (simp add: host_of_def fun_eq_iff)
  have "on_lan (la c') Idle (members ?nw c')" if c': "c' \<in> set cables" for c'
    using net_at_lan [OF assms(1) c'] r(6) lt [OF c'] by (auto simp: members_def same intro: on_lan_cong split: if_splits)
  then have "net_at la ?nw c Idle" using w r(2,5) by (simp add: net_at_def wired_def)
  moreover have "simulate_loop (Suc n) nw = simulate_loop (Suc n) ?nw" for n using r(1) route_quiet [OF r(2,3)] by simp
  ultimately show ?thesis using r(3) by (intro exI [of _ ?nw]) (simp add: plan_def same r(4))
qed

lemma forward_same:
  assumes "dgram_same d d'"
  shows "forward table d = Some (n, hop, d2) \<Longrightarrow> forward table d' = Some (n, hop, decrement_ttl d')" "forward table d = None \<Longrightarrow> forward table d' = None"
  using assms by (auto simp: forward_def dgram_same_def split: if_splits)

lemma decrement_same: "dgram_same d d' \<Longrightarrow> dgram_same (decrement_ttl d) (decrement_ttl d')"
proof -
  assume "dgram_same d d'"
  then obtain c where "ip_header d' = (ip_header d)\<lparr>ih_cksum := c\<rparr>" "concatenate (ip_payload d') = concatenate (ip_payload d)"
    by (auto simp: dgram_same_def)
  then show ?thesis by (cases "ip_header d") (auto simp: dgram_same_def decrement_ttl_def)
qed

lemma stage_rank_le: "stage_rank st \<le> 3" "stage_route st = Some x \<Longrightarrow> 0 < stage_rank st"
  by (cases st; simp)+

definition inboxes_same :: "network \<Rightarrow> network \<Rightarrow> bool" where
  "inboxes_same nw nw' \<longleftrightarrow> (\<forall>name. ani_datagrams_out (h_interface (host_of nw' name)) = ani_datagrams_out (h_interface (host_of nw name)))"

text \<open>From a host over one link to the router.\<close>

lemma to_router:
  assumes "net_at la nw c st" and "c \<in> set cables" and "stage_route st = Some (i, 0, d)" and "router_quiet (nw_router nw)"
  shows "\<exists>nw' d'. (\<forall>n. simulate_loop (stage_rank st + n) nw = simulate_loop n nw') \<and> net_at la nw' c Idle \<and> plan nw' = plan nw \<and> dgram_same d d' \<and>
    received nw' c 0 = [d'] \<and> (\<forall>c' \<in> set cables. c' \<noteq> c \<longrightarrow> received nw' c' 0 = []) \<and>
    (\<forall>k < 7. k \<notin> fst ` set cables \<longrightarrow> ani_datagrams_out (rt_interfaces (nw_router nw') ! k) = []) \<and>
    (\<forall>c' \<in> set cables. \<forall>k < length (la c'). 0 < k \<longrightarrow> received nw' c' k = received nw c' k)"
proof -
  obtain nw' d' where t: "\<forall>n. simulate_loop (stage_rank st + n) nw = simulate_loop n nw'" "net_at la nw' c Idle" "plan nw' = plan nw"
    "unplugged_same nw nw'" "dgram_same d d'"
    "\<forall>c' \<in> set cables. \<forall>k < length (la c'). received nw' c' k = received nw c' k @ (if c' = c \<and> k = 0 then [d'] else [])"
    using transfer [OF assms] by blast
  have w: "wired nw" using assms(1) by (simp add: net_at_def)
  have "received nw' c' 0 = received nw c' 0 @ (if c' = c then [d'] else [])" if "c' \<in> set cables" for c'
    using t(6) net_at_length [OF assms(1) that] that by simp
  moreover have "received nw c' 0 = []" if "c' \<in> set cables" for c' using assms(4) that unfolding router_quiet_iff [OF w] by blast
  moreover have "\<forall>k < 7. k \<notin> fst ` set cables \<longrightarrow> ani_datagrams_out (rt_interfaces (nw_router nw') ! k) = []"
    using assms(4) t(4) unfolding router_quiet_iff [OF w] unplugged_same_def by simp
  ultimately show ?thesis using t assms(2) by (intro exI [of _ nw'] exI [of _ d']) simp
qed

text \<open>A whole run of the loop of \<^verbatim>\<open>simulate\<close>.\<close>

lemma run_delivers:
  assumes "net_at la nw c st" and "c \<in> set cables" and "stage_route st = Some (i, 0, d)" and "router_quiet (nw_router nw)"
    and "forward (rt_route_table (nw_router nw)) d = Some (fst c2, fst (la c2 ! j), d2)"
    and "c2 \<in> set cables" and "0 < j" "j < length (la c2)" and "dgram_ok d"
  shows "\<exists>nw' d'. simulate_loop 256 nw = Inr nw' \<and> net_at la nw' c2 Idle \<and> router_quiet (nw_router nw') \<and> plan nw' = plan nw \<and>
    dgram_same (decrement_ttl d) d' \<and>
    (\<forall>c' \<in> set cables. \<forall>k < length (la c'). 0 < k \<longrightarrow> received nw' c' k = received nw c' k @ (if c' = c2 \<and> k = j then [d'] else []))"
proof -
  obtain nw1 d1 where 1: "\<forall>n. simulate_loop (stage_rank st + n) nw = simulate_loop n nw1" "net_at la nw1 c Idle" "plan nw1 = plan nw" "dgram_same d d1"
    "received nw1 c 0 = [d1]" "\<forall>c' \<in> set cables. c' \<noteq> c \<longrightarrow> received nw1 c' 0 = []"
    "\<forall>k < 7. k \<notin> fst ` set cables \<longrightarrow> ani_datagrams_out (rt_interfaces (nw_router nw1) ! k) = []"
    "\<forall>c' \<in> set cables. \<forall>k < length (la c'). 0 < k \<longrightarrow> received nw1 c' k = received nw c' k"
    using to_router [OF assms(1-4)] by blast
  have dok: "dgram_ok (decrement_ttl d1)" using assms(9) dgram_same_ok [OF 1(4)] by simp
  have "rt_route_table (nw_router nw1) = rt_route_table (nw_router nw)" using 1(3) by (simp add: plan_def)
  then have "forward (rt_route_table (nw_router nw1)) d1 = Some (fst c2, fst (la c2 ! j), decrement_ttl d1)"
    using forward_same(1) [OF 1(4) assms(5)] by simp
  then obtain nw2 st2 where 2: "\<forall>n. simulate_loop (Suc n) nw1 = simulate_loop (Suc n) nw2" "net_at la nw2 c2 st2"
    "stage_route st2 = Some (0, j, decrement_ttl d1)" "plan nw2 = plan nw1" "router_quiet (nw_router nw2)" "nw_hosts nw2 = nw_hosts nw1"
    using forwarding [OF 1(2) assms(2) 1(5) _ _ _ assms(6-8) dok] 1(6,7) by blast
  obtain nw3 d3 where 3: "\<forall>n. simulate_loop (stage_rank st2 + n) nw2 = simulate_loop n nw3" "net_at la nw3 c2 Idle" "plan nw3 = plan nw2"
    "unplugged_same nw2 nw3" "dgram_same (decrement_ttl d1) d3"
    "\<forall>c' \<in> set cables. \<forall>k < length (la c'). received nw3 c' k = received nw2 c' k @ (if c' = c2 \<and> k = j then [d3] else [])"
    using transfer [OF 2(2) assms(6) 2(3,5)] by blast
  have w: "wired nw2" "wired nw3" using 2(2) 3(2) by (simp_all add: net_at_def)
  have "received nw3 c' 0 = received nw2 c' 0" if "c' \<in> set cables" for c' using 3(6) assms(7) net_at_length [OF 2(2) that] that by simp
  then have q: "router_quiet (nw_router nw3)"
    using 2(5) 3(4) unfolding router_quiet_iff [OF w(1)] router_quiet_iff [OF w(2)] unplugged_same_def by auto
  have "received nw2 c' k = received nw1 c' k" if "c' \<in> set cables" "k < length (la c')" "0 < k" for c' k
    using that 2(6) net_at_length [OF 2(2) that(1)] by (cases k) (simp_all add: received_def members_def host_of_def)
  then have rec: "\<forall>c' \<in> set cables. \<forall>k < length (la c'). 0 < k \<longrightarrow> received nw3 c' k = received nw c' k @ (if c' = c2 \<and> k = j then [d3] else [])"
    using 1(8) 3(6) by auto
  have "simulate_loop 256 nw = Inr nw3"
  proof -
    obtain m where m: "256 = stage_rank st + (stage_rank st2 + m)"
      using stage_rank_le(1) [of st] stage_rank_le(1) [of st2] that [of "256 - stage_rank st - stage_rank st2"] by simp
    have "0 < stage_rank st2" using stage_rank_le(2) [OF 2(3)] .
    then have "simulate_loop (stage_rank st2 + m) nw1 = simulate_loop (stage_rank st2 + m) nw2" using 2(1) by (cases "stage_rank st2") simp_all
    then show ?thesis using m 1(1) 3(1) quiet_loop [OF 3(2) q] by (metis (no_types))
  qed
  moreover have "dgram_same (decrement_ttl d) d3" using dw.same_trans [OF decrement_same [OF 1(4)] 3(5)] .
  ultimately show ?thesis using 3(2,3) 2(4) 1(3) q rec by (intro exI [of _ nw3] exI [of _ d3]) simp
qed

lemma run_drops:
  assumes "net_at la nw c st" and "c \<in> set cables" and "stage_route st = Some (i, 0, d)" and "router_quiet (nw_router nw)"
    and "forward (rt_route_table (nw_router nw)) d = None"
  shows "\<exists>nw'. simulate_loop 256 nw = Inr nw' \<and> net_at la nw' c Idle \<and> router_quiet (nw_router nw') \<and> plan nw' = plan nw \<and>
    (\<forall>c' \<in> set cables. \<forall>k < length (la c'). 0 < k \<longrightarrow> received nw' c' k = received nw c' k)"
proof -
  obtain nw1 d1 where 1: "\<forall>n. simulate_loop (stage_rank st + n) nw = simulate_loop n nw1" "net_at la nw1 c Idle" "plan nw1 = plan nw" "dgram_same d d1"
    "received nw1 c 0 = [d1]" "\<forall>c' \<in> set cables. c' \<noteq> c \<longrightarrow> received nw1 c' 0 = []"
    "\<forall>k < 7. k \<notin> fst ` set cables \<longrightarrow> ani_datagrams_out (rt_interfaces (nw_router nw1) ! k) = []"
    "\<forall>c' \<in> set cables. \<forall>k < length (la c'). 0 < k \<longrightarrow> received nw1 c' k = received nw c' k"
    using to_router [OF assms(1-4)] by blast
  have "rt_route_table (nw_router nw1) = rt_route_table (nw_router nw)" using 1(3) by (simp add: plan_def)
  then have "forward (rt_route_table (nw_router nw1)) d1 = None" using forward_same(2) [OF 1(4) assms(5)] by simp
  then obtain nw2 where 2: "\<forall>n. simulate_loop (Suc n) nw1 = simulate_loop (Suc n) nw2" "net_at la nw2 c Idle"
    "plan nw2 = plan nw1" "router_quiet (nw_router nw2)" "nw_hosts nw2 = nw_hosts nw1"
    using dropping [OF 1(2) assms(2) 1(5)] 1(6,7) by blast
  have "received nw2 c' k = received nw1 c' k" if "c' \<in> set cables" "k < length (la c')" "0 < k" for c' k
    using that 2(5) net_at_length [OF 2(2) that(1)] by (cases k) (simp_all add: received_def members_def host_of_def)
  moreover have "simulate_loop 256 nw = Inr nw2"
  proof -
    obtain m where m: "256 = stage_rank st + Suc m"
      using stage_rank_le(1) [of st] that [of "255 - stage_rank st"] by simp
    then show ?thesis using 1(1) 2(1) quiet_loop [OF 2(2,4)] by (metis (no_types))
  qed
  ultimately show ?thesis using 2(2-4) 1(3,8) by (intro exI [of _ nw2]) simp
qed

section \<open>Sending and checking\<close>

lemma serialized_same: "dgram_same d d' \<Longrightarrow> serialized d' = serialized d"
proof -
  assume "dgram_same d d'"
  then obtain c where c: "ip_header d' = (ip_header d)\<lparr>ih_cksum := c\<rparr>" "concatenate (ip_payload d') = concatenate (ip_payload d)"
    by (auto simp: dgram_same_def)
  then show ?thesis
    by (cases "ip_header d") (auto simp: serialized_def ipv4_datagram_serialize_def payload_length_def Let_def bl_size_eq bind_res_def split: sum.split)
qed

lemma serialized_ok: "dgram_ok d \<Longrightarrow> \<exists>bs. serialized d = Inr bs"
  using dw.wire [of d] by (auto simp: serialized_def)

definition host_done :: "host \<Rightarrow> host" where
  "host_done h = h\<lparr>h_interface := (h_interface h)\<lparr>ani_datagrams_out := []\<rparr>, h_expecting_to_receive := []\<rparr>"

lemma host_check_done:
  "ani_datagrams_out (h_interface h) = [] \<Longrightarrow> h_expecting_to_receive h = [] \<Longrightarrow> host_check h = Inr (host_done h)"
  "ani_datagrams_out (h_interface h) = [d'] \<Longrightarrow> h_expecting_to_receive h = [d] \<Longrightarrow> dgram_same d d' \<Longrightarrow> dgram_ok d \<Longrightarrow>
     host_check h = Inr (host_done h)"
  using serialized_same [of d d'] serialized_ok [of d] by (auto simp: host_check_def host_done_def)

lemma check_hosts_done: "\<forall>(name, h) \<in> set hs. host_check h = Inr (host_done h) \<Longrightarrow> check_hosts hs = Inr (map (\<lambda>(name, h). (name, host_done h)) hs)"
  by (induction hs) auto

definition static :: "network \<Rightarrow> RouteEntry list \<times> (Address \<times> Address) list" where
  "static nw = (rt_route_table (nw_router nw), map (\<lambda>name. (h_my_address (host_of nw name), h_next_hop (host_of nw name))) host_names)"

definition ready :: "(nat \<times> string list \<Rightarrow> link_addresses) \<Rightarrow> network \<Rightarrow> bool" where
  "ready la nw \<longleftrightarrow> net_at la nw (0, []) Idle \<and> router_quiet (nw_router nw) \<and>
     (\<forall>name \<in> set host_names. ani_datagrams_out (h_interface (host_of nw name)) = [] \<and> h_expecting_to_receive (host_of nw name) = [])"

lemma net_at_Idle: "net_at la nw c Idle \<longleftrightarrow> net_at la nw c' Idle"
  by (simp add: net_at_def)

lemma static_plan: "plan nw' = plan nw \<Longrightarrow> static nw' = static nw" "plan nw' = plan nw \<Longrightarrow> name \<in> set host_names \<Longrightarrow>
    h_expecting_to_receive (host_of nw' name) = h_expecting_to_receive (host_of nw name)"
  by (auto simp: plan_def static_def)

lemma received_Suc: "k < length (snd c) \<Longrightarrow> received nw c (Suc k) = ani_datagrams_out (h_interface (host_of nw (snd c ! k)))"
  by (simp add: received_def members_def)

lemma names_cabled: "name \<in> set host_names \<Longrightarrow> \<exists>c \<in> set cables. \<exists>k < length (snd c). snd c ! k = name"
proof -
  have "set host_names = set (concat (map snd cables))" by (simp add: host_names_def cables_def insert_commute)
  then show "name \<in> set host_names \<Longrightarrow> \<exists>c \<in> set cables. \<exists>k < length (snd c). snd c ! k = name" by (auto simp: in_set_conv_nth)
qed

lemma wired_entry: "wired nw \<Longrightarrow> (name, h) \<in> set (nw_hosts nw) \<Longrightarrow> name \<in> set host_names \<and> host_of nw name = h"
proof -
  assume w: "wired nw" and h: "(name, h) \<in> set (nw_hosts nw)"
  have "set host_names = fst ` set (nw_hosts nw)" using w by (simp add: wired_def flip: set_map)
  moreover have "distinct (map fst (nw_hosts nw))" using w by (simp add: wired_def host_names_def)
  ultimately show ?thesis using h map_of_is_SomeI [of "nw_hosts nw" name h] by (force simp: host_of_def)
qed

lemma finish:
  assumes "net_at la nw c Idle" and "router_quiet (nw_router nw)"
    and "\<And>name. name \<in> set host_names \<Longrightarrow> host_check (host_of nw name) = Inr (host_done (host_of nw name))"
  shows "\<exists>nw'. bind_res (check_hosts (nw_hosts nw)) (\<lambda>hs. Inr (nw\<lparr>nw_hosts := hs\<rparr>)) = Inr nw' \<and> ready la nw' \<and> static nw' = static nw"
proof -
  have w: "wired nw" using assms(1) by (simp add: net_at_def)
  let ?hs = "map (\<lambda>(name, h). (name, host_done h)) (nw_hosts nw)"
  let ?nw = "nw\<lparr>nw_hosts := ?hs\<rparr>"
  have "host_check h = Inr (host_done h)" if "(name, h) \<in> set (nw_hosts nw)" for name h
    using wired_entry [OF w that] assms(3) by blast
  then have check: "check_hosts (nw_hosts nw) = Inr ?hs" by (intro check_hosts_done) auto
  have ho: "host_of ?nw name = host_done (host_of nw name)" if "name \<in> set host_names" for name
    using wired_host(1) [OF w that] by (cases "map_of (nw_hosts nw) name") (simp_all add: host_of_def map_of_map)
  have "map fst ?hs = map fst (nw_hosts nw)" by (simp add: comp_def case_prod_beta)
  moreover have "\<forall>(name, h) \<in> set ?hs. h_name h = name"
    using w unfolding wired_def by (auto simp: host_done_def)
  ultimately have w': "wired ?nw" using w unfolding wired_def by simp
  have "on_lan (la c') Idle (members ?nw c')" if c': "c' \<in> set cables" for c'
  proof (rule on_lan_cong)
    show "on_lan (la c') Idle (members nw c')" using net_at_lan [OF assms(1) c'] by (simp split: if_splits)
    have "ani_interface (h_interface (host_of ?nw n)) = ani_interface (h_interface (host_of nw n))" if "n \<in> set (snd c')" for n
      using ho [of n] cables_names [OF c'] that by (auto simp: host_done_def)
    then show "map ani_interface (members ?nw c') = map ani_interface (members nw c')" by (simp add: members_def)
  qed
  then have "net_at la ?nw (0, []) Idle" using w' assms(1) by (simp add: net_at_def)
  then have "ready la ?nw" using assms(2) ho by (simp add: ready_def host_done_def)
  moreover have "static ?nw = static nw" using ho by (simp add: static_def host_done_def)
  ultimately show ?thesis using check by simp
qed

lemma members_set_host:
  "name \<notin> set (snd c) \<Longrightarrow> members (set_host nw name h) c = members nw c"
  "h_interface h = h_interface (host_of nw name) \<Longrightarrow> members (set_host nw name h) c = members nw c"
  by (simp_all add: members_def)

lemma members_set_member:
  assumes "distinct (snd c)" and "k < length (snd c)"
  shows "members (set_host nw (snd c ! k) h) c = (members nw c)[Suc k := h_interface h]"
proof -
  have "h_interface (host_of (set_host nw (snd c ! k) h) (snd c ! m)) = (if m = k then h_interface h else h_interface (host_of nw (snd c ! m)))"
    if "m < length (snd c)" for m
    using assms that by (simp add: nth_eq_iff_index_eq)
  then have "map (\<lambda>n. h_interface (host_of (set_host nw (snd c ! k) h) n)) (snd c) = (map (\<lambda>n. h_interface (host_of nw n)) (snd c))[k := h_interface h]"
    by (intro nth_equalityI) (simp_all add: nth_list_update)
  then show ?thesis by (simp add: members_def)
qed

text \<open>The datagram that \<^verbatim>\<open>send_to\<close> builds.\<close>

definition test_datagram :: "u32 \<Rightarrow> u32 \<Rightarrow> u32 \<Rightarrow> u8 \<Rightarrow> IPv4Datagram" where
  "test_datagram src dst x ttl =
     (let payload = BufferList_of_string (string_bytes (''random payload: {'' @ dec (unat x) @ ''}'')) in
      \<lparr>ip_header = IPv4Header0\<lparr>ih_src := src, ih_dst := dst, ih_len := of_nat (20 + bl_size payload), ih_ttl := ttl\<rparr>, ip_payload = payload\<rparr>)"

lemma test_datagram_ok: "dgram_ok (test_datagram src dst x ttl)"
proof -
  let ?s = "string_bytes (''random payload: {'' @ dec (unat x) @ ''}'')"
  have "unat x < 10 ^ 10" using unat_bounds(3) [of x] by simp
  then have l: "length ?s < 100" using to_base_length_le [of 10 "unat x" 10] by (simp add: string_bytes_def)
  then have "unat (of_nat (20 + length ?s) :: u16) = 20 + length ?s" by (subst unat_of_nat) simp
  then show ?thesis
    using l by (simp add: test_datagram_def dgram_ok_def ipv4_header_ok_def IPv4Header0_def Let_def BufferList_of_string_def bl_size_def buf_size_def del: of_nat_add)
qed

lemma test_datagram_header [simp]:
  "ih_dst (ip_header (test_datagram src dst x ttl)) = dst" "ih_ttl (ip_header (test_datagram src dst x ttl)) = ttl"
  by (simp_all add: test_datagram_def Let_def)

lemma send_to_eq:
  assumes "ni_inv (ani_interface (h_interface h))" and "ipv4_numeric (h_my_address h) = Inr src" and "ipv4_numeric destination = Inr dst"
    and "h_next_hop h = inet_address 0 hop"
  shows "send_to rng n h destination ttl = Inr (h\<lparr>h_interface := (h_interface h)\<lparr>ani_interface :=
    sent (ani_interface (h_interface h)) (test_datagram src dst (rng n) ttl) hop\<rparr>\<rparr>, test_datagram src dst (rng n) ttl, n + 1)"
proof -
  have "send_datagram (ani_interface (h_interface h)) (test_datagram src dst (rng n) ttl) (h_next_hop h) =
      Inr (sent (ani_interface (h_interface h)) (test_datagram src dst (rng n) ttl) hop)"
    using assms(1,4) test_datagram_ok by (intro send_datagram_eq) simp_all
  moreover have "test_datagram src dst (rng n) ttl = IPv4Datagram0\<lparr>
      ip_header := IPv4Header0\<lparr>ih_src := src, ih_dst := dst,
        ih_len := of_nat (unat (ih_hlen IPv4Header0) * 4 + bl_size (BufferList_of_string (string_bytes (''random payload: {'' @ dec (unat (rng n)) @ ''}'')))),
        ih_ttl := ttl\<rparr>,
      ip_payload := BufferList_of_string (string_bytes (''random payload: {'' @ dec (unat (rng n)) @ ''}''))\<rparr>"
    by (simp add: test_datagram_def Let_def IPv4Datagram0_def IPv4Header0_def del: of_nat_add)
  ultimately show ?thesis
    using assms(2-4) by (simp add: send_to_def Let_def IPv4Datagram0_def del: of_nat_add)
qed

lemma start_send:
  assumes "ready la nw" and "c \<in> set cables" and "k < length (snd c)" and "dgram_ok d"
  defines "h \<equiv> host_of nw (snd c ! k)"
  defines "nw' \<equiv> set_host nw (snd c ! k) (h\<lparr>h_interface := (h_interface h)\<lparr>ani_interface := sent (ani_interface (h_interface h)) d (fst (la c ! 0))\<rparr>\<rparr>)"
  shows "\<exists>st. net_at la nw' c st \<and> stage_route st = Some (Suc k, 0, d)" and "plan nw' = plan nw" and "nw_router nw' = nw_router nw"
    and "ni_inv (ani_interface (h_interface h))"
    and "ani_datagrams_out (h_interface (host_of nw' n)) = ani_datagrams_out (h_interface (host_of nw n))"
proof -
  have at: "net_at la nw c Idle" using assms(1) net_at_Idle [of la nw c "(0, [])"] by (simp add: ready_def)
  then have w: "wired nw" by (simp add: net_at_def)
  note cn = cables_names [OF assms(2)]
  have name: "snd c ! k \<in> set host_names" using cn assms(3) nth_mem [of k "snd c"] by blast
  have len: "length (la c) = Suc (length (snd c))" by (rule net_at_length [OF at assms(2)])
  have lan: "on_lan (la c) Idle (members nw c)" using net_at_lan [OF at assms(2)] by simp
  have mem: "members nw c ! Suc k = h_interface h" using assms(3) by (simp add: members_def h_def)
  show "ni_inv (ani_interface (h_interface h))" using on_lan_member(3) [OF lan, of "Suc k"] len assms(3) mem by simp
  show "plan nw' = plan nw" by (auto simp: nw'_def plan_def h_def)
  show "nw_router nw' = nw_router nw" by (simp add: nw'_def)
  show "ani_datagrams_out (h_interface (host_of nw' n)) = ani_datagrams_out (h_interface (host_of nw n))" by (simp add: nw'_def h_def)
  have w': "wired nw'" unfolding nw'_def using wired_host(3) [OF w name] by (intro wired_set_host [OF w name]) (simp add: h_def)
  obtain st where st: "stage_route st = Some (Suc k, 0, d)"
    "on_lan (la c) st ((members nw c)[Suc k := (h_interface h)\<lparr>ani_interface := sent (ani_interface (h_interface h)) d (fst (la c ! 0))\<rparr>])"
    using lan_start [OF lan, of "Suc k" 0 d] assms(3,4) len mem by auto
  have "on_lan (la c') (if c' = c then st else Idle) (members nw' c')" if c': "c' \<in> set cables" for c'
  proof (cases "c' = c")
    case True
    then show ?thesis using st(2) members_set_member [of c k nw] cn assms(3) by (simp add: nw'_def)
  next
    case False
    then have "snd c ! k \<notin> set (snd c')" using cables_disjoint [OF c' assms(2)] assms(3) nth_mem [of k "snd c"] by blast
    then show ?thesis using False net_at_lan [OF at c'] members_set_host(1) by (simp add: nw'_def)
  qed
  moreover have "router_ok (nw_router nw')" using at by (simp add: net_at_def nw'_def)
  ultimately have "net_at la nw' c st" using w' unfolding net_at_def by blast
  then show "\<exists>st. net_at la nw' c st \<and> stage_route st = Some (Suc k, 0, d)" using st(1) by blast
qed

lemma expect_keeps:
  assumes "net_at la nw c st" and "name \<in> set host_names"
  shows "net_at la (set_host nw name (host_expect (host_of nw name) d)) c st" "static (set_host nw name (host_expect (host_of nw name) d)) = static nw"
    "received (set_host nw name (host_expect (host_of nw name) d)) c' k = received nw c' k"
proof -
  have w: "wired nw" using assms(1) by (simp add: net_at_def)
  have i: "h_interface (host_expect h d) = h_interface h" "h_name (host_expect h d) = h_name h" for h by (simp_all add: host_expect_def)
  note m = members_set_host(2) [of "host_expect (host_of nw name) d" nw name, OF i(1)]
  show "net_at la (set_host nw name (host_expect (host_of nw name) d)) c st"
    using assms(1) wired_set_host [OF w assms(2), of "host_expect (host_of nw name) d"] wired_host(3) [OF w assms(2)] by (simp add: net_at_def m i)
  show "static (set_host nw name (host_expect (host_of nw name) d)) = static nw" by (auto simp: static_def host_expect_def)
  show "received (set_host nw name (host_expect (host_of nw name) d)) c' k = received nw c' k" by (simp add: received_def m)
qed

lemma inbox_after:
  assumes "net_at la nw' c st" and "m \<in> set host_names" and "c2 \<in> set cables" and "j < length (snd c2)"
    and "\<forall>c' \<in> set cables. \<forall>k < length (la c'). 0 < k \<longrightarrow> received nw' c' k = received nw c' k @ (if c' = c2 \<and> k = Suc j then ds else [])"
  shows "ani_datagrams_out (h_interface (host_of nw' m)) = ani_datagrams_out (h_interface (host_of nw m)) @ (if m = snd c2 ! j then ds else [])"
proof -
  obtain c' i where c': "c' \<in> set cables" "i < length (snd c')" "snd c' ! i = m" using names_cabled [OF assms(2)] by blast
  have "c' = c2 \<and> i = j \<longleftrightarrow> m = snd c2 ! j"
    using c' cables_disjoint [OF c'(1) assms(3)] cables_names [OF assms(3)] assms(4)
    by (metis disjoint_iff nth_eq_iff_index_eq nth_mem)
  then show ?thesis
    using assms(5) c' net_at_length [OF assms(1) c'(1)] received_Suc [OF c'(2), of nw'] received_Suc [OF c'(2), of nw] by auto
qed

lemma transmit_delivers:
  assumes "ready la nw" and "c \<in> set cables" and "k < length (snd c)"
    and "ipv4_numeric (h_my_address (host_of nw (snd c ! k))) = Inr src" and "h_next_hop (host_of nw (snd c ! k)) = inet_address 0 (fst (la c ! 0))"
    and "ipv4_numeric destination = Inr dst" and "1 < ttl"
    and "best_route dst (rt_route_table (nw_router nw)) None = Some e" and "re_interface_num e = fst c2" "hop_address e dst = fst (la c2 ! Suc j)"
    and "c2 \<in> set cables" and "j < length (snd c2)"
  shows "\<exists>nw'. transmit rng (snd c ! k) destination ttl (Some (snd c2 ! j)) (nw, n) = Inr (nw', n + 1) \<and> ready la nw' \<and> static nw' = static nw"
proof -
  let ?s = "snd c ! k" and ?r = "snd c2 ! j"
  define d where "d = test_datagram src dst (rng n) ttl"
  let ?h = "host_of nw ?s"
  define nw1 where "nw1 = set_host nw ?s (?h\<lparr>h_interface := (h_interface ?h)\<lparr>ani_interface := sent (ani_interface (h_interface ?h)) d (fst (la c ! 0))\<rparr>\<rparr>)"
  have dok: "dgram_ok d" unfolding d_def by (rule test_datagram_ok)
  note start = start_send [OF assms(1-3) dok, folded nw1_def]
  have names: "?s \<in> set host_names" "?r \<in> set host_names"
    using cables_names [OF assms(2)] cables_names [OF assms(11)] assms(3,12) nth_mem [of k "snd c"] nth_mem [of j "snd c2"] by blast+
  have w: "wired nw" using assms(1) by (simp add: ready_def net_at_def)
  obtain st where st: "net_at la nw1 c st" "stage_route st = Some (Suc k, 0, d)" using start(1) by blast
  define nw2 where "nw2 = set_host nw1 ?r (host_expect (host_of nw1 ?r) (decrement_ttl d))"
  note ex = expect_keeps [OF st(1) names(2), of "decrement_ttl d", folded nw2_def]
  have "network_host nw1 ?r = Inr (host_of nw1 ?r)" using st(1) wired_host(2) [OF _ names(2)] by (simp add: net_at_def)
  then have tr: "transmit rng ?s destination ttl (Some ?r) (nw, n) = bind_res (simulate nw2) (\<lambda>nw. Inr (nw, n + 1))"
    using wired_host(2) [OF w names(1)] send_to_eq [OF start(4) assms(4,6,5)]
    by (simp add: transmit_def Let_def nw1_def nw2_def d_def decrement_ttl_def)
  have q: "router_quiet (nw_router nw2)" "rt_route_table (nw_router nw2) = rt_route_table (nw_router nw)"
    using assms(1) start(3) by (simp_all add: nw2_def ready_def)
  have "forward (rt_route_table (nw_router nw2)) d = Some (fst c2, fst (la c2 ! Suc j), decrement_ttl d)"
    using assms(7-10) q(2) by (simp add: forward_def d_def)
  then obtain nw3 d' where 3: "simulate_loop 256 nw2 = Inr nw3" "net_at la nw3 c2 Idle" "router_quiet (nw_router nw3)" "plan nw3 = plan nw2"
    "dgram_same (decrement_ttl d) d'"
    "\<forall>c' \<in> set cables. \<forall>k < length (la c'). 0 < k \<longrightarrow> received nw3 c' k = received nw2 c' k @ (if c' = c2 \<and> k = Suc j then [d'] else [])"
    using run_delivers [OF ex(1) assms(2) st(2) q(1) _ assms(11) _ _ dok, of "Suc j"] net_at_length [OF ex(1) assms(11)] assms(12) by auto
  have "host_check (host_of nw3 m) = Inr (host_done (host_of nw3 m))" if m: "m \<in> set host_names" for m
  proof -
    have "ani_datagrams_out (h_interface (host_of nw2 m)) = []"
      using assms(1) m start(5) by (cases "m = ?r") (simp_all add: ready_def nw2_def host_expect_def)
    then have "ani_datagrams_out (h_interface (host_of nw3 m)) = (if m = ?r then [d'] else [])"
      using inbox_after [OF 3(2) m assms(11,12) 3(6)] by simp
    moreover have "h_expecting_to_receive (host_of nw3 m) = (if m = ?r then [decrement_ttl d] else [])"
      using static_plan(2) [OF 3(4) m] static_plan(2) [OF start(2) m] assms(1) m
      by (cases "m = ?r") (simp_all add: nw2_def host_expect_def ready_def)
    ultimately show ?thesis using host_check_done [of "host_of nw3 m"] 3(5) dok by (cases "m = ?r") simp_all
  qed
  from finish [OF 3(2,3) this] obtain nw4 where 4: "bind_res (check_hosts (nw_hosts nw3)) (\<lambda>hs. Inr (nw3\<lparr>nw_hosts := hs\<rparr>)) = Inr nw4"
    "ready la nw4" "static nw4 = static nw3" by blast
  have "simulate nw2 = Inr nw4" using 3(1) 4(1) by (simp add: simulate_def)
  moreover have "static nw4 = static nw" using 4(3) static_plan(1) [OF 3(4)] ex(2) static_plan(1) [OF start(2)] by simp
  ultimately show ?thesis using tr 4(2) by simp
qed

lemma transmit_drops:
  assumes "ready la nw" and "c \<in> set cables" and "k < length (snd c)"
    and "ipv4_numeric (h_my_address (host_of nw (snd c ! k))) = Inr src" and "h_next_hop (host_of nw (snd c ! k)) = inet_address 0 (fst (la c ! 0))"
    and "ipv4_numeric destination = Inr dst" and "ttl \<le> 1"
  shows "\<exists>nw'. transmit rng (snd c ! k) destination ttl None (nw, n) = Inr (nw', n + 1) \<and> ready la nw' \<and> static nw' = static nw"
proof -
  let ?s = "snd c ! k"
  define d where "d = test_datagram src dst (rng n) ttl"
  let ?h = "host_of nw ?s"
  define nw1 where "nw1 = set_host nw ?s (?h\<lparr>h_interface := (h_interface ?h)\<lparr>ani_interface := sent (ani_interface (h_interface ?h)) d (fst (la c ! 0))\<rparr>\<rparr>)"
  have dok: "dgram_ok d" unfolding d_def by (rule test_datagram_ok)
  note start = start_send [OF assms(1-3) dok, folded nw1_def]
  have name: "?s \<in> set host_names" using cables_names [OF assms(2)] assms(3) nth_mem [of k "snd c"] by blast
  have w: "wired nw" using assms(1) by (simp add: ready_def net_at_def)
  obtain st where st: "net_at la nw1 c st" "stage_route st = Some (Suc k, 0, d)" using start(1) by blast
  have tr: "transmit rng ?s destination ttl None (nw, n) = bind_res (simulate nw1) (\<lambda>nw. Inr (nw, n + 1))"
    using wired_host(2) [OF w name] send_to_eq [OF start(4) assms(4,6,5)] by (simp add: transmit_def Let_def nw1_def d_def)
  have "forward (rt_route_table (nw_router nw1)) d = None" using assms(7) by (simp add: forward_def d_def)
  moreover have "router_quiet (nw_router nw1)" using assms(1) start(3) by (simp add: ready_def)
  ultimately obtain nw3 where 3: "simulate_loop 256 nw1 = Inr nw3" "net_at la nw3 c Idle" "router_quiet (nw_router nw3)" "plan nw3 = plan nw1"
    "\<forall>c' \<in> set cables. \<forall>k < length (la c'). 0 < k \<longrightarrow> received nw3 c' k = received nw1 c' k @ (if c' = c \<and> k = Suc 0 then [] else [])"
    using run_drops [OF st(1) assms(2) st(2)] by auto
  have "host_check (host_of nw3 m) = Inr (host_done (host_of nw3 m))" if m: "m \<in> set host_names" for m
  proof (rule host_check_done(1))
    show "ani_datagrams_out (h_interface (host_of nw3 m)) = []"
      using inbox_after [OF 3(2) m assms(2) _ 3(5)] assms(1,3) m start(5) [of m] by (cases "snd c") (simp_all add: ready_def)
    show "h_expecting_to_receive (host_of nw3 m) = []"
      using static_plan(2) [OF 3(4) m] static_plan(2) [OF start(2) m] assms(1) m by (simp add: ready_def)
  qed
  from finish [OF 3(2,3) this] obtain nw4 where 4: "bind_res (check_hosts (nw_hosts nw3)) (\<lambda>hs. Inr (nw3\<lparr>nw_hosts := hs\<rparr>)) = Inr nw4"
    "ready la nw4" "static nw4 = static nw3" by blast
  have "simulate nw1 = Inr nw4" using 3(1) 4(1) by (simp add: simulate_def)
  moreover have "static nw4 = static nw" using 4(3) static_plan(1) [OF 3(4)] static_plan(1) [OF start(2)] by simp
  ultimately show ?thesis using tr 4(2) by simp
qed

section \<open>What the check accepts\<close>

definition dgram_bytes :: "IPv4Datagram \<Rightarrow> byte list" where
  "dgram_bytes d = (case serialized d of Inr bs \<Rightarrow> bs | Inl _ \<Rightarrow> [])"

lemma serialized_bytes: "dgram_ok d \<Longrightarrow> serialized d = Inr (dgram_bytes d)"
  using serialized_ok [of d] by (auto simp: dgram_bytes_def)

lemma expecting_eq: "\<forall>x \<in> set es. dgram_ok x \<Longrightarrow> dgram_ok d \<Longrightarrow> expecting es d = Inr (dgram_bytes d \<in># image_mset dgram_bytes (mset es))"
  by (induction es) (auto simp: serialized_bytes)

lemma remove_expectation_eq:
  "\<forall>x \<in> set es. dgram_ok x \<Longrightarrow> dgram_ok d \<Longrightarrow> dgram_bytes d \<in># image_mset dgram_bytes (mset es) \<Longrightarrow>
     \<exists>es'. remove_expectation es d = Inr es' \<and> set es' \<subseteq> set es \<and>
       image_mset dgram_bytes (mset es) = add_mset (dgram_bytes d) (image_mset dgram_bytes (mset es'))"
proof (induction es)
  case (Cons x es)
  show ?case
  proof (cases "dgram_bytes x = dgram_bytes d")
    case True
    then show ?thesis using Cons.prems by (auto simp: serialized_bytes)
  next
    case False
    then obtain es' where "remove_expectation es d = Inr es'" "set es' \<subseteq> set es"
      "image_mset dgram_bytes (mset es) = add_mset (dgram_bytes d) (image_mset dgram_bytes (mset es'))"
      using Cons by auto
    then show ?thesis using False Cons.prems by (intro exI [of _ "x # es'"]) (auto simp: serialized_bytes)
  qed
qed simp

lemma check_received_eq:
  "\<forall>x \<in> set ds \<union> set es. dgram_ok x \<Longrightarrow>
     if image_mset dgram_bytes (mset ds) \<subseteq># image_mset dgram_bytes (mset es)
     then \<exists>rest. check_received name ds es = Inr rest \<and> set rest \<subseteq> set es \<and>
       image_mset dgram_bytes (mset es) = image_mset dgram_bytes (mset ds) + image_mset dgram_bytes (mset rest)
     else \<exists>d \<in> set ds. check_received name ds es = Inl (unexpected_datagram name d)"
proof (induction ds arbitrary: es)
  case (Cons d ds)
  show ?case
  proof (cases "dgram_bytes d \<in># image_mset dgram_bytes (mset es)")
    case True
    then obtain es' where es': "remove_expectation es d = Inr es'" "set es' \<subseteq> set es"
      "image_mset dgram_bytes (mset es) = add_mset (dgram_bytes d) (image_mset dgram_bytes (mset es'))"
      using remove_expectation_eq [of es d] Cons.prems by auto
    have "check_received name (d # ds) es = check_received name ds es'" using True es'(1) Cons.prems by (simp add: expecting_eq)
    moreover have "\<forall>x \<in> set ds \<union> set es'. dgram_ok x" using Cons.prems es'(2) by auto
    ultimately show ?thesis using Cons.IH [of es'] es'(2,3) by (auto split: if_splits)
  next
    case False
    then have "check_received name (d # ds) es = Inl (unexpected_datagram name d)" using Cons.prems by (simp add: expecting_eq)
    moreover have "\<not> image_mset dgram_bytes (mset (d # ds)) \<subseteq># image_mset dgram_bytes (mset es)"
      using False by (auto dest: mset_subset_eqD)
    ultimately show ?thesis by (simp del: image_mset_add_mset)
  qed
qed simp

section \<open>Properties\<close>



end
