(* ===== verification/Network_Run.thy ===== *)
theory Network_Run
  imports Network_Delivery
begin

text \<open>
  The network that \<^verbatim>\<open>apps/network_simulator.cc\<close> builds, for an arbitrary random generator, and the run of its tests:
  the constructor \<^verbatim>\<open>Network()\<close> gives a network in order, each of the ten transmissions keeps it in order, and so
  the program reports success.
\<close>

declare map_of_eq_Some_iff [simp del] Some_eq_map_of_iff [simp del]

section \<open>The network of the test program\<close>

text \<open>
  The addresses the program names, as the resolver reads their numeric form (\<^verbatim>\<open>Address\<close> asks \<^verbatim>\<open>getaddrinfo\<close> with
  \<^verbatim>\<open>AI_NUMERICHOST\<close>).
\<close>

definition simulator_addresses :: "(string \<times> u32) list" where
  "simulator_addresses =
     [(''0'', 0), (''0.0.0.0'', 0), (''171.67.76.46'', 0xAB434C2E), (''10.0.0.1'', 0x0A000001), (''172.16.0.1'', 0xAC100001),
      (''192.168.0.1'', 0xC0A80001), (''198.178.229.1'', 0xC6B2E501), (''143.195.0.2'', 0x8FC30002), (''128.30.76.255'', 0x801E4CFF),
      (''10.0.0.2'', 0x0A000002), (''171.67.76.1'', 0xAB434C01), (''192.168.0.2'', 0xC0A80002), (''143.195.0.1'', 0x8FC30001),
      (''198.178.229.42'', 0xC6B2E52A), (''198.178.229.43'', 0xC6B2E52B), (''10.0.0.0'', 0x0A000000), (''172.16.0.0'', 0xAC100000),
      (''192.168.0.0'', 0xC0A80000), (''198.178.229.0'', 0xC6B2E500), (''143.195.0.0'', 0x8FC30000), (''143.195.128.0'', 0x8FC38000),
      (''143.195.192.0'', 0x8FC3C000), (''128.30.0.1'', 0x801E0001), (''1.2.3.4'', 0x01020304), (''143.195.131.17'', 0x8FC38311),
      (''143.195.193.52'', 0x8FC3C134), (''143.195.223.255'', 0x8FC3DFFF), (''143.195.224.0'', 0x8FC3E000)]"

definition numeric_resolver :: "resolver \<Rightarrow> bool" where
  "numeric_resolver getaddrinfo \<longleftrightarrow> (\<forall>(str, a) \<in> set simulator_addresses. Address_ip getaddrinfo str 0 = Inr (inet_address 0 a))"

lemma numeric_addresses:
  assumes "numeric_resolver g"
  shows "Address_ip g ''0'' 0 = Inr (inet_address 0 0)" "Address_ip g ''0.0.0.0'' 0 = Inr (inet_address 0 0)"
    "Address_ip g ''171.67.76.46'' 0 = Inr (inet_address 0 0xAB434C2E)" "Address_ip g ''10.0.0.1'' 0 = Inr (inet_address 0 0x0A000001)"
    "Address_ip g ''172.16.0.1'' 0 = Inr (inet_address 0 0xAC100001)" "Address_ip g ''192.168.0.1'' 0 = Inr (inet_address 0 0xC0A80001)"
    "Address_ip g ''198.178.229.1'' 0 = Inr (inet_address 0 0xC6B2E501)" "Address_ip g ''143.195.0.2'' 0 = Inr (inet_address 0 0x8FC30002)"
    "Address_ip g ''128.30.76.255'' 0 = Inr (inet_address 0 0x801E4CFF)" "Address_ip g ''10.0.0.2'' 0 = Inr (inet_address 0 0x0A000002)"
    "Address_ip g ''171.67.76.1'' 0 = Inr (inet_address 0 0xAB434C01)" "Address_ip g ''192.168.0.2'' 0 = Inr (inet_address 0 0xC0A80002)"
    "Address_ip g ''143.195.0.1'' 0 = Inr (inet_address 0 0x8FC30001)" "Address_ip g ''198.178.229.42'' 0 = Inr (inet_address 0 0xC6B2E52A)"
    "Address_ip g ''198.178.229.43'' 0 = Inr (inet_address 0 0xC6B2E52B)" "Address_ip g ''10.0.0.0'' 0 = Inr (inet_address 0 0x0A000000)"
    "Address_ip g ''172.16.0.0'' 0 = Inr (inet_address 0 0xAC100000)" "Address_ip g ''192.168.0.0'' 0 = Inr (inet_address 0 0xC0A80000)"
    "Address_ip g ''198.178.229.0'' 0 = Inr (inet_address 0 0xC6B2E500)" "Address_ip g ''143.195.0.0'' 0 = Inr (inet_address 0 0x8FC30000)"
    "Address_ip g ''143.195.128.0'' 0 = Inr (inet_address 0 0x8FC38000)" "Address_ip g ''143.195.192.0'' 0 = Inr (inet_address 0 0x8FC3C000)"
    "Address_ip g ''128.30.0.1'' 0 = Inr (inet_address 0 0x801E0001)" "Address_ip g ''1.2.3.4'' 0 = Inr (inet_address 0 0x01020304)"
    "Address_ip g ''143.195.131.17'' 0 = Inr (inet_address 0 0x8FC38311)" "Address_ip g ''143.195.193.52'' 0 = Inr (inet_address 0 0x8FC3C134)"
    "Address_ip g ''143.195.223.255'' 0 = Inr (inet_address 0 0x8FC3DFFF)" "Address_ip g ''143.195.224.0'' 0 = Inr (inet_address 0 0x8FC3E000)"
  using assms unfolding numeric_resolver_def simulator_addresses_def by (simp_all only: list.set ball_simps prod.case)

definition fresh_interface :: "EthernetAddress \<Rightarrow> u32 \<Rightarrow> async_interface" where
  "fresh_interface eth a =
     \<lparr>ani_interface = \<lparr>ni_ethernet_address = eth, ni_ip_address = inet_address 0 a, ni_frames_out = [], ni_arp_table = [],
        ni_arp_request_time = [], ni_arp_wait_ipdata = []\<rparr>, ani_datagrams_out = []\<rparr>"

definition fresh_host :: "string \<Rightarrow> EthernetAddress \<Rightarrow> u32 \<Rightarrow> u32 \<Rightarrow> string \<times> host" where
  "fresh_host name eth a hop =
     (name, \<lparr>h_name = name, h_my_address = inet_address 0 a, h_interface = fresh_interface eth a, h_next_hop = inet_address 0 hop,
             h_expecting_to_receive = []\<rparr>)"

abbreviation router_eth :: "generator \<Rightarrow> nat \<Rightarrow> EthernetAddress" where
  "router_eth rng n \<equiv> fst (random_router_ethernet_address rng n)"

abbreviation host_eth :: "generator \<Rightarrow> nat \<Rightarrow> EthernetAddress" where
  "host_eth rng n \<equiv> fst (random_host_ethernet_address rng n)"

abbreviation route_entry :: "u32 \<Rightarrow> u8 \<Rightarrow> Address option \<Rightarrow> nat \<Rightarrow> RouteEntry" where
  "route_entry p l h i \<equiv> \<lparr>re_route_prefix = p, re_prefix_length = l, re_next_hop = h, re_interface_num = i\<rparr>"

definition simulator_table :: "RouteEntry list" where
  "simulator_table =
     [route_entry 0xC0A80000 24 None 3, route_entry 0xC6B2E500 24 None 4,
      route_entry 0x8FC3C000 19 (Some (inet_address 0 0x8FC30001)) 5, route_entry 0x8FC38000 18 (Some (inet_address 0 0x8FC30001)) 5,
      route_entry 0x8FC30000 17 (Some (inet_address 0 0x8FC30001)) 5,
      route_entry 0x801E4CFF 16 (Some (inet_address 0 0x801E0001)) 6, route_entry 0xAC100000 16 None 2,
      route_entry 0x0A000000 8 None 1, route_entry 0 0 (Some (inet_address 0 0xAB434C01)) 0]"

definition simulator_interfaces :: "generator \<Rightarrow> async_interface list" where
  "simulator_interfaces rng =
     [fresh_interface (router_eth rng 0) 0xAB434C2E, fresh_interface (router_eth rng 6) 0x0A000001,
      fresh_interface (router_eth rng 12) 0xAC100001, fresh_interface (router_eth rng 18) 0xC0A80001,
      fresh_interface (router_eth rng 24) 0xC6B2E501, fresh_interface (router_eth rng 30) 0x8FC30002,
      fresh_interface (router_eth rng 36) 0x801E4CFF]"

definition simulator_hosts :: "generator \<Rightarrow> (string \<times> host) list" where
  "simulator_hosts rng =
     [fresh_host ''applesauce'' (host_eth rng 42) 0x0A000002 0x0A000001, fresh_host ''default_router'' (host_eth rng 48) 0xAB434C01 0,
      fresh_host ''cherrypie'' (host_eth rng 54) 0xC0A80002 0xC0A80001, fresh_host ''hs_router'' (host_eth rng 60) 0x8FC30001 0,
      fresh_host ''dm42'' (host_eth rng 66) 0xC6B2E52A 0xC6B2E501, fresh_host ''dm43'' (host_eth rng 72) 0xC6B2E52B 0xC6B2E501]"

definition simulator_network :: "generator \<Rightarrow> network" where
  "simulator_network rng =
     \<lparr>nw_router = \<lparr>rt_interfaces = simulator_interfaces rng, rt_route_table = simulator_table\<rparr>, nw_default_id = 0, nw_eth0_id = 1,
      nw_eth1_id = 2, nw_eth2_id = 3, nw_uun3_id = 4, nw_hs4_id = 5, nw_mit5_id = 6, nw_hosts = simulator_hosts rng\<rparr>"

lemma new_interface_eq:
  "Address_ip g str 0 = Inr (inet_address 0 a) \<Longrightarrow> length (rt_interfaces r) < 2 ^ 63 \<Longrightarrow>
     new_interface g rng str (r, n) =
       Inr ((r\<lparr>rt_interfaces := rt_interfaces r @ [fresh_interface (router_eth rng n) a]\<rparr>, n + 6), length (rt_interfaces r))"
  by (simp add: new_interface_def random_router_ethernet_address_def Let_def NetworkInterface_eq AsyncNetworkInterface_def fresh_interface_def
      add_interface_def sub64_exact)

lemma insert_host_eq:
  "Address_ip g ip 0 = Inr (inet_address 0 a) \<Longrightarrow> Address_ip g hop 0 = Inr (inet_address 0 b) \<Longrightarrow>
     insert_host g rng name ip hop (hs, n) = Inr (map_insert name (snd (fresh_host name (host_eth rng n) a b)) hs, n + 6)"
  by (simp add: insert_host_def Host_def random_host_ethernet_address_def Let_def NetworkInterface_eq AsyncNetworkInterface_def fresh_interface_def
      fresh_host_def)

lemma route_to_eq:
  "Address_ip g str 0 = Inr (inet_address 0 p) \<Longrightarrow> hop = None \<or> hop = Some (inet_address 0 a) \<Longrightarrow>
     route_to g str len hop i r = Inr (r\<lparr>rt_route_table := route_insert (route_entry p len hop i) (rt_route_table r)\<rparr>)"
  by (auto simp: route_to_def simulator_ip_def add_route_def)

lemma simulator_table_built:
  "route_insert (route_entry 0x801E4CFF 16 (Some (inet_address 0 0x801E0001)) 6)
    (route_insert (route_entry 0x8FC3C000 19 (Some (inet_address 0 0x8FC30001)) 5)
    (route_insert (route_entry 0x8FC38000 18 (Some (inet_address 0 0x8FC30001)) 5)
    (route_insert (route_entry 0x8FC30000 17 (Some (inet_address 0 0x8FC30001)) 5)
    (route_insert (route_entry 0xC6B2E500 24 None 4) (route_insert (route_entry 0xC0A80000 24 None 3)
    (route_insert (route_entry 0xAC100000 16 None 2) (route_insert (route_entry 0x0A000000 8 None 1)
    [route_entry 0 0 (Some (inet_address 0 0xAB434C01)) 0]))))))) = simulator_table"
  by (simp add: simulator_table_def route_less_def)

lemma simulator_hosts_built:
  "map_insert ''dm43'' h6 (map_insert ''dm42'' h5 (map_insert ''hs_router'' h4 (map_insert ''cherrypie'' h3
    (map_insert ''default_router'' h2 (map_insert ''applesauce'' h1 []))))) =
    [(''applesauce'', h1), (''default_router'', h2), (''cherrypie'', h3), (''hs_router'', h4), (''dm42'', h5), (''dm43'', h6)]"
  by (simp add: map_insert_def)

lemma simulator_router_built:
  assumes "numeric_resolver g"
  shows "new_interface g rng ''171.67.76.46'' (Router0, 0) = Inr ((Router0\<lparr>rt_interfaces := take 1 (simulator_interfaces rng)\<rparr>, 6), 0)"
    "new_interface g rng ''10.0.0.1'' (Router0\<lparr>rt_interfaces := take 1 (simulator_interfaces rng)\<rparr>, 6) =
       Inr ((Router0\<lparr>rt_interfaces := take 2 (simulator_interfaces rng)\<rparr>, 12), 1)"
    "new_interface g rng ''172.16.0.1'' (Router0\<lparr>rt_interfaces := take 2 (simulator_interfaces rng)\<rparr>, 12) =
       Inr ((Router0\<lparr>rt_interfaces := take 3 (simulator_interfaces rng)\<rparr>, 18), 2)"
    "new_interface g rng ''192.168.0.1'' (Router0\<lparr>rt_interfaces := take 3 (simulator_interfaces rng)\<rparr>, 18) =
       Inr ((Router0\<lparr>rt_interfaces := take 4 (simulator_interfaces rng)\<rparr>, 24), 3)"
    "new_interface g rng ''198.178.229.1'' (Router0\<lparr>rt_interfaces := take 4 (simulator_interfaces rng)\<rparr>, 24) =
       Inr ((Router0\<lparr>rt_interfaces := take 5 (simulator_interfaces rng)\<rparr>, 30), 4)"
    "new_interface g rng ''143.195.0.2'' (Router0\<lparr>rt_interfaces := take 5 (simulator_interfaces rng)\<rparr>, 30) =
       Inr ((Router0\<lparr>rt_interfaces := take 6 (simulator_interfaces rng)\<rparr>, 36), 5)"
    "new_interface g rng ''128.30.76.255'' (Router0\<lparr>rt_interfaces := take 6 (simulator_interfaces rng)\<rparr>, 36) =
       Inr ((Router0\<lparr>rt_interfaces := simulator_interfaces rng\<rparr>, 42), 6)"
  by (simp_all add: Router0_def simulator_interfaces_def new_interface_eq [OF numeric_addresses(3) [OF assms]]
      new_interface_eq [OF numeric_addresses(4) [OF assms]] new_interface_eq [OF numeric_addresses(5) [OF assms]]
      new_interface_eq [OF numeric_addresses(6) [OF assms]] new_interface_eq [OF numeric_addresses(7) [OF assms]]
      new_interface_eq [OF numeric_addresses(8) [OF assms]] new_interface_eq [OF numeric_addresses(9) [OF assms]])

lemma simulator_network_hosts:
  "map_of (simulator_hosts rng) ''default_router'' = Some (snd (fresh_host ''default_router'' (host_eth rng 48) 0xAB434C01 0))"
  "map_of (simulator_hosts rng) ''hs_router'' = Some (snd (fresh_host ''hs_router'' (host_eth rng 60) 0x8FC30001 0))"
  "h_name (snd (fresh_host name eth a hop)) = name" "h_my_address (snd (fresh_host name eth a hop)) = inet_address 0 a"
  by (simp_all add: simulator_hosts_def fresh_host_def)

lemma fresh_host_pair: "fresh_host name eth a hop = (name, snd (fresh_host name eth a hop))"
  by (simp add: fresh_host_def)

lemma Network_eq:
  assumes "numeric_resolver g"
  shows "Network g rng 0 = Inr (simulator_network rng, 78)"
proof -
  note ip = numeric_addresses [OF assms]
  note hosts = insert_host_eq [OF ip(10,4)] insert_host_eq [OF ip(11,1)] insert_host_eq [OF ip(12,6)] insert_host_eq [OF ip(13,1)]
    insert_host_eq [OF ip(14,7)] insert_host_eq [OF ip(15,7)]
  note routes = route_to_eq [OF ip(2)] route_to_eq [OF ip(16)] route_to_eq [OF ip(17)] route_to_eq [OF ip(18)] route_to_eq [OF ip(19)]
    route_to_eq [OF ip(20)] route_to_eq [OF ip(21)] route_to_eq [OF ip(22)] route_to_eq [OF ip(9)]
  have hs: "[(''applesauce'', snd (fresh_host ''applesauce'' (host_eth rng 42) 0x0A000002 0x0A000001)),
      (''default_router'', snd (fresh_host ''default_router'' (host_eth rng 48) 0xAB434C01 0)),
      (''cherrypie'', snd (fresh_host ''cherrypie'' (host_eth rng 54) 0xC0A80002 0xC0A80001)),
      (''hs_router'', snd (fresh_host ''hs_router'' (host_eth rng 60) 0x8FC30001 0)),
      (''dm42'', snd (fresh_host ''dm42'' (host_eth rng 66) 0xC6B2E52A 0xC6B2E501)),
      (''dm43'', snd (fresh_host ''dm43'' (host_eth rng 72) 0xC6B2E52B 0xC6B2E501))] = simulator_hosts rng"
    by (simp add: simulator_hosts_def fresh_host_pair [symmetric])
  show ?thesis
    unfolding Network_def simulator_router_built [OF assms] bind_res_simps prod.case hosts arith_simps fst_conv snd_conv simulator_hosts_built
    by (simp add: hs network_host_def simulator_network_hosts routes ip(23) simulator_table_built [unfolded One_nat_def] simulator_network_def Router0_def Let_def
        del: route_insert.simps(2))
qed

lemma random_ethernet_address:
  "length (router_eth rng n) = 6" "length (host_eth rng n) = 6" "router_eth rng n \<noteq> ETHERNET_BROADCAST" "host_eth rng n \<noteq> ETHERNET_BROADCAST"
proof -
  have l: "length (random_bytes rng n) = 6" by (simp add: random_bytes_def)
  have b: "ETHERNET_BROADCAST ! 0 = 0xff" by (simp add: ETHERNET_BROADCAST_def)
  show "length (router_eth rng n) = 6" "length (host_eth rng n) = 6"
    by (simp_all add: random_router_ethernet_address_def random_host_ethernet_address_def Let_def l)
  have "router_eth rng n ! 0 = 2" by (simp add: random_router_ethernet_address_def Let_def l)
  then show "router_eth rng n \<noteq> ETHERNET_BROADCAST" using b by force
  have "x AND 0xfe \<noteq> 0xff" for x :: byte
  proof
    assume "x AND 0xfe = 0xff"
    then have "bit (x AND 0xfe) 0 = bit (0xff :: byte) 0" by simp
    then show False by (simp add: bit_and_iff)
  qed
  moreover have "host_eth rng n ! 0 = (random_bytes rng n ! 0 OR 0x02) AND 0xfe" by (simp add: random_host_ethernet_address_def Let_def l)
  ultimately show "host_eth rng n \<noteq> ETHERNET_BROADCAST" using b by metis
qed

lemma fresh_interface_fields:
  "ni_addr (ani_interface (fresh_interface eth a)) = (a, eth)" "ni_frames_out (ani_interface (fresh_interface eth a)) = []"
  "ani_datagrams_out (fresh_interface eth a) = []"
  by (simp_all add: fresh_interface_def ni_addr_def ni_ip_def)

lemma fresh_interface_idle:
  assumes "length eth = 6"
  shows "ni_inv (ani_interface (fresh_interface eth a))" "idle as (ani_interface (fresh_interface eth a))"
proof -
  show "ni_inv (ani_interface (fresh_interface eth a))" using assms by (simp add: fresh_interface_def ni_inv_def ni_ip_def)
  then show "idle as (ani_interface (fresh_interface eth a))" by (simp add: idle_def station_def) (simp add: fresh_interface_def)
qed

definition simulator_lans :: "generator \<Rightarrow> nat \<times> string list \<Rightarrow> link_addresses" where
  "simulator_lans rng c = map (\<lambda>m. ni_addr (ani_interface m)) (members (simulator_network rng) c)"

lemma fresh_on_lan:
  assumes "lan_ok (map (\<lambda>m. ni_addr (ani_interface m)) ms)" and "\<forall>m \<in> set ms. (\<exists>as. idle as (ani_interface m)) \<and> ni_arp_table (ani_interface m) = []"
  shows "on_lan (map (\<lambda>m. ni_addr (ani_interface m)) ms) Idle ms"
proof -
  have "member_ok as Idle k (ani_interface (ms ! k))" if k: "k < length ms" "as ! k = ni_addr (ani_interface (ms ! k))" for k as
  proof -
    obtain as' where "idle as' (ani_interface (ms ! k))" "ni_arp_table (ani_interface (ms ! k)) = []" using assms(2) nth_mem [OF k(1)] by blast
    then have "idle as (ani_interface (ms ! k))" by (simp add: idle_def station_def)
    then show ?thesis using k(2) by (simp add: member_ok_def ni_frames_same) (simp add: idle_def)
  qed
  then show ?thesis using assms(1) by (simp add: on_lan_def)
qed

lemma fresh_lan:
  assumes "length e = 6" "length f = 6" "e \<noteq> ETHERNET_BROADCAST" "f \<noteq> ETHERNET_BROADCAST" "a \<noteq> b"
  shows "on_lan (map (\<lambda>m. ni_addr (ani_interface m)) [fresh_interface e a, fresh_interface f b]) Idle [fresh_interface e a, fresh_interface f b]"
    "length g = 6 \<Longrightarrow> g \<noteq> ETHERNET_BROADCAST \<Longrightarrow> x \<noteq> a \<Longrightarrow> x \<noteq> b \<Longrightarrow> distinct [e, f, g] \<Longrightarrow>
       on_lan (map (\<lambda>m. ni_addr (ani_interface m)) [fresh_interface e a, fresh_interface f b, fresh_interface g x]) Idle
         [fresh_interface e a, fresh_interface f b, fresh_interface g x]"
proof -
  have fresh: "(\<exists>as. idle as (ani_interface (fresh_interface e a))) \<and> ni_arp_table (ani_interface (fresh_interface e a)) = []" if "length e = 6" for e a
    using fresh_interface_idle(2) [OF that] by (auto simp: fresh_interface_def)
  show "on_lan (map (\<lambda>m. ni_addr (ani_interface m)) [fresh_interface e a, fresh_interface f b]) Idle [fresh_interface e a, fresh_interface f b]"
    by (rule fresh_on_lan) (use assms fresh in \<open>simp_all add: lan_ok_def fresh_interface_fields\<close>)
  assume "length g = 6" "g \<noteq> ETHERNET_BROADCAST" "x \<noteq> a" "x \<noteq> b" "distinct [e, f, g]"
  then show "on_lan (map (\<lambda>m. ni_addr (ani_interface m)) [fresh_interface e a, fresh_interface f b, fresh_interface g x]) Idle
      [fresh_interface e a, fresh_interface f b, fresh_interface g x]"
    by (intro fresh_on_lan) (use assms fresh in \<open>auto simp: lan_ok_def fresh_interface_fields\<close>)
qed

lemma simulator_members:
  "members (simulator_network rng) (0, [''default_router'']) = [fresh_interface (router_eth rng 0) 0xAB434C2E, fresh_interface (host_eth rng 48) 0xAB434C01]"
  "members (simulator_network rng) (1, [''applesauce'']) = [fresh_interface (router_eth rng 6) 0x0A000001, fresh_interface (host_eth rng 42) 0x0A000002]"
  "members (simulator_network rng) (3, [''cherrypie'']) = [fresh_interface (router_eth rng 18) 0xC0A80001, fresh_interface (host_eth rng 54) 0xC0A80002]"
  "members (simulator_network rng) (5, [''hs_router'']) = [fresh_interface (router_eth rng 30) 0x8FC30002, fresh_interface (host_eth rng 60) 0x8FC30001]"
  "members (simulator_network rng) (4, [''dm42'', ''dm43'']) =
     [fresh_interface (router_eth rng 24) 0xC6B2E501, fresh_interface (host_eth rng 66) 0xC6B2E52A, fresh_interface (host_eth rng 72) 0xC6B2E52B]"
  by (simp_all add: members_def simulator_network_def simulator_interfaces_def host_of_def simulator_hosts_def fresh_host_def)

lemma simulator_lan_ok:
  assumes "distinct [router_eth rng 24, host_eth rng 66, host_eth rng 72]" and "c \<in> set cables"
  shows "on_lan (simulator_lans rng c) Idle (members (simulator_network rng) c)"
proof -
  note addr = random_ethernet_address(1,2,3,4)
  have lan: "on_lan (map (\<lambda>m. ni_addr (ani_interface m)) [fresh_interface (router_eth rng n) a, fresh_interface (host_eth rng m) b]) Idle
      [fresh_interface (router_eth rng n) a, fresh_interface (host_eth rng m) b]" if "a \<noteq> b" for n m a b
    by (rule fresh_lan(1) [OF addr(1,2,3,4) that])
  have lan3: "on_lan (map (\<lambda>m. ni_addr (ani_interface m)) [fresh_interface (router_eth rng 24) a, fresh_interface (host_eth rng 66) b, fresh_interface (host_eth rng 72) x]) Idle
      [fresh_interface (router_eth rng 24) a, fresh_interface (host_eth rng 66) b, fresh_interface (host_eth rng 72) x]" if "a \<noteq> b" "x \<noteq> a" "x \<noteq> b" for a b x
    by (rule fresh_lan(2) [OF addr(1,2,3,4) that(1) addr(2,4) that(2,3) assms(1)])
  have "c = (0, [''default_router'']) \<or> c = (1, [''applesauce'']) \<or> c = (3, [''cherrypie'']) \<or> c = (5, [''hs_router'']) \<or> c = (4, [''dm42'', ''dm43''])"
    using assms(2) unfolding cables_def by (simp only: list.set insert_iff empty_iff simp_thms)
  then show ?thesis
  proof (elim disjE)
    assume c: "c = (0, [''default_router''])"
    show ?thesis unfolding simulator_lans_def c simulator_members by (rule lan) simp
  next
    assume c: "c = (1, [''applesauce''])"
    show ?thesis unfolding simulator_lans_def c simulator_members by (rule lan) simp
  next
    assume c: "c = (3, [''cherrypie''])"
    show ?thesis unfolding simulator_lans_def c simulator_members by (rule lan) simp
  next
    assume c: "c = (5, [''hs_router''])"
    show ?thesis unfolding simulator_lans_def c simulator_members by (rule lan) simp
  next
    assume c: "c = (4, [''dm42'', ''dm43''])"
    show ?thesis unfolding simulator_lans_def c simulator_members by (rule lan3) simp_all
  qed
qed

lemma simulator_ready:
  assumes "distinct [router_eth rng 24, host_eth rng 66, host_eth rng 72]"
  shows "ready (simulator_lans rng) (simulator_network rng)"
proof -
  let ?nw = "simulator_network rng"
  have "wired ?nw" by (simp add: wired_def simulator_network_def simulator_interfaces_def simulator_hosts_def fresh_host_def host_names_def)
  moreover have "router_ok (nw_router ?nw)"
    using random_ethernet_address(1)
    by (simp add: router_ok_def simulator_network_def simulator_interfaces_def fresh_interface_idle(1) fresh_interface_fields)
      (simp add: simulator_table_def route_ok_def)
  moreover have "router_quiet (nw_router ?nw)" by (simp add: router_quiet_def simulator_network_def simulator_interfaces_def fresh_interface_fields)
  moreover have "\<forall>name \<in> set host_names. ani_datagrams_out (h_interface (host_of ?nw name)) = [] \<and> h_expecting_to_receive (host_of ?nw name) = []"
    by (simp add: host_names_def host_of_def simulator_network_def simulator_hosts_def fresh_host_def fresh_interface_fields)
  ultimately show ?thesis using simulator_lan_ok [OF assms] by (simp add: ready_def net_at_def)
qed

lemma simulator_routes:
  "best_route 0xC0A80002 simulator_table None = Some (route_entry 0xC0A80000 24 None 3)"
  "best_route 0x0A000002 simulator_table None = Some (route_entry 0x0A000000 8 None 1)"
  "best_route 0xC6B2E52B simulator_table None = Some (route_entry 0xC6B2E500 24 None 4)"
  "best_route 0x01020304 simulator_table None = Some (route_entry 0 0 (Some (inet_address 0 0xAB434C01)) 0)"
  "best_route 0x8FC38311 simulator_table None = Some (route_entry 0x8FC38000 18 (Some (inet_address 0 0x8FC30001)) 5)"
  "best_route 0x8FC3C134 simulator_table None = Some (route_entry 0x8FC3C000 19 (Some (inet_address 0 0x8FC30001)) 5)"
  "best_route 0x8FC3DFFF simulator_table None = Some (route_entry 0x8FC3C000 19 (Some (inet_address 0 0x8FC30001)) 5)"
  "best_route 0x8FC3E000 simulator_table None = Some (route_entry 0 0 (Some (inet_address 0 0xAB434C01)) 0)"
  by (simp_all add: simulator_table_def route_mask_def Let_def mask_eq_exp_minus_1)

lemma ready_hosts:
  assumes "ready la nw"
  shows "\<forall>(name, h) \<in> set (nw_hosts nw). ani_datagrams_out (h_interface h) = [] \<and> h_expecting_to_receive h = []"
proof -
  have "wired nw" using assms by (simp add: ready_def net_at_def)
  then show ?thesis using assms wired_entry [of nw] unfolding ready_def by blast
qed

text \<open>The network between two transmissions of the program.\<close>

definition simulator_ok :: "generator \<Rightarrow> network \<times> nat \<Rightarrow> bool" where
  "simulator_ok rng nwn \<longleftrightarrow> ready (simulator_lans rng) (fst nwn) \<and> static (fst nwn) = static (simulator_network rng)"

lemma simulator_static:
  assumes "static nw = static (simulator_network rng)"
  shows "rt_route_table (nw_router nw) = simulator_table"
    "h_my_address (host_of nw ''applesauce'') = inet_address 0 0x0A000002" "h_next_hop (host_of nw ''applesauce'') = inet_address 0 0x0A000001"
    "h_my_address (host_of nw ''cherrypie'') = inet_address 0 0xC0A80002" "h_next_hop (host_of nw ''cherrypie'') = inet_address 0 0xC0A80001"
    "h_my_address (host_of nw ''dm42'') = inet_address 0 0xC6B2E52A" "h_next_hop (host_of nw ''dm42'') = inet_address 0 0xC6B2E501"
    "h_my_address (host_of nw ''dm43'') = inet_address 0 0xC6B2E52B"
proof -
  have n: "static (simulator_network rng) = (simulator_table,
      [(inet_address 0 0x0A000002, inet_address 0 0x0A000001), (inet_address 0 0xAB434C01, inet_address 0 0),
       (inet_address 0 0xC0A80002, inet_address 0 0xC0A80001), (inet_address 0 0x8FC30001, inet_address 0 0),
       (inet_address 0 0xC6B2E52A, inet_address 0 0xC6B2E501), (inet_address 0 0xC6B2E52B, inet_address 0 0xC6B2E501)])"
    by (simp add: static_def simulator_network_def host_of_def simulator_hosts_def fresh_host_def host_names_def)
  show "rt_route_table (nw_router nw) = simulator_table"
    "h_my_address (host_of nw ''applesauce'') = inet_address 0 0x0A000002" "h_next_hop (host_of nw ''applesauce'') = inet_address 0 0x0A000001"
    "h_my_address (host_of nw ''cherrypie'') = inet_address 0 0xC0A80002" "h_next_hop (host_of nw ''cherrypie'') = inet_address 0 0xC0A80001"
    "h_my_address (host_of nw ''dm42'') = inet_address 0 0xC6B2E52A" "h_next_hop (host_of nw ''dm42'') = inet_address 0 0xC6B2E501"
    "h_my_address (host_of nw ''dm43'') = inet_address 0 0xC6B2E52B"
    using assms unfolding n by (simp_all add: static_def host_names_def)
qed

lemma simulator_ips:
  "map fst (simulator_lans rng (0, [''default_router''])) = [0xAB434C2E, 0xAB434C01]"
  "map fst (simulator_lans rng (1, [''applesauce''])) = [0x0A000001, 0x0A000002]"
  "map fst (simulator_lans rng (3, [''cherrypie''])) = [0xC0A80001, 0xC0A80002]"
  "map fst (simulator_lans rng (5, [''hs_router''])) = [0x8FC30002, 0x8FC30001]"
  "map fst (simulator_lans rng (4, [''dm42'', ''dm43''])) = [0xC6B2E501, 0xC6B2E52A, 0xC6B2E52B]"
  unfolding simulator_lans_def simulator_members by (simp_all add: fresh_interface_fields)

lemma fst_lan: "map fst (simulator_lans rng c) = ips \<Longrightarrow> k < length ips \<Longrightarrow> fst (simulator_lans rng c ! k) = ips ! k"
  by (metis length_map nth_map)

lemma simulator_transmit:
  assumes "simulator_ok rng nwn" and "(i, [sender]) \<in> set cables \<or> (i, [sender, other]) \<in> set cables"
    and "h_my_address (host_of (fst nwn) sender) = inet_address 0 src" and "h_next_hop (host_of (fst nwn) sender) = inet_address 0 hop"
    and "hop = fst (simulator_lans rng (if (i, [sender]) \<in> set cables then (i, [sender]) else (i, [sender, other])) ! 0)"
  shows "1 < ttl \<Longrightarrow> best_route dst simulator_table None = Some e \<Longrightarrow> re_interface_num e = fst c2 \<Longrightarrow>
      hop_address e dst = fst (simulator_lans rng c2 ! Suc j) \<Longrightarrow> c2 \<in> set cables \<Longrightarrow> j < length (snd c2) \<Longrightarrow>
      \<exists>nwn'. transmit rng sender (inet_address 0 dst) ttl (Some (snd c2 ! j)) nwn = Inr nwn' \<and> simulator_ok rng nwn'"
    and "ttl \<le> 1 \<Longrightarrow> \<exists>nwn'. transmit rng sender (inet_address 0 dst) ttl None nwn = Inr nwn' \<and> simulator_ok rng nwn'"
proof -
  define c where "c = (if (i, [sender]) \<in> set cables then (i, [sender]) else (i, [sender, other]))"
  have c: "c \<in> set cables" "0 < length (snd c)" "snd c ! 0 = sender" using assms(2) by (auto simp: c_def)
  have r: "ready (simulator_lans rng) (fst nwn)" and s: "static (fst nwn) = static (simulator_network rng)"
    using assms(1) by (simp_all add: simulator_ok_def)
  have hop: "h_next_hop (host_of (fst nwn) (snd c ! 0)) = inet_address 0 (fst (simulator_lans rng c ! 0))"
    using assms(4,5) c(3) by (simp add: c_def)
  have src: "ipv4_numeric (h_my_address (host_of (fst nwn) (snd c ! 0))) = Inr src" using assms(3) c(3) by simp
  note dst = ipv4_numeric_inet [of 0 dst]
  obtain nw n where nwn: "nwn = (nw, n)" by (cases nwn)
  { assume a: "1 < ttl" "best_route dst simulator_table None = Some e" "re_interface_num e = fst c2"
      "hop_address e dst = fst (simulator_lans rng c2 ! Suc j)" "c2 \<in> set cables" "j < length (snd c2)"
    then have "best_route dst (rt_route_table (nw_router (fst nwn))) None = Some e" using simulator_static(1) [OF s] by simp
    from transmit_delivers [OF r c(1,2) src hop dst a(1) this a(3-6), of rng n]
    show "\<exists>nwn'. transmit rng sender (inet_address 0 dst) ttl (Some (snd c2 ! j)) nwn = Inr nwn' \<and> simulator_ok rng nwn'"
      using c(3) nwn s by (auto simp: simulator_ok_def) }
  assume "ttl \<le> 1"
  from transmit_drops [OF r c(1,2) src hop dst this, of rng n]
  show "\<exists>nwn'. transmit rng sender (inet_address 0 dst) ttl None nwn = Inr nwn' \<and> simulator_ok rng nwn'"
    using c(3) nwn s by (auto simp: simulator_ok_def)
qed

lemma cables_in [simp]:
  "(0, [''default_router'']) \<in> set cables" "(1, [''applesauce'']) \<in> set cables" "(3, [''cherrypie'']) \<in> set cables" "(5, [''hs_router'']) \<in> set cables"
  "(4, [''dm42'', ''dm43'']) \<in> set cables" "(4, [''dm42'']) \<notin> set cables"
  by (simp_all add: cables_def)

lemma simulator_senders:
  assumes "simulator_ok rng nwn" and "1 < ttl" and "best_route dst simulator_table None = Some e" and "re_interface_num e = fst c2"
    and "hop_address e dst = fst (simulator_lans rng c2 ! Suc j)" and "c2 \<in> set cables" and "j < length (snd c2)"
  shows "\<exists>nwn'. transmit rng ''applesauce'' (inet_address 0 dst) ttl (Some (snd c2 ! j)) nwn = Inr nwn' \<and> simulator_ok rng nwn'"
    "\<exists>nwn'. transmit rng ''cherrypie'' (inet_address 0 dst) ttl (Some (snd c2 ! j)) nwn = Inr nwn' \<and> simulator_ok rng nwn'"
    "\<exists>nwn'. transmit rng ''dm42'' (inet_address 0 dst) ttl (Some (snd c2 ! j)) nwn = Inr nwn' \<and> simulator_ok rng nwn'"
proof -
  have s: "static (fst nwn) = static (simulator_network rng)" using assms(1) by (simp add: simulator_ok_def)
  note st = simulator_static [OF s]
  show "\<exists>nwn'. transmit rng ''applesauce'' (inet_address 0 dst) ttl (Some (snd c2 ! j)) nwn = Inr nwn' \<and> simulator_ok rng nwn'"
    by (rule simulator_transmit(1) [OF assms(1) _ st(2,3) _ assms(2-7), of 1 "''''"]) (simp_all add: fst_lan [OF simulator_ips(2)] del: One_nat_def)
  show "\<exists>nwn'. transmit rng ''cherrypie'' (inet_address 0 dst) ttl (Some (snd c2 ! j)) nwn = Inr nwn' \<and> simulator_ok rng nwn'"
    by (rule simulator_transmit(1) [OF assms(1) _ st(4,5) _ assms(2-7), of 3 "''''"]) (simp_all add: fst_lan [OF simulator_ips(3)])
  show "\<exists>nwn'. transmit rng ''dm42'' (inet_address 0 dst) ttl (Some (snd c2 ! j)) nwn = Inr nwn' \<and> simulator_ok rng nwn'"
    by (rule simulator_transmit(1) [OF assms(1) _ st(6,7) _ assms(2-7), of 4 "''dm43''"]) (simp_all add: fst_lan [OF simulator_ips(5)])
qed

lemma simulator_transmissions:
  assumes "numeric_resolver g" and "simulator_ok rng nwn"
  shows "\<exists>nwn'. transmit_host rng ''applesauce'' ''cherrypie'' nwn = Inr nwn' \<and> simulator_ok rng nwn'"
    "\<exists>nwn'. transmit_host rng ''cherrypie'' ''applesauce'' nwn = Inr nwn' \<and> simulator_ok rng nwn'"
    "\<exists>nwn'. transmit_host rng ''dm42'' ''dm43'' nwn = Inr nwn' \<and> simulator_ok rng nwn'"
    "\<exists>nwn'. transmit_ip g rng ''applesauce'' ''1.2.3.4'' 64 (Some ''default_router'') nwn = Inr nwn' \<and> simulator_ok rng nwn'"
    "\<exists>nwn'. transmit_ip g rng ''applesauce'' ''143.195.131.17'' 64 (Some ''hs_router'') nwn = Inr nwn' \<and> simulator_ok rng nwn'"
    "\<exists>nwn'. transmit_ip g rng ''cherrypie'' ''143.195.193.52'' 64 (Some ''hs_router'') nwn = Inr nwn' \<and> simulator_ok rng nwn'"
    "\<exists>nwn'. transmit_ip g rng ''cherrypie'' ''143.195.223.255'' 64 (Some ''hs_router'') nwn = Inr nwn' \<and> simulator_ok rng nwn'"
    "\<exists>nwn'. transmit_ip g rng ''cherrypie'' ''143.195.224.0'' 64 (Some ''default_router'') nwn = Inr nwn' \<and> simulator_ok rng nwn'"
    "ttl \<le> 1 \<Longrightarrow> \<exists>nwn'. transmit_ip g rng ''applesauce'' ''1.2.3.4'' ttl None nwn = Inr nwn' \<and> simulator_ok rng nwn'"
proof -
  have s: "static (fst nwn) = static (simulator_network rng)" and w: "wired (fst nwn)"
    using assms(2) by (auto simp: simulator_ok_def ready_def net_at_def)
  note st = simulator_static [OF s] and ip = numeric_addresses [OF assms(1)]
  have nh: "network_host (fst nwn) ''applesauce'' = Inr (host_of (fst nwn) ''applesauce'')"
    "network_host (fst nwn) ''cherrypie'' = Inr (host_of (fst nwn) ''cherrypie'')" "network_host (fst nwn) ''dm43'' = Inr (host_of (fst nwn) ''dm43'')"
    using wired_host(2) [OF w] by (simp_all add: host_names_def)
  note send = simulator_senders [OF assms(2), of 64]
  note lan = fst_lan [OF simulator_ips(1)] fst_lan [OF simulator_ips(2)] fst_lan [OF simulator_ips(3)] fst_lan [OF simulator_ips(4)] fst_lan [OF simulator_ips(5)]
  show "\<exists>nwn'. transmit_host rng ''applesauce'' ''cherrypie'' nwn = Inr nwn' \<and> simulator_ok rng nwn'"
    using send(1) [OF _ simulator_routes(1), of "(3, [''cherrypie''])" 0] by (simp add: transmit_host_def nh st hop_address_def lan)
  show "\<exists>nwn'. transmit_host rng ''cherrypie'' ''applesauce'' nwn = Inr nwn' \<and> simulator_ok rng nwn'"
    using send(2) [OF _ simulator_routes(2), of "(1, [''applesauce''])" 0] by (simp add: transmit_host_def nh st hop_address_def lan [unfolded One_nat_def] cables_in [unfolded One_nat_def])
  show "\<exists>nwn'. transmit_host rng ''dm42'' ''dm43'' nwn = Inr nwn' \<and> simulator_ok rng nwn'"
    using send(3) [OF _ simulator_routes(3), of "(4, [''dm42'', ''dm43''])" 1] by (simp add: transmit_host_def nh st hop_address_def lan)
  show "\<exists>nwn'. transmit_ip g rng ''applesauce'' ''1.2.3.4'' 64 (Some ''default_router'') nwn = Inr nwn' \<and> simulator_ok rng nwn'"
    using send(1) [OF _ simulator_routes(4), of "(0, [''default_router''])" 0] by (simp add: transmit_ip_def ip hop_address_def lan)
  show "\<exists>nwn'. transmit_ip g rng ''applesauce'' ''143.195.131.17'' 64 (Some ''hs_router'') nwn = Inr nwn' \<and> simulator_ok rng nwn'"
    using send(1) [OF _ simulator_routes(5), of "(5, [''hs_router''])" 0] by (simp add: transmit_ip_def ip hop_address_def lan)
  show "\<exists>nwn'. transmit_ip g rng ''cherrypie'' ''143.195.193.52'' 64 (Some ''hs_router'') nwn = Inr nwn' \<and> simulator_ok rng nwn'"
    using send(2) [OF _ simulator_routes(6), of "(5, [''hs_router''])" 0] by (simp add: transmit_ip_def ip hop_address_def lan)
  show "\<exists>nwn'. transmit_ip g rng ''cherrypie'' ''143.195.223.255'' 64 (Some ''hs_router'') nwn = Inr nwn' \<and> simulator_ok rng nwn'"
    using send(2) [OF _ simulator_routes(7), of "(5, [''hs_router''])" 0] by (simp add: transmit_ip_def ip hop_address_def lan)
  show "\<exists>nwn'. transmit_ip g rng ''cherrypie'' ''143.195.224.0'' 64 (Some ''default_router'') nwn = Inr nwn' \<and> simulator_ok rng nwn'"
    using send(2) [OF _ simulator_routes(8), of "(0, [''default_router''])" 0] by (simp add: transmit_ip_def ip hop_address_def lan)
  assume ttl: "ttl \<le> 1"
  have "\<exists>nwn'. transmit rng ''applesauce'' (inet_address 0 0x01020304) ttl None nwn = Inr nwn' \<and> simulator_ok rng nwn'"
    by (rule simulator_transmit(2) [OF assms(2) _ st(2,3) _ ttl, of 1 "''''"]) (simp_all add: lan del: One_nat_def)
  then show "\<exists>nwn'. transmit_ip g rng ''applesauce'' ''1.2.3.4'' ttl None nwn = Inr nwn' \<and> simulator_ok rng nwn'"
    by (simp add: transmit_ip_def ip)
qed

section \<open>Properties\<close>


definition table_resolver :: resolver where
  "table_resolver node service hints = (case map_of simulator_addresses node of Some a \<Rightarrow> Inr [sockaddr_in 0 a] | None \<Rightarrow> Inl (- 2))"

lemma table_resolver_numeric: "numeric_resolver table_resolver"
proof -
  have "distinct (map fst simulator_addresses)" by (simp add: simulator_addresses_def)
  then have "map_of simulator_addresses str = Some a" if "(str, a) \<in> set simulator_addresses" for str a using that by (rule map_of_is_SomeI)
  then show ?thesis by (auto simp: numeric_resolver_def Address_ip_def Address_resolve_def table_resolver_def)
qed


end
