(* ===== verification/File_Descriptor.thy ===== *)
theory File_Descriptor
  imports Buffers Formatting
begin

unbundle bit_operations_syntax

text \<open>
  \<^verbatim>\<open>libsponge/util/file_descriptor.{hh,cc}\<close>, the system-call wrapper of \<^verbatim>\<open>util.cc\<close> and \<^verbatim>\<open>Socket::shutdown\<close> with
  the datagram calls of \<^verbatim>\<open>socket.cc\<close>. The operating system is a parameter: a \<open>kernel\<close> has one function per system
  call, from the calls answered so far and the arguments to the answer, so that it may answer in any way.
  \<open>os\<close> is the state of the program that the wrappers share: the log of the answered calls and the table of
  the \<^verbatim>\<open>FDWrapper\<close>s. A \<^verbatim>\<open>FileDescriptor\<close> is a shared pointer to one of them, here its number in the table, so
  that \<^verbatim>\<open>duplicate\<close> is the identity.
\<close>

section \<open>Definitions\<close>

text \<open>\<^verbatim>\<open>SystemCall\<close> returns an \<^verbatim>\<open>int\<close>, so that a count it returns has 31 bits. An error is the value of \<^verbatim>\<open>errno\<close>.\<close>

type_synonym count = "31 word"

datatype sys_event =
    Ev_read int "byte list"
  | Ev_write int "byte list"
  | Ev_call string int int
  | Ev_poll "u16 list"
  | Ev_failed string int
  | Ev_recv int "byte list"
  | Ev_send int "byte list"

record pollfd =
  pfd_fd :: int
  pfd_events :: u16
  pfd_revents :: u16

text \<open>
  The calls: \<^verbatim>\<open>read\<close> with a descriptor and a limit, \<^verbatim>\<open>writev\<close> with the bytes of its vectors, \<^verbatim>\<open>poll\<close>, which
  returns a number and what it stores into each \<^verbatim>\<open>revents\<close>, \<^verbatim>\<open>recvfrom\<close> with the size of the buffer, which
  returns the full length of the datagram, its bytes and the sender, \<^verbatim>\<open>sendmsg\<close>, and a call with one integer
  argument (\<^verbatim>\<open>close\<close>, \<^verbatim>\<open>shutdown\<close>, \<^verbatim>\<open>fcntl\<close>).
\<close>

record 'addr kernel =
  k_read :: "sys_event list \<Rightarrow> int \<Rightarrow> u64 \<Rightarrow> int + byte list"
  k_writev :: "sys_event list \<Rightarrow> int \<Rightarrow> byte list \<Rightarrow> int + count"
  k_poll :: "sys_event list \<Rightarrow> pollfd list \<Rightarrow> int \<Rightarrow> int + (count \<times> (nat \<Rightarrow> u16))"
  k_recvfrom :: "sys_event list \<Rightarrow> int \<Rightarrow> u64 \<Rightarrow> int + (count \<times> byte list \<times> 'addr)"
  k_sendmsg :: "sys_event list \<Rightarrow> int \<Rightarrow> 'addr option \<Rightarrow> byte list \<Rightarrow> int + count"
  k_call :: "sys_event list \<Rightarrow> string \<Rightarrow> int \<Rightarrow> int \<Rightarrow> int + int"

record FDWrapper =
  fdw_fd :: int
  fdw_eof :: bool
  fdw_closed :: bool
  fdw_read_count :: u32
  fdw_write_count :: u32

record os =
  os_events :: "sys_event list"
  os_fds :: "nat \<Rightarrow> FDWrapper"
  os_next :: nat

definition log_event :: "os \<Rightarrow> sys_event \<Rightarrow> os" where
  "log_event os e = os\<lparr>os_events := os_events os @ [e]\<rparr>"

definition unix_error :: "string \<Rightarrow> int \<Rightarrow> exn" where
  "unix_error attempt error = Tagged_error attempt error"

text \<open>The error mask is 0 in every call of the sources, and 0 is no error.\<close>

definition SystemCall :: "string \<Rightarrow> int + 'a \<Rightarrow> 'a res" where
  "SystemCall attempt return_value = (case return_value of Inr r \<Rightarrow> Inr r | Inl e \<Rightarrow> Inl (unix_error attempt e))"

definition to_string_int :: "int \<Rightarrow> string" where
  "to_string_int i = (if i < 0 then ''-'' @ dec (nat (- i)) else dec (nat i))"

definition FDWrapper0 :: "int \<Rightarrow> FDWrapper res" where
  "FDWrapper0 fd =
     (if fd < 0 then Inl (Runtime_error (''invalid fd number:'' @ to_string_int fd))
      else Inr \<lparr>fdw_fd = fd, fdw_eof = False, fdw_closed = False, fdw_read_count = 0, fdw_write_count = 0\<rparr>)"

definition FileDescriptor :: "os \<Rightarrow> int \<Rightarrow> (os \<times> nat) res" where
  "FileDescriptor os fd =
     bind_res (FDWrapper0 fd) (\<lambda>w. Inr (os\<lparr>os_fds := (os_fds os)(os_next os := w), os_next := Suc (os_next os)\<rparr>, os_next os))"

subsection \<open>Accessors\<close>

definition duplicate :: "nat \<Rightarrow> nat" where
  "duplicate h = h"

definition fd_num :: "os \<Rightarrow> nat \<Rightarrow> int" where
  "fd_num os h = fdw_fd (os_fds os h)"

definition fd_eof :: "os \<Rightarrow> nat \<Rightarrow> bool" where
  "fd_eof os h = fdw_eof (os_fds os h)"

definition fd_closed :: "os \<Rightarrow> nat \<Rightarrow> bool" where
  "fd_closed os h = fdw_closed (os_fds os h)"

definition read_count :: "os \<Rightarrow> nat \<Rightarrow> u32" where
  "read_count os h = fdw_read_count (os_fds os h)"

definition write_count :: "os \<Rightarrow> nat \<Rightarrow> u32" where
  "write_count os h = fdw_write_count (os_fds os h)"

definition set_fd :: "os \<Rightarrow> nat \<Rightarrow> (FDWrapper \<Rightarrow> FDWrapper) \<Rightarrow> os" where
  "set_fd os h f = os\<lparr>os_fds := (os_fds os)(h := f (os_fds os h))\<rparr>"

definition register_read :: "os \<Rightarrow> nat \<Rightarrow> os" where
  "register_read os h = set_fd os h (\<lambda>w. w\<lparr>fdw_read_count := fdw_read_count w + 1\<rparr>)"

definition register_write :: "os \<Rightarrow> nat \<Rightarrow> os" where
  "register_write os h = set_fd os h (\<lambda>w. w\<lparr>fdw_write_count := fdw_write_count w + 1\<rparr>)"

subsection \<open>Reading and writing\<close>

definition BUFFER_SIZE :: u64 where
  "BUFFER_SIZE = 1024 * 1024"

definition fd_read :: "'addr kernel \<Rightarrow> os \<Rightarrow> nat \<Rightarrow> u64 \<Rightarrow> (os \<times> byte list) res" where
  "fd_read K os h limit =
     (let size_to_read = min BUFFER_SIZE limit in
      bind_res (SystemCall ''read'' (k_read K (os_events os) (fd_num os h) size_to_read)) (\<lambda>str.
      let os = log_event os (Ev_read (fd_num os h) str);
          os = (if 0 < limit \<and> str = [] then set_fd os h (\<lambda>w. w\<lparr>fdw_eof := True\<rparr>) else os)
      in
      if size_to_read < length str then Inl (Runtime_error ''read() read more than requested'')
      else Inr (register_read os h, str)))"

text \<open>The vectors that \<^verbatim>\<open>writev\<close> gets: a pointer and a length stand for the bytes there.\<close>

definition as_iovecs :: "buffer_view_list \<Rightarrow> byte list list" where
  "as_iovecs buffer = map (\<lambda>x. x) buffer"

lemma count_bound: "unat (n :: count) < 2 ^ 64"
proof -
  have "unat n < 2 ^ LENGTH(31)" by (rule unsigned_less)
  then show ?thesis by simp
qed

lemma bvl_remove_prefix_length:
  "bvl_remove_prefix vl n = Inr vl' \<Longrightarrow> n < 2 ^ 64 \<Longrightarrow> length (concat vl) = length (concat vl') + n"
  by (induction vl n arbitrary: vl' rule: bvl_remove_prefix.induct) (auto simp: sub64_exact split: if_splits)

text \<open>The length of a string fits into 63 bits, \<^verbatim>\<open>ssize_t(buffer.size())\<close> is the size.\<close>

function write_loop ::
  "'addr kernel \<Rightarrow> os \<Rightarrow> nat \<Rightarrow> buffer_view_list \<Rightarrow> bool \<Rightarrow> u64 \<Rightarrow> (os \<times> u64) res" where
  "write_loop K os h buffer write_all total_bytes_written =
     (case SystemCall ''writev'' (k_writev K (os_events os) (fd_num os h) (concat (as_iovecs buffer))) of
        Inl e \<Rightarrow> Inl e
      | Inr bytes_written \<Rightarrow>
          if bytes_written = 0 \<and> bvl_size buffer \<noteq> 0
            then Inl (Runtime_error ''write returned 0 given non-empty input buffer'')
          else if bvl_size buffer < unat bytes_written
            then Inl (Runtime_error ''write wrote more than length of input buffer'')
          else
            let os = register_write (log_event os (Ev_write (fd_num os h) (take (unat bytes_written) (concat buffer)))) h in
            (case bvl_remove_prefix buffer (unat bytes_written) of
               Inl e \<Rightarrow> Inl e
             | Inr buffer' \<Rightarrow>
                 let total_bytes_written = add64 total_bytes_written (unat bytes_written) in
                 if write_all \<and> bvl_size buffer' \<noteq> 0
                   then write_loop K os h buffer' write_all total_bytes_written
                 else Inr (os, total_bytes_written)))"
  by pat_completeness auto
termination
proof (relation "measure (\<lambda>(K, os, h, buffer, _). bvl_size buffer)", goal_cases)
  case 1
  show ?case by simp
next
  case (2 K os h buffer write_all total n os' buffer' total')
  have "bvl_remove_prefix buffer (unat n) = Inr buffer'" using 2 by simp
  from bvl_remove_prefix_length [OF this count_bound] have l: "bvl_size buffer = bvl_size buffer' + unat n"
    by (simp only: bvl_size_eq)
  moreover have "bvl_size buffer' \<noteq> 0" using 2 by simp
  ultimately have "n \<noteq> 0" using 2 by auto
  with l show ?case by (simp add: unat_gt_0)
qed

declare write_loop.simps [simp del]

definition fd_write :: "'addr kernel \<Rightarrow> os \<Rightarrow> nat \<Rightarrow> buffer_view_list \<Rightarrow> bool \<Rightarrow> (os \<times> u64) res" where
  "fd_write K os h buffer write_all = write_loop K os h buffer write_all 0"

subsection \<open>Control\<close>

text \<open>The system calls with at most one integer argument, as \<^verbatim>\<open>SystemCall\<close> wraps them, and what they attempt.\<close>

definition fd_call :: "'addr kernel \<Rightarrow> os \<Rightarrow> string \<Rightarrow> string \<Rightarrow> nat \<Rightarrow> int \<Rightarrow> (os \<times> int) res" where
  "fd_call K os attempt name h arg =
     bind_res (SystemCall attempt (k_call K (os_events os) name (fd_num os h) arg)) (\<lambda>r.
       Inr (log_event os (Ev_call name (fd_num os h) arg), r))"

definition fd_close :: "'addr kernel \<Rightarrow> os \<Rightarrow> nat \<Rightarrow> os res" where
  "fd_close K os h =
     bind_res (fd_call K os ''close'' ''close'' h 0) (\<lambda>(os, _). Inr (set_fd os h (\<lambda>w. w\<lparr>fdw_eof := True, fdw_closed := True\<rparr>)))"

definition FDWrapper_destructor :: "'addr kernel \<Rightarrow> os \<Rightarrow> nat \<Rightarrow> os" where
  "FDWrapper_destructor K os h =
     (if fd_closed os h then os else case fd_close K os h of Inr os \<Rightarrow> os | Inl _ \<Rightarrow> os)"

definition O_NONBLOCK :: u32 where
  "O_NONBLOCK = 0x800"

definition set_blocking :: "'addr kernel \<Rightarrow> os \<Rightarrow> nat \<Rightarrow> bool \<Rightarrow> os res" where
  "set_blocking K os h blocking_state =
     bind_res (fd_call K os ''fcntl'' ''F_GETFL'' h 0) (\<lambda>(os, r).
     let flags = word_of_int r :: u32;
         flags = (if blocking_state then flags XOR (flags AND O_NONBLOCK) else flags OR O_NONBLOCK)
     in
     bind_res (fd_call K os ''fcntl'' ''F_SETFL'' h (sint flags)) (\<lambda>(os, _). Inr os))"

subsection \<open>Sockets\<close>

definition SHUT_RD :: int where "SHUT_RD = 0"
definition SHUT_WR :: int where "SHUT_WR = 1"
definition SHUT_RDWR :: int where "SHUT_RDWR = 2"

definition socket_shutdown :: "'addr kernel \<Rightarrow> os \<Rightarrow> nat \<Rightarrow> int \<Rightarrow> os res" where
  "socket_shutdown K os h how =
     bind_res (fd_call K os ''shutdown'' ''shutdown'' h how) (\<lambda>(os, _).
       if how = SHUT_RD then Inr (register_read os h)
       else if how = SHUT_WR then Inr (register_write os h)
       else if how = SHUT_RDWR then Inr (register_write (register_read os h) h)
       else Inl (Runtime_error ''Socket::shutdown() called with invalid `how`''))"

text \<open>
  \<^verbatim>\<open>recvfrom\<close> stores as many bytes as fit; with \<^verbatim>\<open>MSG_TRUNC\<close> it returns the length of the datagram.
\<close>

definition udp_recv :: "'addr kernel \<Rightarrow> os \<Rightarrow> nat \<Rightarrow> u64 \<Rightarrow> (os \<times> 'addr \<times> byte list) res" where
  "udp_recv K os h mtu =
     bind_res (SystemCall ''recvfrom'' (k_recvfrom K (os_events os) (fd_num os h) mtu)) (\<lambda>(recv_len, bytes, source).
       if mtu < unat recv_len then Inl (Runtime_error ''recvfrom (oversized datagram)'')
       else
         let payload = take (unat recv_len) (bytes @ replicate (mtu - length bytes) 0);
             os = register_read (log_event os (Ev_recv (fd_num os h) payload)) h
         in Inr (os, source, payload))"

definition sendmsg_helper :: "'addr kernel \<Rightarrow> os \<Rightarrow> nat \<Rightarrow> 'addr option \<Rightarrow> buffer_view_list \<Rightarrow> os res" where
  "sendmsg_helper K os h destination payload =
     bind_res (SystemCall ''sendmsg'' (k_sendmsg K (os_events os) (fd_num os h) destination (concat (as_iovecs payload)))) (\<lambda>bytes_sent.
       if unat bytes_sent \<noteq> bvl_size payload then Inl (Runtime_error ''datagram payload too big for sendmsg()'')
       else Inr (log_event os (Ev_send (fd_num os h) (concat payload))))"

definition udp_sendto :: "'addr kernel \<Rightarrow> os \<Rightarrow> nat \<Rightarrow> 'addr \<Rightarrow> buffer_view_list \<Rightarrow> os res" where
  "udp_sendto K os h destination payload =
     bind_res (sendmsg_helper K os h (Some destination) payload) (\<lambda>os. Inr (register_write os h))"

definition udp_send :: "'addr kernel \<Rightarrow> os \<Rightarrow> nat \<Rightarrow> buffer_view_list \<Rightarrow> os res" where
  "udp_send K os h payload =
     bind_res (sendmsg_helper K os h None payload) (\<lambda>os. Inr (register_write os h))"

section \<open>What the log says\<close>

lemma log_event_fields [simp]:
  "os_events (log_event os e) = os_events os @ [e]" "os_fds (log_event os e) = os_fds os"
  by (simp_all add: log_event_def)

text \<open>The bytes that have been read from and written to a descriptor.\<close>

definition got :: "int \<Rightarrow> sys_event list \<Rightarrow> byte list" where
  "got fd es = concat (map (\<lambda>e. case e of Ev_read f bs \<Rightarrow> if f = fd then bs else [] | _ \<Rightarrow> []) es)"

definition given :: "int \<Rightarrow> sys_event list \<Rightarrow> byte list" where
  "given fd es = concat (map (\<lambda>e. case e of Ev_write f bs \<Rightarrow> if f = fd then bs else [] | _ \<Rightarrow> []) es)"

lemma got_append [simp]: "got fd (es @ es') = got fd es @ got fd es'" "given fd (es @ es') = given fd es @ given fd es'"
  by (simp_all add: got_def given_def)

lemma got_Cons [simp]:
  "got fd (Ev_read f bs # es) = (if f = fd then bs else []) @ got fd es"
  "got fd (Ev_write f bs # es) = got fd es" "got fd (Ev_call name f a # es) = got fd es"
  "got fd (Ev_poll rs # es) = got fd es" "got fd (Ev_failed name e # es) = got fd es"
  "got fd (Ev_recv f bs # es) = got fd es" "got fd (Ev_send f bs # es) = got fd es"
  by (simp_all add: got_def)

lemma given_Cons [simp]:
  "given fd (Ev_write f bs # es) = (if f = fd then bs else []) @ given fd es"
  "given fd (Ev_read f bs # es) = given fd es" "given fd (Ev_call name f a # es) = given fd es"
  "given fd (Ev_poll rs # es) = given fd es" "given fd (Ev_failed name e # es) = given fd es"
  "given fd (Ev_recv f bs # es) = given fd es" "given fd (Ev_send f bs # es) = given fd es"
  by (simp_all add: given_def)

lemma got_Nil [simp]: "got fd [] = []" "given fd [] = []"
  by (simp_all add: got_def given_def)

section \<open>What the operations do\<close>

text \<open>The exceptions that only a failing or misbehaving system call causes.\<close>

definition kernel_fault :: "exn \<Rightarrow> bool" where
  "kernel_fault e \<longleftrightarrow>
     (\<exists>name n. e = unix_error name n) \<or> e = Runtime_error ''read() read more than requested'' \<or>
     e = Runtime_error ''write returned 0 given non-empty input buffer'' \<or> e = Runtime_error ''write wrote more than length of input buffer''"

text \<open>Only the descriptor \<open>h\<close> is touched, and keeps its number.\<close>

definition touches :: "nat \<Rightarrow> os \<Rightarrow> os \<Rightarrow> bool" where
  "touches h os os' \<longleftrightarrow> (\<forall>g. g \<noteq> h \<longrightarrow> os_fds os' g = os_fds os g) \<and> fd_num os' h = fd_num os h"

lemma touchesD:
  assumes "touches h os os'"
  shows "fd_num os' g = fd_num os g" and "g \<noteq> h \<Longrightarrow> fd_eof os' g = fd_eof os g" and "g \<noteq> h \<Longrightarrow> fd_closed os' g = fd_closed os g"
  using assms by (auto simp: touches_def fd_num_def fd_eof_def fd_closed_def)

lemmas fd_defs = set_fd_def register_read_def register_write_def fd_num_def fd_eof_def fd_closed_def read_count_def write_count_def touches_def

lemma SystemCall_Inr [simp]: "SystemCall name x = Inr y \<longleftrightarrow> x = Inr y"
  by (cases x) (simp_all add: SystemCall_def)

lemma SystemCall_Inl: "SystemCall name x = Inl e \<Longrightarrow> kernel_fault e"
  by (cases x) (auto simp: SystemCall_def kernel_fault_def)

lemma fd_read_ok:
  assumes "fd_read K os h limit = Inr (os', bytes)"
  shows "os_events os' = os_events os @ [Ev_read (fd_num os h) bytes]" and "length bytes \<le> limit" and "touches h os os'"
    and "read_count os' h = read_count os h + 1" and "fd_closed os' h = fd_closed os h"
    and "fd_eof os' h = (fd_eof os h \<or> 0 < limit \<and> bytes = [])"
    and "k_read K (os_events os) (fd_num os h) (min BUFFER_SIZE limit) = Inr bytes"
  using assms by (auto simp: fd_read_def Let_def bind_res_Inr_iff fd_defs split: if_splits)

lemma fd_read_fault: "fd_read K os h limit = Inl e \<Longrightarrow> kernel_fault e"
  by (auto simp: fd_read_def Let_def bind_res_def kernel_fault_def [of "Runtime_error _"] dest: SystemCall_Inl split: sum.splits if_splits)

lemma fd_read_total:
  assumes "k_read K (os_events os) (fd_num os h) (min BUFFER_SIZE limit) = Inr bytes" and "length bytes \<le> min BUFFER_SIZE limit"
  shows "\<exists>os'. fd_read K os h limit = Inr (os', bytes)"
  using assms by (auto simp: fd_read_def Let_def SystemCall_def)

text \<open>Writing a string without insisting on all of it.\<close>

lemma fd_write_eq:
  "fd_write K os h [v] False =
     (case k_writev K (os_events os) (fd_num os h) v of
        Inl e \<Rightarrow> Inl (unix_error ''writev'' e)
      | Inr n \<Rightarrow>
          if n = 0 \<and> v \<noteq> [] then Inl (Runtime_error ''write returned 0 given non-empty input buffer'')
          else if length v < unat n then Inl (Runtime_error ''write wrote more than length of input buffer'')
          else Inr (register_write (log_event os (Ev_write (fd_num os h) (take (unat n) v))) h, unat n))"
proof -
  have "bvl_remove_prefix [v] (unat n) = Inr (if unat n = 0 then [v] else if unat n < length v then [drop (unat n) v] else [])"
    if "\<not> length v < unat n" for n :: count
    using that count_bound [of n] by auto
  then show ?thesis
    using count_bound by (simp add: fd_write_def write_loop.simps [of K os h "[v]"] SystemCall_def as_iovecs_def bvl_size_eq Let_def split: sum.split)
qed

lemma fd_write_ok:
  assumes "fd_write K os h [v] False = Inr (os', n)"
  shows "os_events os' = os_events os @ [Ev_write (fd_num os h) (take n v)]" and "n \<le> length v" and "touches h os os'"
    and "write_count os' h = write_count os h + 1" and "fd_closed os' h = fd_closed os h" and "fd_eof os' h = fd_eof os h"
    and "v \<noteq> [] \<Longrightarrow> 0 < n"
  using assms by (auto simp: fd_write_eq fd_defs unat_gt_0 split: sum.splits if_splits)

lemma fd_write_fault: "fd_write K os h [v] False = Inl e \<Longrightarrow> kernel_fault e"
  by (auto simp: fd_write_eq kernel_fault_def split: sum.splits if_splits)

lemma fd_write_total:
  assumes "k_writev K (os_events os) (fd_num os h) v = Inr n" and "v \<noteq> [] \<longrightarrow> n \<noteq> 0" and "unat n \<le> length v"
  shows "\<exists>os'. fd_write K os h [v] False = Inr (os', unat n)"
  using assms by (auto simp: fd_write_eq)

lemma fd_call_ok:
  assumes "fd_call K os attempt name h a = Inr (os', r)"
  shows "os' = log_event os (Ev_call name (fd_num os h) a)"
  using assms by (simp add: fd_call_def bind_res_Inr_iff)

lemma fd_call_fault: "fd_call K os attempt name h a = Inl e \<Longrightarrow> kernel_fault e"
  by (auto simp: fd_call_def bind_res_def dest: SystemCall_Inl split: sum.splits)

lemma touches_trans: "touches h os os1 \<Longrightarrow> touches h os1 os2 \<Longrightarrow> touches h os os2"
  by (simp add: touches_def)

lemma shutdown_write_ok:
  assumes "socket_shutdown K os h SHUT_WR = Inr os'"
  shows "os_events os' = os_events os @ [Ev_call ''shutdown'' (fd_num os h) SHUT_WR]" and "touches h os os'"
    and "write_count os' h = write_count os h + 1" and "fd_closed os' h = fd_closed os h" and "fd_eof os' h = fd_eof os h"
proof -
  obtain os1 r where c: "fd_call K os ''shutdown'' ''shutdown'' h SHUT_WR = Inr (os1, r)" and os': "os' = register_write os1 h"
    using assms by (auto simp: socket_shutdown_def bind_res_Inr_iff SHUT_WR_def SHUT_RD_def)
  show "os_events os' = os_events os @ [Ev_call ''shutdown'' (fd_num os h) SHUT_WR]" "touches h os os'"
    "write_count os' h = write_count os h + 1" "fd_closed os' h = fd_closed os h" "fd_eof os' h = fd_eof os h"
    by (simp_all add: os' fd_call_ok [OF c] fd_defs)
qed

lemma fd_close_ok:
  assumes "fd_close K os h = Inr os'"
  shows "os_events os' = os_events os @ [Ev_call ''close'' (fd_num os h) 0]" and "touches h os os'"
    and "write_count os' h = write_count os h" and "fd_closed os' h" and "fd_eof os' h"
proof -
  obtain os1 r where c: "fd_call K os ''close'' ''close'' h 0 = Inr (os1, r)"
    and os': "os' = set_fd os1 h (\<lambda>w. w\<lparr>fdw_eof := True, fdw_closed := True\<rparr>)"
    using assms by (auto simp: fd_close_def bind_res_Inr_iff)
  show "os_events os' = os_events os @ [Ev_call ''close'' (fd_num os h) 0]" "touches h os os'"
    "write_count os' h = write_count os h" "fd_closed os' h" "fd_eof os' h"
    by (simp_all add: os' fd_call_ok [OF c] fd_defs)
qed

lemma shutdown_fault: "socket_shutdown K os h SHUT_WR = Inl e \<Longrightarrow> kernel_fault e"
  by (auto simp: socket_shutdown_def SHUT_WR_def SHUT_RD_def bind_res_def dest: fd_call_fault split: sum.splits)

lemma fd_close_fault: "fd_close K os h = Inl e \<Longrightarrow> kernel_fault e"
  by (auto simp: fd_close_def bind_res_def dest: fd_call_fault split: sum.splits)

end
