(* ===== verification/Event_Loop.thy ===== *)
theory Event_Loop
  imports File_Descriptor
begin

text \<open>
  \<^verbatim>\<open>libsponge/util/eventloop.{hh,cc}\<close>: rules that pair a file descriptor and a direction with callbacks, and
  \<^verbatim>\<open>wait_next_event\<close>, which polls the descriptors and calls the rules that are ready. The callbacks are closures
  over the state of the program that owns the loop: here functions on the pair of the state of the
  descriptors and that of the owner. The interest of a rule only observes; this is so for all rules of the
  sources.
\<close>

unbundle bit_operations_syntax

section \<open>Definitions\<close>

datatype Direction = In | Out

definition POLLIN :: u16 where "POLLIN = 0x01"
definition POLLOUT :: u16 where "POLLOUT = 0x04"
definition POLLERR :: u16 where "POLLERR = 0x08"
definition POLLHUP :: u16 where "POLLHUP = 0x10"
definition POLLNVAL :: u16 where "POLLNVAL = 0x20"

definition EINTR :: int where "EINTR = 4"

fun direction_events :: "Direction \<Rightarrow> u16" where
  "direction_events In = POLLIN"
| "direction_events Out = POLLOUT"

type_synonym 'u world = "os \<times> 'u"

record 'u rule =
  ru_fd :: nat
  ru_direction :: Direction
  ru_callback :: "'u world \<Rightarrow> 'u world res"
  ru_interest :: "'u world \<Rightarrow> bool"
  ru_cancel :: "'u world \<Rightarrow> 'u world res"

definition service_count :: "'u rule \<Rightarrow> os \<Rightarrow> u32" where
  "service_count r os = (if ru_direction r = In then read_count os (ru_fd r) else write_count os (ru_fd r))"

definition add_rule ::
  "'u rule list \<Rightarrow> nat \<Rightarrow> Direction \<Rightarrow> ('u world \<Rightarrow> 'u world res) \<Rightarrow> ('u world \<Rightarrow> bool) \<Rightarrow> ('u world \<Rightarrow> 'u world res) \<Rightarrow> 'u rule list" where
  "add_rule rules fd direction callback interest cancel =
     rules @ [\<lparr>ru_fd = duplicate fd, ru_direction = direction, ru_callback = callback, ru_interest = interest, ru_cancel = cancel\<rparr>]"

datatype Result = Success | Timeout | Exit

text \<open>The loop that sets up the \<^verbatim>\<open>pollfd\<close>s: the rules that stay, their entries and whether there is something to poll.\<close>

fun poll_setup :: "'u rule list \<Rightarrow> 'u world \<Rightarrow> ('u rule list \<times> pollfd list \<times> bool \<times> 'u world) res" where
  "poll_setup [] w = Inr ([], [], False, w)"
| "poll_setup (r # rules) w =
     (if ru_direction r = In \<and> fd_eof (fst w) (ru_fd r) then
        bind_res (ru_cancel r w) (\<lambda>w. poll_setup rules w)
      else if fd_closed (fst w) (ru_fd r) then
        bind_res (ru_cancel r w) (\<lambda>w. poll_setup rules w)
      else
        let interested = ru_interest r w;
            p = \<lparr>pfd_fd = fd_num (fst w) (ru_fd r),
                 pfd_events = (if interested then direction_events (ru_direction r) else 0), pfd_revents = 0\<rparr>
        in
        bind_res (poll_setup rules w) (\<lambda>(rules, pollfds, something_to_poll, w).
          Inr (r # rules, p # pollfds, interested \<or> something_to_poll, w)))"

definition busy_wait :: exn where
  "busy_wait = Runtime_error ''EventLoop: busy wait detected: callback did not read/write fd and is still interested''"

definition poll_error :: exn where
  "poll_error = Runtime_error ''EventLoop: error on polled file descriptor''"

text \<open>The loop over the results, with the entries of the rules that are left.\<close>

fun poll_results :: "'u rule list \<Rightarrow> pollfd list \<Rightarrow> 'u world \<Rightarrow> ('u rule list \<times> 'u world) res" where
  "poll_results (r # rules) (p # pollfds) w =
     (if pfd_revents p AND (POLLERR OR POLLNVAL) \<noteq> 0 then Inl poll_error
      else
        let poll_ready = (pfd_revents p AND pfd_events p \<noteq> 0);
            poll_hup = (pfd_revents p AND POLLHUP \<noteq> 0)
        in
        if poll_hup \<and> pfd_events p \<noteq> 0 \<and> \<not> poll_ready then
          bind_res (ru_cancel r w) (\<lambda>w. poll_results rules pollfds w)
        else
          bind_res
            (if poll_ready then
               let count_before = service_count r (fst w) in
               bind_res (ru_callback r w) (\<lambda>w.
                 if count_before = service_count r (fst w) \<and> ru_interest r w then Inl busy_wait else Inr w)
             else Inr w) (\<lambda>w.
          bind_res (poll_results rules pollfds w) (\<lambda>(rules, w). Inr (r # rules, w))))"
| "poll_results rules pollfds w = Inr (rules, w)"

text \<open>
  The call of \<^verbatim>\<open>poll\<close> with its handler. A failed call stores nothing into the entries; the \<^verbatim>\<open>unix_error\<close> that
  \<^verbatim>\<open>SystemCall\<close> throws is caught, and every error but \<^verbatim>\<open>EINTR\<close> is swallowed.
\<close>

definition poll_call :: "'addr kernel \<Rightarrow> pollfd list \<Rightarrow> int \<Rightarrow> os \<Rightarrow> os \<times> Result \<times> pollfd list" where
  "poll_call K pollfds timeout_ms os =
     (case k_poll K (os_events os) pollfds timeout_ms of
        Inr (n, revents) \<Rightarrow>
          let pollfds = map (\<lambda>(i, p). p\<lparr>pfd_revents := revents i\<rparr>) (enumerate 0 pollfds);
              os = log_event os (Ev_poll (map pfd_revents pollfds))
          in (os, if n = 0 then Timeout else Success, pollfds)
      | Inl e \<Rightarrow> (log_event os (Ev_failed ''poll'' e), if e = EINTR then Exit else Success, pollfds))"

definition wait_next_event ::
  "'addr kernel \<Rightarrow> int \<Rightarrow> 'u rule list \<Rightarrow> 'u world \<Rightarrow> (Result \<times> 'u rule list \<times> 'u world) res" where
  "wait_next_event K timeout_ms rules w =
     bind_res (poll_setup rules w) (\<lambda>(rules, pollfds, something_to_poll, w).
       if \<not> something_to_poll then Inr (Exit, rules, w)
       else
         case poll_call K pollfds timeout_ms (fst w) of
           (os, Success, pollfds) \<Rightarrow>
             bind_res (poll_results rules pollfds (os, snd w)) (\<lambda>(rules, w). Inr (Success, rules, w))
         | (os, result, pollfds) \<Rightarrow> Inr (result, rules, (os, snd w)))"

section \<open>The contract of the rules of a program\<close>

definition hung_up :: "os \<Rightarrow> bool" where
  "hung_up os \<longleftrightarrow> (\<exists>rs x. Ev_poll rs \<in> set (os_events os) \<and> x \<in> set rs \<and> x AND POLLHUP \<noteq> 0)"

definition interrupted :: "os \<Rightarrow> bool" where
  "interrupted os \<longleftrightarrow> Ev_failed ''poll'' EINTR \<in> set (os_events os)"

text \<open>Why a rule may be cancelled.\<close>

definition over :: "'u rule \<Rightarrow> os \<Rightarrow> bool" where
  "over r os \<longleftrightarrow> ru_direction r = In \<and> fd_eof os (ru_fd r) \<or> fd_closed os (ru_fd r)"

lemma poll_setup_over:
  "poll_setup (r # rules) w =
     (if over r (fst w) then bind_res (ru_cancel r w) (poll_setup rules)
      else bind_res (poll_setup rules w) (\<lambda>(rules, pollfds, something_to_poll, w').
        Inr (r # rules,
             \<lparr>pfd_fd = fd_num (fst w) (ru_fd r), pfd_events = (if ru_interest r w then direction_events (ru_direction r) else 0),
              pfd_revents = 0\<rparr> # pollfds,
             ru_interest r w \<or> something_to_poll, w')))"
  by (auto simp: over_def Let_def)

text \<open>
  What the owner of an event loop promises for its rules \<open>R\<close>: an invariant \<open>I\<close>, for each rule what holds once it has
  been cancelled (\<open>gone\<close>), and the exceptions that the callbacks may throw. A callback reads or writes its
  descriptor or loses interest, as \<^verbatim>\<open>eventloop.cc\<close> demands, and a rule that is checked early does not become
  interested by the cancellation of one that is checked later.
\<close>

locale rules_contract =
  fixes R :: "'u rule set"
    and before :: "'u rule \<Rightarrow> 'u rule \<Rightarrow> bool"
    and I :: "'u world \<Rightarrow> bool"
    and gone :: "'u rule \<Rightarrow> 'u world \<Rightarrow> bool"
    and throws :: "exn \<Rightarrow> bool"
  assumes callback_throws: "r \<in> R \<Longrightarrow> I w \<Longrightarrow> \<not> over r (fst w) \<Longrightarrow> ru_callback r w = Inl e \<Longrightarrow> throws e"
    and callback_invar: "r \<in> R \<Longrightarrow> I w \<Longrightarrow> \<not> over r (fst w) \<Longrightarrow> ru_callback r w = Inr w' \<Longrightarrow> I w'"
    and callback_serves: "r \<in> R \<Longrightarrow> I w \<Longrightarrow> \<not> over r (fst w) \<Longrightarrow> ru_callback r w = Inr w' \<Longrightarrow>
      service_count r (fst w') \<noteq> service_count r (fst w) \<or> \<not> ru_interest r w'"
    and callback_gone: "r \<in> R \<Longrightarrow> s \<in> R \<Longrightarrow> I w \<Longrightarrow> \<not> over r (fst w) \<Longrightarrow> ru_callback r w = Inr w' \<Longrightarrow> gone s w \<Longrightarrow> gone s w'"
    and callback_live: "r \<in> R \<Longrightarrow> s \<in> R \<Longrightarrow> r \<noteq> s \<Longrightarrow> I w \<Longrightarrow> \<not> over r (fst w) \<Longrightarrow> ru_callback r w = Inr w' \<Longrightarrow> \<not> over s (fst w) \<Longrightarrow> \<not> over s (fst w')"
    and cancel_live: "r \<in> R \<Longrightarrow> s \<in> R \<Longrightarrow> I w \<Longrightarrow> over r (fst w) \<or> hung_up (fst w) \<Longrightarrow> ru_cancel r w = Inr w' \<Longrightarrow> \<not> over s (fst w) \<Longrightarrow> \<not> over s (fst w')"
    and before_irrefl: "\<not> before r r"
    and cancel_throws: "r \<in> R \<Longrightarrow> I w \<Longrightarrow> over r (fst w) \<or> hung_up (fst w) \<Longrightarrow> ru_cancel r w = Inl e \<Longrightarrow> throws e"
    and cancel_invar: "r \<in> R \<Longrightarrow> I w \<Longrightarrow> over r (fst w) \<or> hung_up (fst w) \<Longrightarrow> ru_cancel r w = Inr w' \<Longrightarrow> I w'"
    and cancel_gone: "r \<in> R \<Longrightarrow> I w \<Longrightarrow> over r (fst w) \<or> hung_up (fst w) \<Longrightarrow> ru_cancel r w = Inr w' \<Longrightarrow> gone r w'"
    and cancel_keeps_gone: "r \<in> R \<Longrightarrow> s \<in> R \<Longrightarrow> I w \<Longrightarrow> over r (fst w) \<or> hung_up (fst w) \<Longrightarrow> ru_cancel r w = Inr w' \<Longrightarrow> gone s w \<Longrightarrow> gone s w'"
    and cancel_quiet: "r \<in> R \<Longrightarrow> s \<in> R \<Longrightarrow> before s r \<Longrightarrow> I w \<Longrightarrow> over r (fst w) \<Longrightarrow> ru_cancel r w = Inr w' \<Longrightarrow>
      ru_interest s w' = ru_interest s w"
    and cancel_log: "r \<in> R \<Longrightarrow> I w \<Longrightarrow> over r (fst w) \<or> hung_up (fst w) \<Longrightarrow> ru_cancel r w = Inr w' \<Longrightarrow> hung_up (fst w') = hung_up (fst w)"
    and callback_log: "r \<in> R \<Longrightarrow> I w \<Longrightarrow> \<not> over r (fst w) \<Longrightarrow> ru_callback r w = Inr w' \<Longrightarrow> hung_up (fst w') = hung_up (fst w)"
    and poll_invar: "I (os, u) \<Longrightarrow> I (log_event os (Ev_poll rs), u)" "I (os, u) \<Longrightarrow> I (log_event os (Ev_failed name n), u)"
    and poll_gone: "r \<in> R \<Longrightarrow> gone r (os, u) \<Longrightarrow> gone r (log_event os (Ev_poll rs), u)"
      "r \<in> R \<Longrightarrow> gone r (os, u) \<Longrightarrow> gone r (log_event os (Ev_failed name n), u)"
begin

text \<open>What both loops keep: the rules that were dropped are gone and stay so.\<close>

definition kept :: "'u rule list \<Rightarrow> 'u world \<Rightarrow> 'u rule list \<Rightarrow> 'u world \<Rightarrow> bool" where
  "kept rules w rules' w' \<longleftrightarrow>
     I w' \<and> set rules' \<subseteq> set rules \<and> (sorted_wrt before rules \<longrightarrow> sorted_wrt before rules') \<and>
     (\<forall>r \<in> set rules - set rules'. gone r w') \<and> (\<forall>s \<in> R. gone s w \<longrightarrow> gone s w')"

lemma kept_drop: "kept rules w1 rules' w' \<Longrightarrow> r \<in> R \<Longrightarrow> gone r w1 \<Longrightarrow> (\<And>s. s \<in> R \<Longrightarrow> gone s w \<Longrightarrow> gone s w1) \<Longrightarrow> kept (r # rules) w rules' w'"
  by (auto simp: kept_def)

lemma kept_keep: "kept rules w1 rules' w' \<Longrightarrow> (\<And>s. s \<in> R \<Longrightarrow> gone s w \<Longrightarrow> gone s w1) \<Longrightarrow> kept (r # rules) w (r # rules') w'"
  by (auto simp: kept_def)

text \<open>The setup: the rules that stay have their entry, and the polled ones are interested also at the end.\<close>

definition set_up :: "'u rule list \<Rightarrow> pollfd list \<Rightarrow> 'u world \<Rightarrow> bool" where
  "set_up rules pollfds w \<longleftrightarrow>
     list_all2 (\<lambda>r p. \<not> over r (fst w) \<and> pfd_events p = (if ru_interest r w then direction_events (ru_direction r) else 0)) rules pollfds"

lemma set_up_Cons: "set_up (r # rules) (p # ps) w \<longleftrightarrow>
    \<not> over r (fst w) \<and> pfd_events p = (if ru_interest r w then direction_events (ru_direction r) else 0) \<and> set_up rules ps w"
  by (simp add: set_up_def)

lemma poll_setup_quiet:
  assumes "poll_setup rules w = Inr (rules', ps, b, w')" and "set rules \<subseteq> R" and "I w" and "s \<in> R" and "\<forall>r \<in> set rules. before s r"
  shows "ru_interest s w' = ru_interest s w \<and> (\<not> over s (fst w) \<longrightarrow> \<not> over s (fst w'))"
  using assms
proof (induction rules arbitrary: w rules' ps b)
  case (Cons r rules)
  show ?case
  proof (cases "over r (fst w)")
    case True
    then obtain w1 where w1: "ru_cancel r w = Inr w1" "poll_setup rules w1 = Inr (rules', ps, b, w')"
      using Cons.prems(1) by (auto simp: poll_setup_over bind_res_Inr_iff simp del: poll_setup.simps)
    then show ?thesis
      using Cons.IH [OF w1(2)] Cons.prems cancel_invar [OF _ _ _ w1(1)] cancel_quiet [OF _ _ _ _ True w1(1)]
        cancel_live [OF _ _ _ _ w1(1)] True by auto
  next
    case False
    then obtain rules1 ps1 b1 where "poll_setup rules w = Inr (rules1, ps1, b1, w')"
      using Cons.prems(1) by (auto simp: poll_setup_over bind_res_Inr_iff simp del: poll_setup.simps)
    from Cons.IH [OF this] Cons.prems show ?thesis by simp
  qed
qed simp

lemma poll_setup_ok:
  assumes "set rules \<subseteq> R" and "I w" and "sorted_wrt before rules"
  shows "(\<exists>e. poll_setup rules w = Inl e \<and> throws e) \<or>
    (\<exists>rules' ps b w'. poll_setup rules w = Inr (rules', ps, b, w') \<and> kept rules w rules' w' \<and> set_up rules' ps w' \<and>
       (b \<longleftrightarrow> (\<exists>p \<in> set ps. pfd_events p \<noteq> 0)))"
  using assms
proof (induction rules arbitrary: w)
  case Nil
  then show ?case by (simp add: kept_def set_up_def)
next
  case (Cons r rules)
  have R: "r \<in> R" "set rules \<subseteq> R" "sorted_wrt before rules" "\<forall>s \<in> set rules. before r s" using Cons.prems by simp_all
  show ?case
  proof (cases "over r (fst w)")
    case True
    show ?thesis
    proof (cases "ru_cancel r w")
      case (Inl e)
      then show ?thesis using True cancel_throws [OF R(1) Cons.prems(2)] by (simp add: poll_setup_over del: poll_setup.simps)
    next
      case (Inr w1)
      have I1: "I w1" "gone r w1" and g: "\<And>s. s \<in> R \<Longrightarrow> gone s w \<Longrightarrow> gone s w1"
        using cancel_invar [OF R(1) Cons.prems(2) _ Inr] cancel_gone [OF R(1) Cons.prems(2) _ Inr]
          cancel_keeps_gone [OF R(1) _ Cons.prems(2) _ Inr] True by blast+
      have e: "poll_setup (r # rules) w = poll_setup rules w1" using True Inr by (simp add: poll_setup_over del: poll_setup.simps)
      from Cons.IH [OF R(2) I1(1) R(3)] show ?thesis
      proof (elim disjE exE conjE)
        fix rules' ps b w'
        assume "poll_setup rules w1 = Inr (rules', ps, b, w')" "kept rules w1 rules' w'" "set_up rules' ps w'"
          "b \<longleftrightarrow> (\<exists>p \<in> set ps. pfd_events p \<noteq> 0)"
        then show ?thesis using e kept_drop [OF _ R(1) I1(2) g] by auto
      qed (simp add: e del: poll_setup.simps)
    qed
  next
    case False
    from Cons.IH [OF R(2) Cons.prems(2) R(3)] show ?thesis
    proof (elim disjE exE conjE)
      fix e
      assume "poll_setup rules w = Inl e" "throws e"
      then show ?thesis using False by (simp add: poll_setup_over del: poll_setup.simps)
    next
      fix rules' ps b w'
      assume s: "poll_setup rules w = Inr (rules', ps, b, w')" and k: "kept rules w rules' w'" and u: "set_up rules' ps w'"
        and b: "b \<longleftrightarrow> (\<exists>p \<in> set ps. pfd_events p \<noteq> 0)"
      have q: "ru_interest r w' = ru_interest r w" "\<not> over r (fst w')"
        using poll_setup_quiet [OF s R(2) Cons.prems(2) R(1,4)] False by simp_all
      have d: "direction_events (ru_direction r) \<noteq> 0" by (cases "ru_direction r") (simp_all add: POLLIN_def POLLOUT_def)
      from s False show ?thesis
        using kept_keep [OF k, of w r] u b q d by (simp add: poll_setup_over set_up_Cons del: poll_setup.simps)
    qed
  qed
qed

lemma sorted_distinct: "sorted_wrt before rules \<Longrightarrow> distinct rules"
  using before_irrefl by (induction rules) auto

lemma over_log: "over r (log_event os ev) = over r os"
  by (simp add: over_def fd_eof_def fd_closed_def)

lemma set_up_live: "set_up rules ps w \<Longrightarrow> \<forall>r \<in> set rules. \<not> over r (fst w)"
  by (auto simp: set_up_def list_all2_conv_all_nth in_set_conv_nth)

lemma poll_results_ok:
  assumes "set rules \<subseteq> R" and "I w" and "\<forall>p \<in> set ps. pfd_revents p AND POLLHUP \<noteq> 0 \<longrightarrow> hung_up (fst w)"
    and "distinct rules" and "\<forall>r \<in> set rules. \<not> over r (fst w)"
  shows "(\<exists>e. poll_results rules ps w = Inl e \<and> (throws e \<or> e = poll_error)) \<or>
    (\<exists>rules' w'. poll_results rules ps w = Inr (rules', w') \<and> kept rules w rules' w')"
  using assms
proof (induction rules ps w rule: poll_results.induct)
  case (1 r rules p ps w)
  have R: "r \<in> R" "set rules \<subseteq> R" "distinct rules" "r \<notin> set rules" "\<not> over r (fst w)" "\<forall>s \<in> set rules. \<not> over s (fst w)"
    using "1.prems" by simp_all
  let ?ready = "pfd_revents p AND pfd_events p \<noteq> 0"
  consider (err) "pfd_revents p AND (POLLERR OR POLLNVAL) \<noteq> 0"
    | (hup) "pfd_revents p AND (POLLERR OR POLLNVAL) = 0" "pfd_revents p AND POLLHUP \<noteq> 0" "pfd_events p \<noteq> 0" "\<not> ?ready"
    | (ready) "pfd_revents p AND (POLLERR OR POLLNVAL) = 0" "?ready"
    | (idle) "pfd_revents p AND (POLLERR OR POLLNVAL) = 0" "\<not> ?ready" "\<not> (pfd_revents p AND POLLHUP \<noteq> 0 \<and> pfd_events p \<noteq> 0)"
    by blast
  then show ?case
  proof cases
    case err
    then show ?thesis by simp
  next
    case hup
    show ?thesis
    proof (cases "ru_cancel r w")
      case (Inl e)
      then show ?thesis using hup "1.prems"(3) cancel_throws [OF R(1) "1.prems"(2)] by simp
    next
      case (Inr w1)
      have h: "hung_up (fst w)" using "1.prems"(3) hup(2) by simp
      have I1: "I w1" "gone r w1" "hung_up (fst w1)" and g: "\<And>s. s \<in> R \<Longrightarrow> gone s w \<Longrightarrow> gone s w1"
        using cancel_invar [OF R(1) "1.prems"(2) _ Inr] cancel_gone [OF R(1) "1.prems"(2) _ Inr] h
          cancel_keeps_gone [OF R(1) _ "1.prems"(2) _ Inr] cancel_log [OF R(1) "1.prems"(2) _ Inr] by blast+
      have o: "\<forall>s \<in> set rules. \<not> over s (fst w1)" using cancel_live [OF R(1) _ "1.prems"(2) _ Inr] R(2,6) h by blast
      have e: "poll_results (r # rules) (p # ps) w = poll_results rules ps w1" using hup Inr by simp
      have "(\<exists>e. poll_results rules ps w1 = Inl e \<and> (throws e \<or> e = poll_error)) \<or>
          (\<exists>rules' w'. poll_results rules ps w1 = Inr (rules', w') \<and> kept rules w1 rules' w')"
        using "1.IH"(1) [OF _ refl refl _ R(2) I1(1) _ R(3) o] hup I1(3) by simp
      then show ?thesis unfolding e using kept_drop [OF _ R(1) I1(2) g] by blast
    qed
  next
    case ready
    show ?thesis
    proof (cases "ru_callback r w")
      case (Inl e)
      then show ?thesis using ready callback_throws [OF R(1) "1.prems"(2) R(5)] by simp
    next
      case (Inr w1)
      have I1: "I w1" and g: "\<And>s. s \<in> R \<Longrightarrow> gone s w \<Longrightarrow> gone s w1"
        and c: "\<not> (service_count r (fst w) = service_count r (fst w1) \<and> ru_interest r w1)"
        using callback_invar [OF R(1) "1.prems"(2) R(5) Inr] callback_gone [OF R(1) _ "1.prems"(2) R(5) Inr] callback_serves [OF R(1) "1.prems"(2) R(5) Inr] by auto
      have o: "\<forall>s \<in> set rules. \<not> over s (fst w1)" using callback_live [OF R(1) _ _ "1.prems"(2) R(5) Inr] R(2,4,6) by blast
      have e: "poll_results (r # rules) (p # ps) w = bind_res (poll_results rules ps w1) (\<lambda>(rules, w). Inr (r # rules, w))"
        using ready Inr c by auto
      have "(\<exists>e. poll_results rules ps w1 = Inl e \<and> (throws e \<or> e = poll_error)) \<or>
          (\<exists>rules' w'. poll_results rules ps w1 = Inr (rules', w') \<and> kept rules w1 rules' w')"
        using "1.IH"(2) [OF _ refl refl _ R(2) I1 _ R(3) o] ready "1.prems"(3) callback_log [OF R(1) "1.prems"(2) R(5) Inr] by simp
      then show ?thesis unfolding e using kept_keep [OF _ g] by fastforce
    qed
  next
    case idle
    then have e: "poll_results (r # rules) (p # ps) w = bind_res (poll_results rules ps w) (\<lambda>(rules, w). Inr (r # rules, w))"
      by auto
    have "(\<exists>e. poll_results rules ps w = Inl e \<and> (throws e \<or> e = poll_error)) \<or>
        (\<exists>rules' w'. poll_results rules ps w = Inr (rules', w') \<and> kept rules w rules' w')"
      using "1.IH"(2) [OF _ refl refl _ R(2) "1.prems"(2) _ R(3,6)] idle "1.prems"(3) by auto
    then show ?thesis unfolding e using kept_keep [of rules w _ _ w r] by fastforce
  qed
qed (auto simp: kept_def)

text \<open>One call of \<^verbatim>\<open>wait_next_event\<close>: every rule is still there or gone, and after an exit none is interested.\<close>

definition loop_ok :: "'u rule list \<Rightarrow> 'u world \<Rightarrow> bool" where
  "loop_ok rules w \<longleftrightarrow> I w \<and> set rules \<subseteq> R \<and> sorted_wrt before rules \<and> (\<forall>r \<in> R. r \<in> set rules \<or> gone r w)"

lemma kept_loop_ok: "loop_ok rules w \<Longrightarrow> kept rules w rules' w' \<Longrightarrow> loop_ok rules' w'"
  unfolding loop_ok_def kept_def by blast

lemma loop_ok_log:
  "loop_ok rules (os, u) \<Longrightarrow> loop_ok rules (log_event os (Ev_poll rs), u)"
  "loop_ok rules (os, u) \<Longrightarrow> loop_ok rules (log_event os (Ev_failed name n), u)"
  using poll_invar poll_gone by (auto simp: loop_ok_def)

lemma poll_call_ok:
  assumes "loop_ok rules (os, u)" and "poll_call K ps t os = (os', res, ps')" and "\<forall>p \<in> set ps. pfd_revents p = 0"
  shows "loop_ok rules (os', u) \<and> (\<forall>p \<in> set ps'. pfd_revents p AND POLLHUP \<noteq> 0 \<longrightarrow> hung_up os') \<and>
    (res = Exit \<longrightarrow> interrupted os') \<and> over r os' = over r os"
proof (cases "k_poll K (os_events os) ps t")
  case (Inl e)
  then show ?thesis
    using assms loop_ok_log(2) [OF assms(1)] by (auto simp: poll_call_def interrupted_def over_log split: if_splits)
next
  case (Inr x)
  obtain n rev where x: "x = (n, rev)" by (cases x)
  have os': "os' = log_event os (Ev_poll (map pfd_revents ps'))" "res \<noteq> Exit"
    using assms(2) Inr x by (auto simp: poll_call_def Let_def split: if_splits)
  then show ?thesis
    using loop_ok_log(1) [OF assms(1)] by (auto simp: hung_up_def over_log intro!: exI [of _ "map pfd_revents ps'"])
qed

lemma poll_setup_revents: "poll_setup rules w = Inr (rules', ps, b, w') \<Longrightarrow> \<forall>p \<in> set ps. pfd_revents p = 0"
  by (induction rules arbitrary: w rules' ps b)
    (auto simp: poll_setup_over bind_res_Inr_iff simp del: poll_setup.simps(2) split: if_splits)

lemma set_up_interest:
  assumes "set_up rules ps w" and "\<forall>p \<in> set ps. pfd_events p = 0" and "r \<in> set rules"
  shows "\<not> ru_interest r w"
proof -
  obtain i where i: "i < length rules" "r = rules ! i" using assms(3) by (auto simp: in_set_conv_nth)
  then have "i < length ps" "pfd_events (ps ! i) = (if ru_interest r w then direction_events (ru_direction r) else 0)"
    using assms(1) by (auto simp: set_up_def list_all2_conv_all_nth)
  then show ?thesis using assms(2) by (cases "ru_direction r") (auto simp: POLLIN_def POLLOUT_def split: if_splits)
qed

lemma wait_next_event_ok:
  assumes "loop_ok rules w"
  shows "(\<exists>e. wait_next_event K t rules w = Inl e \<and> (throws e \<or> e = poll_error)) \<or>
    (\<exists>res rules' w'. wait_next_event K t rules w = Inr (res, rules', w') \<and> loop_ok rules' w' \<and>
       (res = Exit \<longrightarrow> (\<forall>r \<in> set rules'. \<not> ru_interest r w') \<or> interrupted (fst w')))"
proof -
  have l: "set rules \<subseteq> R" "I w" "sorted_wrt before rules" using assms by (simp_all add: loop_ok_def)
  from poll_setup_ok [OF this] show ?thesis
  proof (elim disjE exE conjE)
    fix e
    assume "poll_setup rules w = Inl e" "throws e"
    then show ?thesis by (simp add: wait_next_event_def)
  next
    fix rules1 ps b w1
    assume s: "poll_setup rules w = Inr (rules1, ps, b, w1)" and k: "kept rules w rules1 w1" and u: "set_up rules1 ps w1"
      and b: "b \<longleftrightarrow> (\<exists>p \<in> set ps. pfd_events p \<noteq> 0)"
    have l1: "loop_ok rules1 w1" using kept_loop_ok [OF assms k] .
    show ?thesis
    proof (cases b)
      case False
      then show ?thesis using s b l1 set_up_interest [OF u] by (simp add: wait_next_event_def)
    next
      case True
      obtain os1 u1 where w1: "w1 = (os1, u1)" by (cases w1)
      obtain os' res ps' where c: "poll_call K ps t os1 = (os', res, ps')" by (cases "poll_call K ps t os1")
      have p: "loop_ok rules1 (os', u1)" "\<forall>p \<in> set ps'. pfd_revents p AND POLLHUP \<noteq> 0 \<longrightarrow> hung_up os'" "res = Exit \<longrightarrow> interrupted os'"
        "\<forall>r \<in> set rules1. \<not> over r (fst (os', u1))"
        using poll_call_ok [OF l1 [unfolded w1] c poll_setup_revents [OF s]] set_up_live [OF u] w1 by auto
      show ?thesis
      proof (cases "res = Success")
        case True
        have l2: "set rules1 \<subseteq> R" "I (os', u1)" "distinct rules1" using p(1) sorted_distinct by (simp_all add: loop_ok_def)
        from poll_results_ok [OF l2(1,2) _ l2(3) p(4), of ps'] p(2)
        have "(\<exists>e. poll_results rules1 ps' (os', u1) = Inl e \<and> (throws e \<or> e = poll_error)) \<or>
          (\<exists>rules' w'. poll_results rules1 ps' (os', u1) = Inr (rules', w') \<and> kept rules1 (os', u1) rules' w')" by simp
        then show ?thesis
          using s \<open>b\<close> w1 c True kept_loop_ok [OF p(1)] by (auto simp: wait_next_event_def)
      next
        case False
        then show ?thesis using s \<open>b\<close> w1 c p by (cases res) (auto simp: wait_next_event_def)
      qed
    qed
  qed
qed

end

section \<open>Progress\<close>

text \<open>
  A kernel whose \<^verbatim>\<open>poll\<close> works as documented when it may wait for ever: it returns when a requested event has
  occurred. There is no error or hangup.
\<close>

definition responsive :: "'addr kernel \<Rightarrow> bool" where
  "responsive K \<longleftrightarrow>
     (\<forall>es ps t. (\<forall>p \<in> set ps. pfd_events p \<in> {0, POLLIN, POLLOUT}) \<and> (\<exists>p \<in> set ps. pfd_events p \<noteq> 0) \<longrightarrow>
        (\<exists>n rev. k_poll K es ps t = Inr (n, rev) \<and> n \<noteq> 0 \<and>
           (\<forall>i < length ps. rev i AND (POLLERR OR POLLNVAL) = 0 \<and> rev i AND POLLHUP = 0) \<and>
           (\<exists>i < length ps. rev i AND pfd_events (ps ! i) \<noteq> 0)))"

text \<open>
  Rules that get somewhere: a callback that its rule is interested in makes a measure smaller, no callback takes the
  interest of another rule away, and nothing throws.
\<close>

locale rules_progress = rules_contract R before I gone "\<lambda>_. False" for R :: "'u rule set" and before I gone +
  fixes mu :: "'u world \<Rightarrow> nat"
  assumes callback_mu: "r \<in> R \<Longrightarrow> I w \<Longrightarrow> \<not> over r (fst w) \<Longrightarrow> ru_callback r w = Inr w' \<Longrightarrow> mu w' \<le> mu w"
    and callback_progress: "r \<in> R \<Longrightarrow> I w \<Longrightarrow> ru_interest r w \<Longrightarrow> \<not> over r (fst w) \<Longrightarrow> ru_callback r w = Inr w' \<Longrightarrow> mu w' < mu w"
    and callback_keeps: "r \<in> R \<Longrightarrow> s \<in> R \<Longrightarrow> r \<noteq> s \<Longrightarrow> I w \<Longrightarrow> \<not> over r (fst w) \<Longrightarrow> ru_callback r w = Inr w' \<Longrightarrow>
      ru_interest s w \<Longrightarrow> \<not> over s (fst w) \<Longrightarrow> ru_interest s w'"
    and cancel_mu: "r \<in> R \<Longrightarrow> I w \<Longrightarrow> over r (fst w) \<or> hung_up (fst w) \<Longrightarrow> ru_cancel r w = Inr w' \<Longrightarrow> mu w' \<le> mu w"
    and poll_mu: "mu (log_event os (Ev_poll rs), u) = mu (os, u)"
    and poll_interest: "r \<in> R \<Longrightarrow> ru_interest r (log_event os (Ev_poll rs), u) = ru_interest r (os, u)"
begin

definition offered :: "'u rule list \<Rightarrow> pollfd list \<Rightarrow> 'u world \<Rightarrow> bool" where
  "offered rules ps w \<longleftrightarrow>
     list_all2 (\<lambda>r p. pfd_events p \<noteq> 0 \<longrightarrow> ru_interest r w \<and> \<not> over r (fst w)) rules ps"

lemma callback_total: "r \<in> R \<Longrightarrow> I w \<Longrightarrow> \<not> over r (fst w) \<Longrightarrow> \<exists>w'. ru_callback r w = Inr w'"
  using callback_throws [of r w] by (cases "ru_callback r w") auto

lemma offered_callback:
  assumes "offered rules ps w" and "r \<in> R" and "set rules \<subseteq> R" and "r \<notin> set rules" and "I w" and "\<not> over r (fst w)" and "ru_callback r w = Inr w'"
  shows "offered rules ps w'"
  unfolding offered_def
proof (rule list_all2_all_nthI)
  show "length rules = length ps" using assms(1) by (simp add: offered_def list_all2_lengthD)
  fix n
  assume n: "n < length rules"
  then have s: "rules ! n \<in> R" "r \<noteq> rules ! n" using assms(3,4) by auto
  show "pfd_events (ps ! n) \<noteq> 0 \<longrightarrow> ru_interest (rules ! n) w' \<and> \<not> over (rules ! n) (fst w')"
    using callback_keeps [OF assms(2) s assms(5-7)] callback_live [OF assms(2) s assms(5-7)] list_all2_nthD [OF assms(1) [unfolded offered_def] n] by blast
qed

lemma poll_results_progress:
  assumes "set rules \<subseteq> R" and "distinct rules" and "I w" and "offered rules ps w" and "\<not> hung_up (fst w)"
    and "\<forall>p \<in> set ps. pfd_revents p AND (POLLERR OR POLLNVAL) = 0 \<and> pfd_revents p AND POLLHUP = 0"
  shows "\<exists>w'. poll_results rules ps w = Inr (rules, w') \<and> I w' \<and> mu w' \<le> mu w \<and> \<not> hung_up (fst w') \<and>
    (\<forall>s \<in> R. gone s w \<longrightarrow> gone s w') \<and> ((\<exists>p \<in> set ps. pfd_revents p AND pfd_events p \<noteq> 0) \<longrightarrow> mu w' < mu w)"
  using assms
proof (induction rules arbitrary: ps w)
  case Nil
  then have "ps = []" by (simp add: offered_def)
  with Nil show ?case by simp
next
  case (Cons r rules)
  obtain p qs where ps: "ps = p # qs" using Cons.prems(4) by (auto simp: offered_def list_all2_Cons1)
  have R: "r \<in> R" "set rules \<subseteq> R" "r \<notin> set rules" "distinct rules" using Cons.prems by simp_all
  have o: "pfd_events p \<noteq> 0 \<longrightarrow> ru_interest r w \<and> \<not> over r (fst w)" "offered rules qs w"
    using Cons.prems(4) ps by (simp_all add: offered_def)
  have q: "\<forall>p \<in> set qs. pfd_revents p AND (POLLERR OR POLLNVAL) = 0 \<and> pfd_revents p AND POLLHUP = 0"
    using Cons.prems(6) ps by simp
  have e: "pfd_revents p AND (POLLERR OR POLLNVAL) = 0" "pfd_revents p AND POLLHUP = 0" using Cons.prems(6) ps by simp_all
  show ?case
  proof (cases "pfd_revents p AND pfd_events p \<noteq> 0")
    case True
    then have "pfd_events p \<noteq> 0" by auto
    with o(1) have i: "ru_interest r w" "\<not> over r (fst w)" by simp_all
    obtain w1 where c: "ru_callback r w = Inr w1" using callback_total [OF R(1) Cons.prems(3) i(2)] by blast
    have w1: "I w1" "mu w1 < mu w" "\<not> hung_up (fst w1)"
      "\<not> (service_count r (fst w) = service_count r (fst w1) \<and> ru_interest r w1)" "\<forall>s \<in> R. gone s w \<longrightarrow> gone s w1"
      using callback_invar [OF R(1) Cons.prems(3) i(2) c] callback_progress [OF R(1) Cons.prems(3) i c]
        callback_log [OF R(1) Cons.prems(3) i(2) c] Cons.prems(5) callback_serves [OF R(1) Cons.prems(3) i(2) c]
        callback_gone [OF R(1) _ Cons.prems(3) i(2) c] by auto
    obtain w' where w': "poll_results rules qs w1 = Inr (rules, w')" "I w'" "mu w' \<le> mu w1" "\<not> hung_up (fst w')" "\<forall>s \<in> R. gone s w1 \<longrightarrow> gone s w'"
      using Cons.IH [OF R(2,4) w1(1) offered_callback [OF o(2) R(1-3) Cons.prems(3) i(2) c] w1(3) q] by blast
    moreover have "poll_results (r # rules) ps w = Inr (r # rules, w')" using ps True e c w1 w'(1) by auto
    ultimately show ?thesis using w1 by (intro exI [of _ w']) auto
  next
    case False
    obtain w' where w': "poll_results rules qs w = Inr (rules, w')" "I w'" "mu w' \<le> mu w" "\<not> hung_up (fst w')" "\<forall>s \<in> R. gone s w \<longrightarrow> gone s w'"
      "(\<exists>p \<in> set qs. pfd_revents p AND pfd_events p \<noteq> 0) \<longrightarrow> mu w' < mu w"
      using Cons.IH [OF R(2,4) Cons.prems(3) o(2) Cons.prems(5) q] by blast
    moreover have "poll_results (r # rules) ps w = Inr (r # rules, w')" using ps False e w'(1) by simp
    ultimately show ?thesis using ps False by (intro exI [of _ w']) auto
  qed
qed

lemma poll_setup_mu: "poll_setup rules w = Inr (rules', ps, b, w') \<Longrightarrow> set rules \<subseteq> R \<Longrightarrow> I w \<Longrightarrow> mu w' \<le> mu w \<and> hung_up (fst w') = hung_up (fst w)"
proof (induction rules arbitrary: w rules' ps b)
  case (Cons r rules)
  show ?case
  proof (cases "over r (fst w)")
    case True
    then obtain w1 where w1: "ru_cancel r w = Inr w1" "poll_setup rules w1 = Inr (rules', ps, b, w')"
      using Cons.prems(1) by (auto simp: poll_setup_over bind_res_Inr_iff simp del: poll_setup.simps)
    then have "r \<in> R" "set rules \<subseteq> R" using Cons.prems by simp_all
    with Cons.IH [OF w1(2)] show ?thesis
      using cancel_invar [OF _ Cons.prems(3) _ w1(1)] cancel_mu [OF _ Cons.prems(3) _ w1(1)] cancel_log [OF _ Cons.prems(3) _ w1(1)] True by auto
  next
    case False
    then obtain rules1 ps1 b1 where "poll_setup rules w = Inr (rules1, ps1, b1, w')"
      using Cons.prems(1) by (auto simp: poll_setup_over bind_res_Inr_iff simp del: poll_setup.simps)
    from Cons.IH [OF this] Cons.prems show ?thesis by simp
  qed
qed simp

lemma set_up_offered: "set_up rules ps w \<Longrightarrow> offered rules ps w"
  unfolding set_up_def offered_def by (erule list_all2_mono) (auto split: if_splits)

lemma offered_log:
  assumes "offered rules ps (os, u)" and "set rules \<subseteq> R" and "length ps' = length ps" and "\<forall>i < length ps. pfd_events (ps' ! i) = pfd_events (ps ! i)"
  shows "offered rules ps' (log_event os (Ev_poll rs), u)"
  using assms poll_interest by (auto simp: offered_def list_all2_conv_all_nth over_log subset_iff)

lemma set_up_events:
  assumes "set_up rules ps w"
  shows "\<forall>p \<in> set ps. pfd_events p \<in> {0, POLLIN, POLLOUT}"
proof
  fix p
  assume "p \<in> set ps"
  then obtain i where "i < length ps" "p = ps ! i" by (auto simp: in_set_conv_nth)
  then have "pfd_events p = (if ru_interest (rules ! i) w then direction_events (ru_direction (rules ! i)) else 0)"
    using assms by (auto simp: set_up_def list_all2_conv_all_nth)
  then show "pfd_events p \<in> {0, POLLIN, POLLOUT}" by (cases "ru_direction (rules ! i)") auto
qed

lemma wait_next_event_progress:
  assumes "loop_ok rules w" and "responsive K" and "\<not> hung_up (fst w)"
  shows "\<exists>res rules' w'. wait_next_event K t rules w = Inr (res, rules', w') \<and> loop_ok rules' w' \<and> \<not> hung_up (fst w') \<and>
    (if res = Exit then \<forall>r \<in> set rules'. \<not> ru_interest r w' else mu w' < mu w)"
proof -
  have l: "set rules \<subseteq> R" "I w" "sorted_wrt before rules" using assms(1) by (simp_all add: loop_ok_def)
  from poll_setup_ok [OF this] obtain rules1 ps b w1 where
    s: "poll_setup rules w = Inr (rules1, ps, b, w1)" and k: "kept rules w rules1 w1" and u: "set_up rules1 ps w1"
      and b: "b \<longleftrightarrow> (\<exists>p \<in> set ps. pfd_events p \<noteq> 0)" by blast
  have l1: "loop_ok rules1 w1" using kept_loop_ok [OF assms(1) k] .
  have m: "mu w1 \<le> mu w" "\<not> hung_up (fst w1)" using poll_setup_mu [OF s l(1,2)] assms(3) by simp_all
  show ?thesis
  proof (cases b)
    case False
    then show ?thesis using s b l1 m(2) set_up_interest [OF u] by (simp add: wait_next_event_def)
  next
    case True
    obtain os1 u1 where w1: "w1 = (os1, u1)" by (cases w1)
    obtain n rev where p: "k_poll K (os_events os1) ps t = Inr (n, rev)" "n \<noteq> 0"
      "\<forall>i < length ps. rev i AND (POLLERR OR POLLNVAL) = 0 \<and> rev i AND POLLHUP = 0" "\<exists>i < length ps. rev i AND pfd_events (ps ! i) \<noteq> 0"
      using assms(2) True b set_up_events [OF u] unfolding responsive_def by blast
    define ps' where "ps' = map (\<lambda>(i, p). p\<lparr>pfd_revents := rev i\<rparr>) (enumerate 0 ps)"
    define os' where "os' = log_event os1 (Ev_poll (map pfd_revents ps'))"
    have ps': "length ps' = length ps" "\<And>i. i < length ps \<Longrightarrow> pfd_events (ps' ! i) = pfd_events (ps ! i) \<and> pfd_revents (ps' ! i) = rev i"
      by (simp_all add: ps'_def nth_enumerate_eq)
    have c: "poll_call K ps t os1 = (os', Success, ps')" using p(1,2) by (simp add: poll_call_def ps'_def os'_def Let_def)
    have calm: "\<forall>p \<in> set ps'. pfd_revents p AND (POLLERR OR POLLNVAL) = 0 \<and> pfd_revents p AND POLLHUP = 0"
      using p(3) ps' by (auto simp: in_set_conv_nth)
    have ready: "\<exists>p \<in> set ps'. pfd_revents p AND pfd_events p \<noteq> 0"
      using p(4) ps' by (metis nth_mem)
    have l2: "loop_ok rules1 (os', u1)" using loop_ok_log(1) [OF l1 [unfolded w1]] by (simp add: os'_def)
    then have l3: "set rules1 \<subseteq> R" "distinct rules1" "I (os', u1)" using sorted_distinct by (simp_all add: loop_ok_def)
    have h: "\<not> hung_up (fst (os', u1))" using m(2) calm w1 by (auto simp: hung_up_def os'_def)
    have "offered rules1 ps' (os', u1)"
      using offered_log [OF set_up_offered [OF u [unfolded w1]] l3(1)] ps' by (simp add: os'_def)
    from poll_results_progress [OF l3 this h calm] ready obtain w' where
      w': "poll_results rules1 ps' (os', u1) = Inr (rules1, w')" "I w'" "\<not> hung_up (fst w')" "\<forall>s \<in> R. gone s (os', u1) \<longrightarrow> gone s w'" "mu w' < mu (os', u1)"
      by blast
    moreover have "loop_ok rules1 w'" using l2 w'(2,4) by (auto simp: loop_ok_def)
    moreover have "mu (os', u1) \<le> mu w" using m(1) w1 poll_mu by (simp add: os'_def)
    ultimately show ?thesis using s True w1 c by (simp add: wait_next_event_def)
  qed
qed

end

end
