(* ===== verification/Stream_Copy.thy ===== *)
theory Stream_Copy
  imports Event_Loop Byte_Stream "HOL-Library.Sublist"
begin

text \<open>
  \<^verbatim>\<open>apps/bidirectional_stream_copy.cc\<close>: the program behind the command-line tools, which copies the standard input
  to a socket and the socket to the standard output with an event loop of four rules and two byte streams.
  The descriptors that go out of scope at the end close themselves; that is left out.
\<close>

section \<open>Definitions\<close>

definition max_copy_length :: u64 where "max_copy_length = 65536"
definition copy_buffer_size :: u64 where "copy_buffer_size = 1048576"

definition STDIN_FILENO :: int where "STDIN_FILENO = 0"
definition STDOUT_FILENO :: int where "STDOUT_FILENO = 1"

text \<open>The local variables that the closures share.\<close>

record stream_copy =
  sc_outbound :: byte_stream
  sc_inbound :: byte_stream
  sc_outbound_shutdown :: bool
  sc_inbound_shutdown :: bool

text \<open>The bodies of the rules that read, and of the part of those that write before the end is handled.\<close>

definition read_into :: "'addr kernel \<Rightarrow> nat \<Rightarrow> os \<Rightarrow> byte_stream \<Rightarrow> (os \<times> byte_stream) res" where
  "read_into K fd os stream =
     bind_res (fd_read K os fd (remaining_capacity stream)) (\<lambda>(os, bytes).
       let stream = fst (bs_write stream bytes) in
       Inr (os, if fd_eof os fd then end_input stream else stream))"

definition write_from :: "'addr kernel \<Rightarrow> nat \<Rightarrow> os \<Rightarrow> byte_stream \<Rightarrow> (os \<times> byte_stream) res" where
  "write_from K fd os stream =
     (let bytes_to_write = min max_copy_length (buffer_size stream) in
      bind_res (fd_write K os fd [peek_output stream bytes_to_write] False) (\<lambda>(os, bytes_written).
        Inr (os, pop_output stream bytes_written)))"

definition copy_rule1 :: "'addr kernel \<Rightarrow> nat \<Rightarrow> stream_copy rule" where
  "copy_rule1 K input =
     \<lparr>ru_fd = input, ru_direction = In,
      ru_callback = (\<lambda>(os, u). bind_res (read_into K input os (sc_outbound u)) (\<lambda>(os, s). Inr (os, u\<lparr>sc_outbound := s\<rparr>))),
      ru_interest = (\<lambda>(os, u). \<not> bs_error (sc_outbound u) \<and> 0 < remaining_capacity (sc_outbound u) \<and> \<not> bs_error (sc_inbound u)),
      ru_cancel = (\<lambda>(os, u). Inr (os, u\<lparr>sc_outbound := end_input (sc_outbound u)\<rparr>))\<rparr>"

definition copy_rule2 :: "'addr kernel \<Rightarrow> nat \<Rightarrow> stream_copy rule" where
  "copy_rule2 K socket =
     \<lparr>ru_fd = socket, ru_direction = Out,
      ru_callback = (\<lambda>(os, u). bind_res (write_from K socket os (sc_outbound u)) (\<lambda>(os, s).
        let u = u\<lparr>sc_outbound := s\<rparr> in
        if bs_eof (sc_outbound u) then
          bind_res (socket_shutdown K os socket SHUT_WR) (\<lambda>os. Inr (os, u\<lparr>sc_outbound_shutdown := True\<rparr>))
        else Inr (os, u))),
      ru_interest = (\<lambda>(os, u). \<not> buffer_empty (sc_outbound u) \<or> bs_eof (sc_outbound u) \<and> \<not> sc_outbound_shutdown u),
      ru_cancel = (\<lambda>(os, u). Inr (os, u\<lparr>sc_outbound := end_input (sc_outbound u)\<rparr>))\<rparr>"

definition copy_rule3 :: "'addr kernel \<Rightarrow> nat \<Rightarrow> stream_copy rule" where
  "copy_rule3 K socket =
     \<lparr>ru_fd = socket, ru_direction = In,
      ru_callback = (\<lambda>(os, u). bind_res (read_into K socket os (sc_inbound u)) (\<lambda>(os, s). Inr (os, u\<lparr>sc_inbound := s\<rparr>))),
      ru_interest = (\<lambda>(os, u). \<not> bs_error (sc_inbound u) \<and> 0 < remaining_capacity (sc_inbound u) \<and> \<not> bs_error (sc_outbound u)),
      ru_cancel = (\<lambda>(os, u). Inr (os, u\<lparr>sc_inbound := end_input (sc_inbound u)\<rparr>))\<rparr>"

definition copy_rule4 :: "'addr kernel \<Rightarrow> nat \<Rightarrow> stream_copy rule" where
  "copy_rule4 K output =
     \<lparr>ru_fd = output, ru_direction = Out,
      ru_callback = (\<lambda>(os, u). bind_res (write_from K output os (sc_inbound u)) (\<lambda>(os, s).
        let u = u\<lparr>sc_inbound := s\<rparr> in
        if bs_eof (sc_inbound u) then
          bind_res (fd_close K os output) (\<lambda>os. Inr (os, u\<lparr>sc_inbound_shutdown := True\<rparr>))
        else Inr (os, u))),
      ru_interest = (\<lambda>(os, u). \<not> buffer_empty (sc_inbound u) \<or> bs_eof (sc_inbound u) \<and> \<not> sc_inbound_shutdown u),
      ru_cancel = (\<lambda>(os, u). Inr (os, u\<lparr>sc_inbound := end_input (sc_inbound u)\<rparr>))\<rparr>"

definition add_copy_rule :: "stream_copy rule list \<Rightarrow> stream_copy rule \<Rightarrow> stream_copy rule list" where
  "add_copy_rule rules r = add_rule rules (ru_fd r) (ru_direction r) (ru_callback r) (ru_interest r) (ru_cancel r)"

definition copy_rules :: "'addr kernel \<Rightarrow> nat \<Rightarrow> nat \<Rightarrow> nat \<Rightarrow> stream_copy rule list" where
  "copy_rules K input output socket =
     foldl add_copy_rule [] [copy_rule1 K input, copy_rule2 K socket, copy_rule3 K socket, copy_rule4 K output]"

text \<open>The loop until completion; it may not end, and then has the value \<open>None\<close>.\<close>

partial_function (option) copy_loop ::
  "'addr kernel \<Rightarrow> stream_copy rule list \<Rightarrow> stream_copy world \<Rightarrow> stream_copy world res option" where
  "copy_loop K rules w =
     (case wait_next_event K (-1) rules w of
        Inl e \<Rightarrow> Some (Inl e)
      | Inr (res, rules, w) \<Rightarrow> if res = Exit then Some (Inr w) else copy_loop K rules w)"

definition stream_copy_start :: "'addr kernel \<Rightarrow> os \<Rightarrow> nat \<Rightarrow> (stream_copy rule list \<times> stream_copy world) res" where
  "stream_copy_start K os socket =
     bind_res (FileDescriptor os STDIN_FILENO) (\<lambda>(os, input).
     bind_res (FileDescriptor os STDOUT_FILENO) (\<lambda>(os, output).
     let u = \<lparr>sc_outbound = ByteStream copy_buffer_size, sc_inbound = ByteStream copy_buffer_size,
              sc_outbound_shutdown = False, sc_inbound_shutdown = False\<rparr>
     in
     bind_res (set_blocking K os socket False) (\<lambda>os.
     bind_res (set_blocking K os input False) (\<lambda>os.
     bind_res (set_blocking K os output False) (\<lambda>os.
       Inr (copy_rules K input output socket, (os, u)))))))"

definition bidirectional_stream_copy :: "'addr kernel \<Rightarrow> os \<Rightarrow> nat \<Rightarrow> stream_copy world res option" where
  "bidirectional_stream_copy K os socket =
     (case stream_copy_start K os socket of
        Inl e \<Rightarrow> Some (Inl e)
      | Inr (rules, w) \<Rightarrow> copy_loop K rules w)"

section \<open>One direction\<close>

text \<open>
  A direction of the copy: what was read from its source is what was written to its sink followed by the buffered
  bytes. Only after a hangup has ended the stream early, bytes are read that are lost.
\<close>

definition copying :: "bool \<Rightarrow> byte list \<Rightarrow> byte list \<Rightarrow> byte_stream \<Rightarrow> bool" where
  "copying hup src dst s \<longleftrightarrow>
     bs_inv s \<and> bs_capacity s = copy_buffer_size \<and> \<not> bs_error s \<and>
     (\<exists>lost. src = dst @ bs_byte_stream s @ lost \<and> (lost \<noteq> [] \<longrightarrow> hup \<and> bs_input_end s))"

lemma copying_end [simp]: "copying hup src dst s \<Longrightarrow> copying hup src dst (end_input s)"
  by (auto simp: copying_def)

lemma copying_hup: "copying hup src dst s \<Longrightarrow> (hup \<longrightarrow> hup') \<Longrightarrow> copying hup' src dst s"
  by (auto simp: copying_def)

lemma read_into_ok:
  assumes "read_into K h os s = Inr (os', s')" and "copying hup src dst s" and "\<not> hup \<longrightarrow> \<not> bs_input_end s"
  shows "\<exists>bytes. os_events os' = os_events os @ [Ev_read (fd_num os h) bytes] \<and> copying hup (src @ bytes) dst s' \<and>
      fd_eof os' h = (fd_eof os h \<or> 0 < remaining_capacity s \<and> bytes = []) \<and>
      length (bs_byte_stream s') \<le> length (bs_byte_stream s) + length bytes"
    and "touches h os os'" and "read_count os' h = read_count os h + 1" and "fd_closed os' h = fd_closed os h"
    and "bs_input_end s' = (bs_input_end s \<or> fd_eof os' h)"
    and "bs_byte_stream s \<noteq> [] \<Longrightarrow> bs_byte_stream s' \<noteq> []" and "bs_eof s \<Longrightarrow> bs_eof s'"
proof -
  obtain bytes where r: "fd_read K os h (remaining_capacity s) = Inr (os', bytes)"
    and s': "s' = (if fd_eof os' h then end_input (fst (bs_write s bytes)) else fst (bs_write s bytes))"
    using assms(1) by (auto simp: read_into_def bind_res_Inr_iff Let_def)
  have inv: "bs_inv s" using assms(2) by (simp add: copying_def)
  have c: "copying hup (src @ bytes) dst (fst (bs_write s bytes))"
  proof (cases "bs_input_end s")
    case True
    with assms(3) have "hup" by simp
    then show ?thesis using assms(2) True by (auto simp: copying_def bs_write_def input_ended_def)
  next
    case False
    then have "snd (bs_write s bytes) = length bytes"
      using bs_write_count [OF inv, of bytes] fd_read_ok(2) [OF r] by (simp add: input_ended_def)
    then show ?thesis using assms(2) False bs_write_inv [OF inv, of bytes] by (auto simp: copying_def bs_write_stream)
  qed
  show "\<exists>bytes. os_events os' = os_events os @ [Ev_read (fd_num os h) bytes] \<and> copying hup (src @ bytes) dst s' \<and>
      fd_eof os' h = (fd_eof os h \<or> 0 < remaining_capacity s \<and> bytes = []) \<and>
      length (bs_byte_stream s') \<le> length (bs_byte_stream s) + length bytes"
    using fd_read_ok [OF r] c s' by (intro exI [of _ bytes]) (auto simp: bs_write_stream)
  show "touches h os os'" "read_count os' h = read_count os h + 1" "fd_closed os' h = fd_closed os h"
    using fd_read_ok [OF r] by simp_all
  show "bs_input_end s' = (bs_input_end s \<or> fd_eof os' h)" using s' by simp
  show "bs_byte_stream s \<noteq> [] \<Longrightarrow> bs_byte_stream s' \<noteq> []" using s' by (simp add: bs_write_stream)
  show "bs_eof s \<Longrightarrow> bs_eof s'" using s' by (auto simp: bs_eof_def buffer_empty_def bs_write_def input_ended_def)
qed

lemma write_from_ok:
  assumes "write_from K h os s = Inr (os', s')" and "copying hup src dst s"
  shows "\<exists>out. os_events os' = os_events os @ [Ev_write (fd_num os h) out] \<and> copying hup src (dst @ out) s' \<and>
      length (bs_byte_stream s') + length out = length (bs_byte_stream s) \<and> (bs_byte_stream s \<noteq> [] \<longrightarrow> out \<noteq> [])"
    and "touches h os os'" and "write_count os' h = write_count os h + 1" and "fd_closed os' h = fd_closed os h"
    and "fd_eof os' h = fd_eof os h" and "bs_input_end s' = bs_input_end s"
proof -
  let ?v = "peek_output s (min max_copy_length (buffer_size s))"
  obtain n where w: "fd_write K os h [?v] False = Inr (os', n)" and s': "s' = pop_output s n"
    using assms(1) by (auto simp: write_from_def Let_def bind_res_Inr_iff)
  have v: "?v = take max_copy_length (bs_byte_stream s)" by (simp add: peek_output_eq buffer_size_def min_def)
  have n: "n \<le> length ?v" using fd_write_ok(2) [OF w] .
  then have out: "take n ?v = take n (bs_byte_stream s)" unfolding v by (auto simp: min_def split: if_splits)
  have "bs_byte_stream s \<noteq> [] \<longrightarrow> ?v \<noteq> []" unfolding v by (simp add: max_copy_length_def)
  then have pos: "bs_byte_stream s \<noteq> [] \<longrightarrow> 0 < n" using fd_write_ok(7) [OF w] by blast
  obtain lost where "src = dst @ bs_byte_stream s @ lost" "lost \<noteq> [] \<longrightarrow> hup \<and> bs_input_end s"
    using assms(2) by (auto simp: copying_def)
  then have "copying hup src (dst @ take n (bs_byte_stream s)) s'"
    using assms(2) pop_output_inv [of s n] s' by (auto simp: copying_def pop_output_stream intro!: exI [of _ lost])
  then show "\<exists>out. os_events os' = os_events os @ [Ev_write (fd_num os h) out] \<and> copying hup src (dst @ out) s' \<and>
      length (bs_byte_stream s') + length out = length (bs_byte_stream s) \<and> (bs_byte_stream s \<noteq> [] \<longrightarrow> out \<noteq> [])"
    using fd_write_ok(1) [OF w] pos s' unfolding out
    by (intro exI [of _ "take n (bs_byte_stream s)"]) (auto simp: pop_output_stream)
  show "touches h os os'" "write_count os' h = write_count os h + 1" "fd_closed os' h = fd_closed os h" "fd_eof os' h = fd_eof os h"
    using fd_write_ok [OF w] by simp_all
  show "bs_input_end s' = bs_input_end s" using s' by simp
qed

lemma read_into_fault: "read_into K h os s = Inl e \<Longrightarrow> kernel_fault e"
  by (auto simp: read_into_def bind_res_def Let_def dest: fd_read_fault split: sum.splits)

lemma write_from_fault: "write_from K h os s = Inl e \<Longrightarrow> kernel_fault e"
  by (auto simp: write_from_def bind_res_def Let_def dest: fd_write_fault split: sum.splits)

section \<open>The four rules\<close>

definition copy_rule_set :: "'addr kernel \<Rightarrow> nat \<Rightarrow> nat \<Rightarrow> nat \<Rightarrow> stream_copy rule set" where
  "copy_rule_set K i o' s = {copy_rule1 K i, copy_rule2 K s, copy_rule3 K s, copy_rule4 K o'}"

lemmas copy_rule_defs = copy_rule1_def copy_rule2_def copy_rule3_def copy_rule4_def

text \<open>The position of a rule in the list.\<close>

definition copy_pos :: "nat \<Rightarrow> nat \<Rightarrow> stream_copy rule \<Rightarrow> nat" where
  "copy_pos i s r = (if ru_fd r = i then 0 else if ru_fd r = s then if ru_direction r = Out then 1 else 2 else 3)"

definition copy_before :: "nat \<Rightarrow> nat \<Rightarrow> stream_copy rule \<Rightarrow> stream_copy rule \<Rightarrow> bool" where
  "copy_before i s r r' \<longleftrightarrow> copy_pos i s r < copy_pos i s r'"

fun copy_inv :: "nat \<Rightarrow> nat \<Rightarrow> nat \<Rightarrow> int \<Rightarrow> stream_copy world \<Rightarrow> bool" where
  "copy_inv i o' s n (os, u) \<longleftrightarrow>
     distinct [i, o', s] \<and> n \<noteq> STDIN_FILENO \<and> n \<noteq> STDOUT_FILENO \<and>
     fd_num os i = STDIN_FILENO \<and> fd_num os o' = STDOUT_FILENO \<and> fd_num os s = n \<and>
     copying (hung_up os) (got STDIN_FILENO (os_events os)) (given n (os_events os)) (sc_outbound u) \<and>
     copying (hung_up os) (got n (os_events os)) (given STDOUT_FILENO (os_events os)) (sc_inbound u) \<and>
     \<not> fd_closed os i \<and> \<not> fd_closed os s \<and>
     (sc_outbound_shutdown u \<longrightarrow> bs_eof (sc_outbound u) \<and> Ev_call ''shutdown'' n SHUT_WR \<in> set (os_events os)) \<and>
     (sc_inbound_shutdown u \<longrightarrow> bs_eof (sc_inbound u) \<and> fd_closed os o') \<and>
     (fd_closed os o' \<longrightarrow> sc_inbound_shutdown u) \<and>
     (\<not> hung_up os \<longrightarrow> (bs_input_end (sc_outbound u) \<longrightarrow> fd_eof os i) \<and> (bs_input_end (sc_inbound u) \<longrightarrow> fd_eof os s))"

fun copy_gone :: "nat \<Rightarrow> nat \<Rightarrow> nat \<Rightarrow> stream_copy rule \<Rightarrow> stream_copy world \<Rightarrow> bool" where
  "copy_gone i o' s r (os, u) \<longleftrightarrow>
     (if copy_pos i s r = 0 then bs_input_end (sc_outbound u) \<and> (fd_eof os i \<or> hung_up os)
      else if copy_pos i s r = 1 then hung_up os
      else if copy_pos i s r = 2 then bs_input_end (sc_inbound u) \<and> (fd_eof os s \<or> hung_up os)
      else fd_closed os o' \<or> hung_up os)"

lemma hung_up_append [simp]:
  "os_events os' = os_events os @ [Ev_read f bs] \<Longrightarrow> hung_up os' = hung_up os"
  "os_events os' = os_events os @ [Ev_write f bs] \<Longrightarrow> hung_up os' = hung_up os"
  "os_events os' = os_events os @ [Ev_call name f a] \<Longrightarrow> hung_up os' = hung_up os"
  by (auto simp: hung_up_def)

lemma bs_eof_write: "bs_eof s \<Longrightarrow> bs_input_end s' = bs_input_end s \<Longrightarrow> length (bs_byte_stream s') \<le> length (bs_byte_stream s) \<Longrightarrow> bs_eof s'"
  by (simp add: bs_eof_def buffer_empty_def)

lemma copy_callback1:
  assumes "copy_inv i o' s n (os, u)" and "\<not> fd_eof os i" and "ru_callback (copy_rule1 K i) (os, u) = Inr (os', u')"
  shows "copy_inv i o' s n (os', u')" and "touches i os os'" and "read_count os' i = read_count os i + 1" and "hung_up os' = hung_up os"
    and "fd_closed os' i = fd_closed os i" and "bs_input_end (sc_outbound u) \<Longrightarrow> bs_input_end (sc_outbound u')"
    and "sc_inbound u' = sc_inbound u"
proof -
  obtain s' where r: "read_into K i os (sc_outbound u) = Inr (os', s')" and u': "u' = u\<lparr>sc_outbound := s'\<rparr>"
    using assms(3) by (auto simp: copy_rule1_def bind_res_Inr_iff)
  have c: "copying (hung_up os) (got STDIN_FILENO (os_events os)) (given n (os_events os)) (sc_outbound u)"
    "\<not> hung_up os \<longrightarrow> \<not> bs_input_end (sc_outbound u)" using assms(1,2) by auto
  note ok = read_into_ok [OF r c]
  from ok(1) obtain bytes where ev: "os_events os' = os_events os @ [Ev_read (fd_num os i) bytes]"
    and c': "copying (hung_up os) (got STDIN_FILENO (os_events os) @ bytes) (given n (os_events os)) s'" 
    by blast
  show h: "hung_up os' = hung_up os" using ev by simp
  show "touches i os os'" "read_count os' i = read_count os i + 1" "fd_closed os' i = fd_closed os i" using ok by simp_all
  show "bs_input_end (sc_outbound u) \<Longrightarrow> bs_input_end (sc_outbound u')" "sc_inbound u' = sc_inbound u" using ok(5) u' by simp_all
  have i: "i \<noteq> o'" "i \<noteq> s" "o' \<noteq> s" "fd_num os i = STDIN_FILENO" "n \<noteq> STDIN_FILENO" using assms(1) by auto
  show "copy_inv i o' s n (os', u')"
    using assms(1,2) ev c' ok(4,5,7) u' i touchesD [OF ok(2)] h by auto
qed

lemma copy_callback3:
  assumes "copy_inv i o' s n (os, u)" and "\<not> fd_eof os s" and "ru_callback (copy_rule3 K s) (os, u) = Inr (os', u')"
  shows "copy_inv i o' s n (os', u')" and "touches s os os'" and "read_count os' s = read_count os s + 1" and "hung_up os' = hung_up os"
    and "fd_closed os' s = fd_closed os s" and "bs_input_end (sc_inbound u) \<Longrightarrow> bs_input_end (sc_inbound u')"
    and "sc_outbound u' = sc_outbound u"
proof -
  obtain s' where r: "read_into K s os (sc_inbound u) = Inr (os', s')" and u': "u' = u\<lparr>sc_inbound := s'\<rparr>"
    using assms(3) by (auto simp: copy_rule3_def bind_res_Inr_iff)
  have c: "copying (hung_up os) (got n (os_events os)) (given STDOUT_FILENO (os_events os)) (sc_inbound u)"
    "\<not> hung_up os \<longrightarrow> \<not> bs_input_end (sc_inbound u)" using assms(1,2) by auto
  note ok = read_into_ok [OF r c]
  from ok(1) obtain bytes where ev: "os_events os' = os_events os @ [Ev_read (fd_num os s) bytes]"
    and c': "copying (hung_up os) (got n (os_events os) @ bytes) (given STDOUT_FILENO (os_events os)) s'" 
    by blast
  show h: "hung_up os' = hung_up os" using ev by simp
  show "touches s os os'" "read_count os' s = read_count os s + 1" "fd_closed os' s = fd_closed os s" using ok by simp_all
  show "bs_input_end (sc_inbound u) \<Longrightarrow> bs_input_end (sc_inbound u')" "sc_outbound u' = sc_outbound u" using ok(5) u' by simp_all
  have i: "i \<noteq> o'" "i \<noteq> s" "o' \<noteq> s" "fd_num os s = n" "n \<noteq> STDIN_FILENO" using assms(1) by auto
  show "copy_inv i o' s n (os', u')"
    using assms(1,2) ev c' ok(4,5,7) u' i touchesD [OF ok(2)] h by auto
qed

lemma write_step:
  assumes "write_from K h os s = Inr (os1, s')" and "copying hup src dst s"
    and "if bs_eof s' then os_events os' = os_events os1 @ [Ev_call name (fd_num os1 h) a] \<and> touches h os1 os' \<and>
        write_count os' h = write_count os1 h + k else os' = os1"
  shows "\<exists>out. os_events os' = os_events os @ [Ev_write (fd_num os h) out] @ (if bs_eof s' then [Ev_call name (fd_num os h) a] else []) \<and>
      copying hup src (dst @ out) s' \<and> length (bs_byte_stream s') + length out = length (bs_byte_stream s) \<and> (bs_byte_stream s \<noteq> [] \<longrightarrow> out \<noteq> [])"
    and "touches h os os'" and "write_count os' h = write_count os h + (if bs_eof s' then 1 + k else 1)"
    and "bs_input_end s' = bs_input_end s" and "bs_eof s \<Longrightarrow> bs_eof s'" and "hung_up os' = hung_up os"
proof -
  note ok = write_from_ok [OF assms(1,2)]
  have num: "fd_num os1 h = fd_num os h" using touchesD(1) [OF ok(2)] .
  show e: "\<exists>out. os_events os' = os_events os @ [Ev_write (fd_num os h) out] @ (if bs_eof s' then [Ev_call name (fd_num os h) a] else []) \<and>
      copying hup src (dst @ out) s' \<and> length (bs_byte_stream s') + length out = length (bs_byte_stream s) \<and> (bs_byte_stream s \<noteq> [] \<longrightarrow> out \<noteq> [])"
    using ok(1) assms(3) num by (auto split: if_splits)
  show "touches h os os'" using ok(2) assms(3) touches_trans by (auto split: if_splits)
  show "write_count os' h = write_count os h + (if bs_eof s' then 1 + k else 1)" using ok(3) assms(3) by (auto split: if_splits)
  show "bs_input_end s' = bs_input_end s" by (rule ok(6))
  show "bs_eof s \<Longrightarrow> bs_eof s'" using e ok(6) by (auto intro: bs_eof_write)
  show "hung_up os' = hung_up os" using e by (auto simp: hung_up_def)
qed

lemma copy_callback2:
  assumes "copy_inv i o' s n (os, u)" and "ru_callback (copy_rule2 K s) (os, u) = Inr (os', u')"
  shows "copy_inv i o' s n (os', u')" and "touches s os os'" and "hung_up os' = hung_up os"
    and "write_count os' s \<noteq> write_count os s"
    and "fd_closed os' s = fd_closed os s" and "fd_eof os' s = fd_eof os s"
    and "bs_input_end (sc_outbound u') = bs_input_end (sc_outbound u)" and "sc_inbound u' = sc_inbound u"
proof -
  obtain os1 s' where r: "write_from K s os (sc_outbound u) = Inr (os1, s')"
    and u': "if bs_eof s' then socket_shutdown K os1 s SHUT_WR = Inr os' \<and> u' = u\<lparr>sc_outbound := s', sc_outbound_shutdown := True\<rparr>
      else os' = os1 \<and> u' = u\<lparr>sc_outbound := s'\<rparr>"
    using assms(2) by (auto simp: copy_rule2_def bind_res_Inr_iff Let_def split: if_splits)
  have c: "copying (hung_up os) (got STDIN_FILENO (os_events os)) (given n (os_events os)) (sc_outbound u)" using assms(1) by simp
  have s: "if bs_eof s' then os_events os' = os_events os1 @ [Ev_call ''shutdown'' (fd_num os1 s) SHUT_WR] \<and> touches s os1 os' \<and>
      write_count os' s = write_count os1 s + 1 else os' = os1"
    using u' shutdown_write_ok [of K os1 s os'] by (auto split: if_splits)
  note ok = write_step [OF r c s]
  have i: "i \<noteq> o'" "i \<noteq> s" "o' \<noteq> s" "fd_num os s = n" "n \<noteq> STDOUT_FILENO" using assms(1) by auto
  show h: "hung_up os' = hung_up os" "touches s os os'" using ok by simp_all
  show "write_count os' s \<noteq> write_count os s" using ok(3) by simp
  show eq: "fd_closed os' s = fd_closed os s" "fd_eof os' s = fd_eof os s"
    using write_from_ok(4,5) [OF r c] u' shutdown_write_ok(4,5) [of K os1 s os'] by (auto split: if_splits)
  show "bs_input_end (sc_outbound u') = bs_input_end (sc_outbound u)" "sc_inbound u' = sc_inbound u"
    using u' ok(4) by (auto split: if_splits)
  from ok(1) obtain out where ev: "os_events os' = os_events os @ [Ev_write n out] @ (if bs_eof s' then [Ev_call ''shutdown'' n SHUT_WR] else [])"
    and c': "copying (hung_up os) (got STDIN_FILENO (os_events os)) (given n (os_events os) @ out) s'" unfolding i(4) by auto
  show "copy_inv i o' s n (os', u')"
  proof (cases "bs_eof s'")
    case True
    then have "u' = u\<lparr>sc_outbound := s', sc_outbound_shutdown := True\<rparr>" using u' by simp
    then show ?thesis using assms(1) c' True ev ok(4) i touchesD [OF ok(2)] h eq by simp
  next
    case False
    then have "u' = u\<lparr>sc_outbound := s'\<rparr>" using u' by simp
    then show ?thesis using assms(1) c' False ev ok(4,5) i touchesD [OF ok(2)] h eq by auto
  qed
qed

lemma copy_callback4:
  assumes "copy_inv i o' s n (os, u)" and "\<not> fd_closed os o'" and "ru_callback (copy_rule4 K o') (os, u) = Inr (os', u')"
  shows "copy_inv i o' s n (os', u')" and "touches o' os os'" and "hung_up os' = hung_up os"
    and "write_count os' o' \<noteq> write_count os o'"
    and "bs_input_end (sc_inbound u') = bs_input_end (sc_inbound u)" and "sc_outbound u' = sc_outbound u"
    and "fd_eof os o' \<Longrightarrow> fd_eof os' o'"
proof -
  obtain os1 s' where r: "write_from K o' os (sc_inbound u) = Inr (os1, s')"
    and u': "if bs_eof s' then fd_close K os1 o' = Inr os' \<and> u' = u\<lparr>sc_inbound := s', sc_inbound_shutdown := True\<rparr>
      else os' = os1 \<and> u' = u\<lparr>sc_inbound := s'\<rparr>"
    using assms(3) by (auto simp: copy_rule4_def bind_res_Inr_iff Let_def split: if_splits)
  have c: "copying (hung_up os) (got n (os_events os)) (given STDOUT_FILENO (os_events os)) (sc_inbound u)" using assms(1) by simp
  have s: "if bs_eof s' then os_events os' = os_events os1 @ [Ev_call ''close'' (fd_num os1 o') 0] \<and> touches o' os1 os' \<and>
      write_count os' o' = write_count os1 o' + 0 else os' = os1"
    using u' fd_close_ok [of K os1 o' os'] by (auto split: if_splits)
  note ok = write_step [OF r c s]
  have i: "i \<noteq> o'" "i \<noteq> s" "o' \<noteq> s" "fd_num os o' = STDOUT_FILENO" "n \<noteq> STDOUT_FILENO" using assms(1) by auto
  show h: "hung_up os' = hung_up os" "touches o' os os'" using ok by simp_all
  show "write_count os' o' \<noteq> write_count os o'" using ok(3) by simp
  show "fd_eof os o' \<Longrightarrow> fd_eof os' o'" using write_from_ok(5) [OF r c] u' fd_close_ok(5) [of K os1 o' os'] by (auto split: if_splits)
  show "bs_input_end (sc_inbound u') = bs_input_end (sc_inbound u)" "sc_outbound u' = sc_outbound u"
    using u' ok(4) by (auto split: if_splits)
  from ok(1) obtain out where ev: "os_events os' = os_events os @ [Ev_write STDOUT_FILENO out] @ (if bs_eof s' then [Ev_call ''close'' STDOUT_FILENO 0] else [])"
    and c': "copying (hung_up os) (got n (os_events os)) (given STDOUT_FILENO (os_events os) @ out) s'" unfolding i(4) by auto
  show "copy_inv i o' s n (os', u')"
  proof (cases "bs_eof s'")
    case True
    then have "u' = u\<lparr>sc_inbound := s', sc_inbound_shutdown := True\<rparr>" "fd_closed os' o'" using u' fd_close_ok(4) by auto
    then show ?thesis using assms(1) c' True ev ok(4) i touchesD [OF ok(2)] h by simp
  next
    case False
    then have "u' = u\<lparr>sc_inbound := s'\<rparr>" "\<not> fd_closed os' o'" using u' write_from_ok(4) [OF r c] assms(2) by auto
    then show ?thesis using assms(1) c' False ev ok(4,5) i touchesD [OF ok(2)] h by auto
  qed
qed

lemma bs_eof_end: "bs_eof s \<Longrightarrow> bs_eof (end_input s)"
  by (simp add: bs_eof_def buffer_empty_def)

lemma copy_end:
  assumes "copy_inv i o' s n (os, u)"
  shows "hung_up os \<or> fd_eof os i \<Longrightarrow> copy_inv i o' s n (os, u\<lparr>sc_outbound := end_input (sc_outbound u)\<rparr>)"
    and "hung_up os \<or> fd_eof os s \<or> bs_eof (sc_inbound u) \<Longrightarrow> copy_inv i o' s n (os, u\<lparr>sc_inbound := end_input (sc_inbound u)\<rparr>)"
  using assms bs_eof_end by (auto simp: bs_eof_def)

lemma copy_rule_cases:
  assumes "r \<in> copy_rule_set K i o' s"
  obtains "r = copy_rule1 K i" | "r = copy_rule2 K s" | "r = copy_rule3 K s" | "r = copy_rule4 K o'"
  using assms unfolding copy_rule_set_def by blast

lemma copy_rule_fields [simp]:
  "ru_fd (copy_rule1 K h) = h" "ru_fd (copy_rule2 K h) = h" "ru_fd (copy_rule3 K h) = h" "ru_fd (copy_rule4 K h) = h"
  "ru_direction (copy_rule1 K h) = In" "ru_direction (copy_rule2 K h) = Out" "ru_direction (copy_rule3 K h) = In" "ru_direction (copy_rule4 K h) = Out"
  by (simp_all add: copy_rule_defs)

lemma copy_cancel_eq:
  "ru_cancel (copy_rule1 K h) (os, u) = Inr (os, u\<lparr>sc_outbound := end_input (sc_outbound u)\<rparr>)"
  "ru_cancel (copy_rule2 K h) (os, u) = Inr (os, u\<lparr>sc_outbound := end_input (sc_outbound u)\<rparr>)"
  "ru_cancel (copy_rule3 K h) (os, u) = Inr (os, u\<lparr>sc_inbound := end_input (sc_inbound u)\<rparr>)"
  "ru_cancel (copy_rule4 K h) (os, u) = Inr (os, u\<lparr>sc_inbound := end_input (sc_inbound u)\<rparr>)"
  by (simp_all add: copy_rule_defs)

lemma copy_cancel:
  assumes "copy_inv i o' s n (os, u)" and "r \<in> copy_rule_set K i o' s" and "over r os \<or> hung_up os"
  shows "\<exists>u'. ru_cancel r (os, u) = Inr (os, u') \<and> copy_inv i o' s n (os, u') \<and> copy_gone i o' s r (os, u')"
proof -
  have d: "i \<noteq> o'" "i \<noteq> s" "o' \<noteq> s" using assms(1) by auto
  from assms(2) show ?thesis
  proof (cases rule: copy_rule_cases)
    case 1
    then have "hung_up os \<or> fd_eof os i" using assms(1,3) by (auto simp: over_def)
    then show ?thesis using 1 d copy_end(1) [OF assms(1)] by (auto simp: copy_cancel_eq copy_pos_def simp del: copy_inv.simps)
  next
    case 2
    then have "hung_up os" using assms(1,3) by (auto simp: over_def)
    then show ?thesis using 2 d copy_end(1) [OF assms(1)] assms(1) by (auto simp: copy_cancel_eq copy_pos_def simp del: copy_inv.simps)
  next
    case 3
    then have "hung_up os \<or> fd_eof os s" using assms(1,3) by (auto simp: over_def)
    then show ?thesis using 3 d copy_end(2) [OF assms(1)] by (auto simp: copy_cancel_eq copy_pos_def simp del: copy_inv.simps)
  next
    case 4
    then have "hung_up os \<or> fd_closed os o' \<and> bs_eof (sc_inbound u)" using assms(1,3) by (auto simp: over_def)
    then show ?thesis using 4 d copy_end(2) [OF assms(1)] by (auto simp: copy_cancel_eq copy_pos_def simp del: copy_inv.simps)
  qed
qed


text \<open>What a callback leaves of the other rules: it touches its own descriptor only, and nothing is taken back.\<close>

lemma copy_gone_mono:
  assumes "copy_gone i o' s r (os, u)" and "hung_up os' = hung_up os"
    and "\<And>h. fd_eof os h \<Longrightarrow> fd_eof os' h" and "\<And>h. fd_closed os h \<Longrightarrow> fd_closed os' h"
    and "bs_input_end (sc_outbound u) \<Longrightarrow> bs_input_end (sc_outbound u')" and "bs_input_end (sc_inbound u) \<Longrightarrow> bs_input_end (sc_inbound u')"
  shows "copy_gone i o' s r (os', u')"
  using assms by (auto split: if_splits)

lemma touches_mono:
  assumes "touches h os os'" and "fd_eof os h \<longrightarrow> fd_eof os' h" and "fd_closed os h \<longrightarrow> fd_closed os' h"
  shows "fd_eof os g \<Longrightarrow> fd_eof os' g" and "fd_closed os g \<Longrightarrow> fd_closed os' g"
  using assms touchesD(2,3) [OF assms(1), of g] by (cases "g = h"; simp)+

lemma copy_callback:
  assumes "copy_inv i o' s n (os, u)" and "r \<in> copy_rule_set K i o' s" and "\<not> over r os" and "ru_callback r (os, u) = Inr (os', u')"
  shows "copy_inv i o' s n (os', u') \<and> service_count r os' \<noteq> service_count r os \<and> hung_up os' = hung_up os \<and>
    touches (ru_fd r) os os' \<and> (fd_eof os (ru_fd r) \<longrightarrow> fd_eof os' (ru_fd r)) \<and> (fd_closed os (ru_fd r) \<longrightarrow> fd_closed os' (ru_fd r)) \<and>
    (ru_fd r = s \<longrightarrow> fd_closed os' s = fd_closed os s \<and> (ru_direction r = Out \<longrightarrow> fd_eof os' s = fd_eof os s)) \<and>
    (bs_input_end (sc_outbound u) \<longrightarrow> bs_input_end (sc_outbound u')) \<and> (bs_input_end (sc_inbound u) \<longrightarrow> bs_input_end (sc_inbound u'))"
proof -
  have d: "i \<noteq> o'" "i \<noteq> s" "o' \<noteq> s" using assms(1) by auto
  from assms(2) show ?thesis
  proof (cases rule: copy_rule_cases)
    case 1
    then have "\<not> fd_eof os i" using assms(3) by (simp add: over_def)
    from copy_callback1 [OF assms(1) this, of K os' u'] show ?thesis
      using assms(4) 1 d \<open>\<not> fd_eof os i\<close> by (simp add: service_count_def del: copy_inv.simps)
  next
    case 2
    from copy_callback2 [OF assms(1), of K os' u'] show ?thesis
      using assms(4) 2 d by (simp add: service_count_def del: copy_inv.simps)
  next
    case 3
    then have "\<not> fd_eof os s" using assms(3) by (simp add: over_def)
    from copy_callback3 [OF assms(1) this, of K os' u'] show ?thesis
      using assms(4) 3 d \<open>\<not> fd_eof os s\<close> by (simp add: service_count_def del: copy_inv.simps)
  next
    case 4
    then have c: "\<not> fd_closed os o'" using assms(3) by (simp add: over_def)
    from copy_callback4 [OF assms(1) this, of K os' u'] show ?thesis
      using assms(4) 4 d c by (simp add: service_count_def del: copy_inv.simps)
  qed
qed

lemma copy_callback_keeps:
  assumes "copy_inv i o' s n (os, u)" and "r \<in> copy_rule_set K i o' s" and "\<not> over r os" and "ru_callback r (os, u) = Inr (os', u')"
    and "r' \<in> copy_rule_set K i o' s"
  shows "copy_gone i o' s r' (os, u) \<Longrightarrow> copy_gone i o' s r' (os', u')"
    and "r \<noteq> r' \<Longrightarrow> \<not> over r' os \<Longrightarrow> \<not> over r' os'"
proof -
  note c = copy_callback [OF assms(1-4)]
  have d: "i \<noteq> o'" "i \<noteq> s" "o' \<noteq> s" using assms(1) by auto
  show "copy_gone i o' s r' (os, u) \<Longrightarrow> copy_gone i o' s r' (os', u')"
    using c copy_gone_mono [of i o' s r' os u os' u'] touches_mono [of "ru_fd r" os os'] by blast
  have t: "\<And>g. g \<noteq> ru_fd r \<Longrightarrow> fd_eof os' g = fd_eof os g" "\<And>g. g \<noteq> ru_fd r \<Longrightarrow> fd_closed os' g = fd_closed os g"
    using c touchesD(2,3) by blast+
  show "\<not> over r' os'" if "r \<noteq> r'" "\<not> over r' os"
  proof (cases "ru_fd r' = ru_fd r")
    case False
    then show ?thesis using that(2) t by (simp add: over_def)
  next
    case True
    with that(1) assms(2,5) d have "ru_fd r = s" "ru_fd r' = s" "ru_direction r' = In \<longrightarrow> ru_direction r = Out"
      by (auto elim!: copy_rule_cases)
    then show ?thesis using that(2) c by (simp add: over_def)
  qed
qed

lemma copy_faults: "r \<in> copy_rule_set K i o' s \<Longrightarrow> ru_callback r w = Inl e \<Longrightarrow> kernel_fault e"
  by (auto elim!: copy_rule_cases simp: copy_rule_defs bind_res_def Let_def case_prod_beta
      dest: read_into_fault write_from_fault shutdown_fault fd_close_fault split: sum.splits if_splits)

lemma hung_up_mono: "hung_up os \<Longrightarrow> hung_up (log_event os ev)"
  by (auto simp: hung_up_def)

lemma copy_inv_log:
  assumes "copy_inv i o' s n (os, u)" and "got STDIN_FILENO [ev] = []" "got n [ev] = []" "given STDOUT_FILENO [ev] = []" "given n [ev] = []"
  shows "copy_inv i o' s n (log_event os ev, u)"
proof -
  have h: "hung_up os \<longrightarrow> hung_up (log_event os ev)" using hung_up_mono by blast
  have "copying (hung_up (log_event os ev)) src dst x" if "copying (hung_up os) src dst x" for src dst x
    using copying_hup [OF that h] .
  then show ?thesis using assms h by (auto simp: fd_num_def fd_eof_def fd_closed_def)
qed

lemma copy_cancel_keeps:
  assumes "r \<in> copy_rule_set K i o' s" and "ru_cancel r (os, u) = Inr w'" and "copy_gone i o' s r' (os, u)"
  shows "copy_gone i o' s r' w'"
proof -
  have "w' = (os, u\<lparr>sc_outbound := end_input (sc_outbound u)\<rparr>) \<or> w' = (os, u\<lparr>sc_inbound := end_input (sc_inbound u)\<rparr>)"
    using assms(1,2) by (auto elim!: copy_rule_cases simp: copy_cancel_eq)
  then show ?thesis using assms(3) by auto
qed

lemma copy_gone_log: "copy_gone i o' s r (os, u) \<Longrightarrow> copy_gone i o' s r (log_event os ev, u)"
  using hung_up_mono [of os ev] by (auto simp: fd_eof_def fd_closed_def split: if_splits)

lemma copy_quiet:
  assumes "copy_inv i o' s n (os, u)" and "r \<in> copy_rule_set K i o' s" and "r' \<in> copy_rule_set K i o' s" and "copy_before i s r' r"
    and "over r os" and "ru_cancel r (os, u) = Inr w'"
  shows "ru_interest r' w' = ru_interest r' (os, u)"
proof -
  have d: "i \<noteq> o'" "i \<noteq> s" "o' \<noteq> s" "\<not> fd_closed os s" using assms(1) by auto
  have q: "ru_interest r' (os, u\<lparr>sc_inbound := end_input (sc_inbound u)\<rparr>) = ru_interest r' (os, u)"
    if "r' \<in> {copy_rule1 K i, copy_rule2 K s, copy_rule3 K s}"
    using that by (auto simp: copy_rule_defs remaining_capacity_def)
  from assms(2) show ?thesis
  proof (cases rule: copy_rule_cases)
    case 1
    then show ?thesis using assms(4) by (simp add: copy_before_def copy_pos_def)
  next
    case 2
    then show ?thesis using assms(5) d by (simp add: over_def)
  next
    case 3
    then have "r' \<in> {copy_rule1 K i, copy_rule2 K s, copy_rule3 K s}" using assms(3,4) d
      by (auto elim!: copy_rule_cases simp: copy_before_def copy_pos_def)
    from q [OF this] show ?thesis using assms(6) 3 by (simp add: copy_cancel_eq)
  next
    case 4
    then have "r' \<in> {copy_rule1 K i, copy_rule2 K s, copy_rule3 K s}" using assms(3,4) d
      by (auto elim!: copy_rule_cases simp: copy_before_def copy_pos_def)
    from q [OF this] show ?thesis using assms(6) 4 by (simp add: copy_cancel_eq)
  qed
qed

interpretation sc: rules_contract "copy_rule_set K i o' s" "copy_before i s" "copy_inv i o' s n" "copy_gone i o' s" kernel_fault
  for K :: "'addr kernel" and i o' s n
proof (unfold_locales, goal_cases)
  case (1 r w e)
  then show ?case by (auto dest: copy_faults)
next
  case (2 r w w')
  then show ?case using copy_callback [of i o' s n "fst w" "snd w" r K "fst w'" "snd w'"] by simp
next
  case (3 r w w')
  then show ?case using copy_callback [of i o' s n "fst w" "snd w" r K "fst w'" "snd w'"] by simp
next
  case (4 r s' w w')
  then show ?case using copy_callback_keeps(1) [of i o' s n "fst w" "snd w" r K "fst w'" "snd w'" s'] by simp
next
  case (5 r s' w w')
  then show ?case using copy_callback_keeps(2) [of i o' s n "fst w" "snd w" r K "fst w'" "snd w'" s'] by simp
next
  case (6 r s' w w')
  then show ?case using copy_cancel [of i o' s n "fst w" "snd w" r K] by auto
next
  case (7 r)
  then show ?case by (simp add: copy_before_def)
next
  case (8 r w e)
  then show ?case using copy_cancel [of i o' s n "fst w" "snd w" r K] by auto
next
  case (9 r w w')
  then show ?case using copy_cancel [of i o' s n "fst w" "snd w" r K] by auto
next
  case (10 r w w')
  then show ?case using copy_cancel [of i o' s n "fst w" "snd w" r K] by auto
next
  case (11 r s' w w')
  then show ?case using copy_cancel_keeps [of r K i o' s "fst w" "snd w" w' s'] by simp
next
  case (12 r s' w w')
  then show ?case using copy_quiet [of i o' s n "fst w" "snd w" r K s'] by simp
next
  case (13 r w w')
  then show ?case using copy_cancel [of i o' s n "fst w" "snd w" r K] by auto
next
  case (14 r w w')
  then show ?case using copy_callback [of i o' s n "fst w" "snd w" r K "fst w'" "snd w'"] by simp
next
  case (15 os u rs)
  then show ?case by (intro copy_inv_log) simp_all
next
  case (16 os u name n)
  then show ?case by (intro copy_inv_log) simp_all
next
  case (17 r os u rs)
  from 17(2) show ?case by (rule copy_gone_log)
next
  case (18 r os u name n)
  from 18(2) show ?case by (rule copy_gone_log)
qed

section \<open>The program\<close>

lemma set_blocking_ok:
  assumes "set_blocking K os h b = Inr os'"
  shows "os_fds os' = os_fds os" and "\<exists>x y. os_events os' = os_events os @ [Ev_call ''F_GETFL'' (fd_num os h) x, Ev_call ''F_SETFL'' (fd_num os h) y]"
proof -
  from assms obtain os1 r r' y where "fd_call K os ''fcntl'' ''F_GETFL'' h 0 = Inr (os1, r)" "fd_call K os1 ''fcntl'' ''F_SETFL'' h y = Inr (os', r')"
    unfolding set_blocking_def Let_def by (auto simp only: bind_res_Inr_iff split_paired_all prod.case sum.inject)
  from fd_call_ok [OF this(1)] fd_call_ok [OF this(2)]
  show "os_fds os' = os_fds os" "\<exists>x y. os_events os' = os_events os @ [Ev_call ''F_GETFL'' (fd_num os h) x, Ev_call ''F_SETFL'' (fd_num os h) y]"
    by (simp_all add: fd_num_def)
qed

lemma set_blocking_fault: "set_blocking K os h b = Inl e \<Longrightarrow> kernel_fault e"
  unfolding set_blocking_def Let_def bind_res_def by (auto dest: fd_call_fault split: sum.splits if_splits)

abbreviation copy_ok :: "'addr kernel \<Rightarrow> nat \<Rightarrow> nat \<Rightarrow> nat \<Rightarrow> int \<Rightarrow> stream_copy rule list \<Rightarrow> stream_copy world \<Rightarrow> bool" where
  "copy_ok K i o' s n \<equiv> rules_contract.loop_ok (copy_rule_set K i o' s) (copy_before i s) (copy_inv i o' s n) (copy_gone i o' s)"

text \<open>A program that has just got a connected socket with descriptor number \<open>n\<close> as its handle \<open>s\<close>.\<close>

definition fresh_socket :: "os \<Rightarrow> nat \<Rightarrow> int \<Rightarrow> bool" where
  "fresh_socket os s n \<longleftrightarrow>
     os_events os = [] \<and> s < os_next os \<and> fd_num os s = n \<and> n \<noteq> STDIN_FILENO \<and> n \<noteq> STDOUT_FILENO \<and>
     \<not> fd_eof os s \<and> \<not> fd_closed os s"

lemma copy_rules_eq: "copy_rules K i o' s = [copy_rule1 K i, copy_rule2 K s, copy_rule3 K s, copy_rule4 K o']"
  by (simp add: copy_rules_def add_copy_rule_def add_rule_def duplicate_def)

lemma start_ok:
  assumes "fresh_socket os s n"
  shows "(\<exists>e. stream_copy_start K os s = Inl e \<and> kernel_fault e) \<or>
    (\<exists>w. stream_copy_start K os s = Inr (copy_rules K (os_next os) (Suc (os_next os)) s, w) \<and>
       copy_ok K (os_next os) (Suc (os_next os)) s n (copy_rules K (os_next os) (Suc (os_next os)) s) w \<and>
       got STDIN_FILENO (os_events (fst w)) = [] \<and> got n (os_events (fst w)) = [] \<and> \<not> hung_up (fst w) \<and>
       \<not> fd_eof (fst w) (os_next os) \<and> \<not> fd_eof (fst w) s)"
proof -
  let ?i = "os_next os" and ?o = "Suc (os_next os)"
  define os0 where "os0 = os\<lparr>os_fds := (os_fds os)(
      ?i := \<lparr>fdw_fd = STDIN_FILENO, fdw_eof = False, fdw_closed = False, fdw_read_count = 0, fdw_write_count = 0\<rparr>,
      ?o := \<lparr>fdw_fd = STDOUT_FILENO, fdw_eof = False, fdw_closed = False, fdw_read_count = 0, fdw_write_count = 0\<rparr>),
    os_next := Suc ?o\<rparr>"
  define u where "u = \<lparr>sc_outbound = ByteStream copy_buffer_size, sc_inbound = ByteStream copy_buffer_size,
    sc_outbound_shutdown = False, sc_inbound_shutdown = False\<rparr>"
  have e: "stream_copy_start K os s =
      bind_res (set_blocking K os0 s False) (\<lambda>os. bind_res (set_blocking K os ?i False) (\<lambda>os. bind_res (set_blocking K os ?o False) (\<lambda>os.
        Inr (copy_rules K ?i ?o s, (os, u)))))"
    by (simp add: stream_copy_start_def FileDescriptor_def FDWrapper0_def STDIN_FILENO_def STDOUT_FILENO_def os0_def u_def Let_def)
  show ?thesis
  proof (cases "stream_copy_start K os s")
    case (Inl err)
    then have "kernel_fault err" unfolding e by (auto simp: bind_res_def dest: set_blocking_fault split: sum.splits)
    with Inl show ?thesis by simp
  next
    case (Inr x)
    then obtain os1 os2 os3 where b: "set_blocking K os0 s False = Inr os1" "set_blocking K os1 ?i False = Inr os2" "set_blocking K os2 ?o False = Inr os3"
      and x: "x = (copy_rules K ?i ?o s, (os3, u))" unfolding e by (auto simp: bind_res_Inr_iff)
    have f: "os_fds os3 = os_fds os0" using set_blocking_ok(1) [OF b(1)] set_blocking_ok(1) [OF b(2)] set_blocking_ok(1) [OF b(3)] by simp
    have s: "s \<noteq> ?i" "s \<noteq> ?o" "os_events os0 = []" using assms by (auto simp: fresh_socket_def os0_def)
    have ev: "got fd (os_events os3) = []" "given fd (os_events os3) = []" for fd
      using set_blocking_ok(2) [OF b(1)] set_blocking_ok(2) [OF b(2)] set_blocking_ok(2) [OF b(3)] s(3) by auto
    have h: "\<not> hung_up os3"
      using set_blocking_ok(2) [OF b(1)] set_blocking_ok(2) [OF b(2)] set_blocking_ok(2) [OF b(3)] s(3) by (auto simp: hung_up_def)
    have c: "copying False [] [] (ByteStream copy_buffer_size)"
      by (simp add: copying_def copy_buffer_size_def) (simp add: ByteStream_def)
    have "copy_inv ?i ?o s n (os3, u)"
      using assms s ev h c f by (simp add: u_def fresh_socket_def fd_num_def fd_eof_def fd_closed_def) (simp add: os0_def ByteStream_def)
    then have "copy_ok K ?i ?o s n (copy_rules K ?i ?o s) (os3, u)"
      using s unfolding sc.loop_ok_def copy_rules_eq by (simp add: copy_rule_set_def copy_before_def copy_pos_def)
    moreover have "\<not> fd_eof os3 ?i" "\<not> fd_eof os3 s" using assms s f by (simp_all add: fresh_socket_def fd_eof_def os0_def)
    ultimately show ?thesis using Inr x ev h by simp
  qed
qed

text \<open>Everything has been copied: both sources are at their end and both sinks have got it all and were told so.\<close>

definition copy_complete :: "nat \<Rightarrow> nat \<Rightarrow> nat \<Rightarrow> int \<Rightarrow> os \<Rightarrow> bool" where
  "copy_complete i o' s n os \<longleftrightarrow>
     fd_eof os i \<and> given n (os_events os) = got STDIN_FILENO (os_events os) \<and> Ev_call ''shutdown'' n SHUT_WR \<in> set (os_events os) \<and>
     fd_eof os s \<and> given STDOUT_FILENO (os_events os) = got n (os_events os) \<and> fd_closed os o'"

lemma copying_full: "copying hup src dst s \<Longrightarrow> remaining_capacity s = 0 \<Longrightarrow> \<not> buffer_empty s"
  by (auto simp: copying_def remaining_capacity_eq buffer_empty_def copy_buffer_size_def)

lemma copying_all: "copying False src dst s \<Longrightarrow> buffer_empty s \<Longrightarrow> dst = src"
  by (auto simp: copying_def buffer_empty_def)

lemma copy_exit:
  assumes "copy_ok K i o' s n rules (os, u)" and "\<forall>r \<in> set rules. \<not> ru_interest r (os, u)" and "\<not> hung_up os"
  shows "copy_complete i o' s n os"
proof -
  have inv: "copy_inv i o' s n (os, u)" and g: "\<And>r. r \<in> copy_rule_set K i o' s \<Longrightarrow> r \<in> set rules \<or> copy_gone i o' s r (os, u)"
    using assms(1) by (auto simp: sc.loop_ok_def simp del: copy_inv.simps copy_gone.simps)
  have d: "i \<noteq> o'" "i \<noteq> s" "o' \<noteq> s" using inv by auto
  have c: "copying False (got STDIN_FILENO (os_events os)) (given n (os_events os)) (sc_outbound u)"
    "copying False (got n (os_events os)) (given STDOUT_FILENO (os_events os)) (sc_inbound u)"
    using inv assms(3) by simp_all
  have q: "\<not> ru_interest r (os, u) \<or> copy_gone i o' s r (os, u)" if "r \<in> copy_rule_set K i o' s" for r
    using g [OF that] assms(2) by blast
  have r2: "buffer_empty (sc_outbound u)" "bs_eof (sc_outbound u) \<longrightarrow> sc_outbound_shutdown u"
    using q [of "copy_rule2 K s"] assms(3) d by (auto simp: copy_rule_set_def copy_rule2_def copy_pos_def)
  have r1: "bs_input_end (sc_outbound u)" "fd_eof os i"
    using q [of "copy_rule1 K i"] assms(3) copying_full [OF c(1)] r2(1) c by (auto simp: copy_rule_set_def copy_rule1_def copy_pos_def copying_def)
  have r4: "buffer_empty (sc_inbound u)" "bs_eof (sc_inbound u) \<longrightarrow> sc_inbound_shutdown u"
    using q [of "copy_rule4 K o'"] assms(3) d inv by (auto simp: copy_rule_set_def copy_rule4_def copy_pos_def bs_eof_def)
  have r3: "bs_input_end (sc_inbound u)" "fd_eof os s"
    using q [of "copy_rule3 K s"] assms(3) copying_full [OF c(2)] r4(1) c d by (auto simp: copy_rule_set_def copy_rule3_def copy_pos_def copying_def)
  show ?thesis
    using inv r1 r2 r3 r4 copying_all [OF c(1)] copying_all [OF c(2)] by (auto simp: copy_complete_def bs_eof_def)
qed

text \<open>What the loop does when it returns.\<close>

definition copy_result :: "nat \<Rightarrow> nat \<Rightarrow> nat \<Rightarrow> int \<Rightarrow> stream_copy world res \<Rightarrow> bool" where
  "copy_result i o' s n r \<longleftrightarrow>
     (case r of
        Inl e \<Rightarrow> kernel_fault e \<or> e = poll_error
      | Inr (os, u) \<Rightarrow>
          prefix (given n (os_events os)) (got STDIN_FILENO (os_events os)) \<and> prefix (given STDOUT_FILENO (os_events os)) (got n (os_events os)) \<and>
          (interrupted os \<or> hung_up os \<or> copy_complete i o' s n os))"

lemma copying_prefix: "copying hup src dst s \<Longrightarrow> prefix dst src"
  by (auto simp: copying_def)

lemma copy_ok_prefix:
  assumes "copy_ok K i o' s n rules (os, u)"
  shows "prefix (given n (os_events os)) (got STDIN_FILENO (os_events os))" "prefix (given STDOUT_FILENO (os_events os)) (got n (os_events os))"
  using assms by (auto simp: sc.loop_ok_def dest!: copying_prefix)

lemma copy_loop_result:
  assumes "copy_loop K rules w = Some r" and "copy_ok K i o' s n rules w"
  shows "copy_result i o' s n r"
  using assms
proof (induction rule: copy_loop.raw_induct [rotated, consumes 1, case_names loop])
  case (loop loop K rules w r)
  from sc.wait_next_event_ok [OF loop.prems, of K "-1"] consider
      (throws) e where "wait_next_event K (-1) rules w = Inl e" "kernel_fault e \<or> e = poll_error"
    | (result) res rules' w' where "wait_next_event K (-1) rules w = Inr (res, rules', w')" "copy_ok K i o' s n rules' w'"
        "res = Exit \<longrightarrow> (\<forall>r \<in> set rules'. \<not> ru_interest r w') \<or> interrupted (fst w')" by blast
  then show ?case
  proof cases
    case throws
    then show ?thesis using loop.hyps by (auto simp: copy_result_def)
  next
    case result
    note w = result(1) and ok = result(2) and ex = result(3)
    obtain os u where w': "w' = (os, u)" by (cases w')
    show ?thesis
    proof (cases "res = Exit")
      case True
      then have "r = Inr (os, u)" using loop.hyps w w' by simp
      moreover have "interrupted os \<or> hung_up os \<or> copy_complete i o' s n os"
        using ex True w' copy_exit [OF ok [unfolded w']] by auto
      ultimately show ?thesis using copy_ok_prefix [OF ok [unfolded w']] by (simp add: copy_result_def)
    next
      case False
      then have "loop K rules' w' = Some r" using loop.hyps w by simp
      from loop.IH [OF this ok] show ?thesis .
    qed
  qed
qed

end
