(* ===== verification/Copy_Progress.thy ===== *)
theory Copy_Progress
  imports Stream_Copy
begin

text \<open>
  The copy of \<^verbatim>\<open>apps/bidirectional_stream_copy.cc\<close> comes to its end when the operating system serves it: the rules make
  progress in the sense of the event loop, with the amount that is left to do as the measure.
\<close>

section \<open>Progress\<close>

text \<open>
  An operating system that serves the program: \<^verbatim>\<open>poll\<close> waits for an event, the descriptors deliver the bytes of
  finite inputs \<open>D\<close>, at least one with each \<^verbatim>\<open>read\<close> until the end, every \<^verbatim>\<open>writev\<close> takes at least one byte,
  and nothing fails.
\<close>

definition serves :: "'addr kernel \<Rightarrow> (int \<Rightarrow> byte list) \<Rightarrow> bool" where
  "serves K D \<longleftrightarrow>
     responsive K \<and>
     (\<forall>es fd limit. \<exists>m. k_read K es fd limit = Inr (take m (drop (length (got fd es)) (D fd))) \<and> m \<le> limit \<and> (0 < limit \<longrightarrow> 0 < m)) \<and>
     (\<forall>es fd v. \<exists>n. k_writev K es fd v = Inr n \<and> unat n \<le> length v \<and> (v \<noteq> [] \<longrightarrow> n \<noteq> 0)) \<and>
     (\<forall>es name fd a. \<exists>r. k_call K es name fd a = Inr r)"

lemma serves_read:
  assumes "serves K D" and "prefix (got (fd_num os h) (os_events os)) (D (fd_num os h))"
  shows "\<exists>os' bytes. fd_read K os h limit = Inr (os', bytes) \<and> prefix (got (fd_num os h) (os_events os) @ bytes) (D (fd_num os h)) \<and>
    (0 < limit \<and> bytes = [] \<longrightarrow> got (fd_num os h) (os_events os) = D (fd_num os h))"
proof -
  let ?g = "got (fd_num os h) (os_events os)" and ?D = "D (fd_num os h)"
  obtain m where m: "k_read K (os_events os) (fd_num os h) (min BUFFER_SIZE limit) = Inr (take m (drop (length ?g) ?D))"
    "m \<le> min BUFFER_SIZE limit" "0 < min BUFFER_SIZE limit \<longrightarrow> 0 < m" using assms(1) unfolding serves_def by blast
  obtain rest where D: "?D = ?g @ rest" using assms(2) by (auto simp: prefix_def)
  have "length (take m (drop (length ?g) ?D)) \<le> min BUFFER_SIZE limit" by (rule le_trans [OF _ m(2)]) simp
  from fd_read_total [OF m(1) this] obtain os' where "fd_read K os h limit = Inr (os', take m rest)" by (auto simp: D)
  moreover have "prefix (?g @ take m rest) ?D" unfolding D by (metis append_take_drop_id append_assoc prefixI)
  moreover have "0 < limit \<and> take m rest = [] \<longrightarrow> ?g = ?D" using m(3) D by (auto simp: BUFFER_SIZE_def)
  ultimately show ?thesis by blast
qed

lemma serves_write:
  assumes "serves K D"
  shows "\<exists>os' s'. write_from K h os s = Inr (os', s')"
proof -
  let ?v = "peek_output s (min max_copy_length (buffer_size s))"
  obtain n where "k_writev K (os_events os) (fd_num os h) ?v = Inr n" "?v \<noteq> [] \<longrightarrow> n \<noteq> 0" "unat n \<le> length ?v"
    using assms unfolding serves_def by blast
  from fd_write_total [OF this] show ?thesis by (auto simp: write_from_def Let_def)
qed

lemma serves_call:
  assumes "serves K D"
  shows "\<exists>os' r. fd_call K os attempt name h a = Inr (os', r)"
proof -
  obtain r where "k_call K (os_events os) name (fd_num os h) a = Inr r" using assms unfolding serves_def by blast
  then show ?thesis by (simp add: fd_call_def SystemCall_def)
qed

lemma serves_end:
  assumes "serves K D"
  shows "\<exists>os'. socket_shutdown K os h SHUT_WR = Inr os'" and "\<exists>os'. fd_close K os h = Inr os'"
  using serves_call [OF assms, of os "''shutdown''" "''shutdown''" h SHUT_WR] serves_call [OF assms, of os "''close''" "''close''" h 0]
  by (auto simp: socket_shutdown_def fd_close_def SHUT_WR_def SHUT_RD_def)

lemma read_into_live:
  assumes "serves K D" and "prefix (got f (os_events os)) (D f)" and "fd_num os h = f" and "copying hup src dst s" and "\<not> hup \<longrightarrow> \<not> bs_input_end s"
  shows "\<exists>os' s' bytes. read_into K h os s = Inr (os', s') \<and> os_events os' = os_events os @ [Ev_read f bytes] \<and>
    prefix (got f (os_events os) @ bytes) (D f) \<and> length (bs_byte_stream s') \<le> length (bs_byte_stream s) + length bytes \<and>
    fd_eof os' h = (fd_eof os h \<or> 0 < remaining_capacity s \<and> bytes = []) \<and>
    (0 < remaining_capacity s \<and> bytes = [] \<longrightarrow> got f (os_events os) = D f)"
proof -
  obtain os' bytes where r: "fd_read K os h (remaining_capacity s) = Inr (os', bytes)" and p: "prefix (got f (os_events os) @ bytes) (D f)"
    "0 < remaining_capacity s \<and> bytes = [] \<longrightarrow> got f (os_events os) = D f"
    using serves_read [OF assms(1), of os h "remaining_capacity s"] assms(2) unfolding assms(3) by blast
  obtain s' where s': "read_into K h os s = Inr (os', s')" using r by (simp add: read_into_def Let_def)
  from read_into_ok(1) [OF s' assms(4,5)] obtain bytes' where "os_events os' = os_events os @ [Ev_read f bytes']"
    "length (bs_byte_stream s') \<le> length (bs_byte_stream s) + length bytes'" "fd_eof os' h = (fd_eof os h \<or> 0 < remaining_capacity s \<and> bytes' = [])"
    unfolding assms(3) by blast
  moreover have "bytes' = bytes" using calculation(1) fd_read_ok(1) [OF r] by simp
  ultimately show ?thesis using s' p by blast
qed

text \<open>What is left to do in one direction: to read and to write bytes, to see the end of the input and to pass it on.\<close>

definition left_to_do :: "(int \<Rightarrow> byte list) \<Rightarrow> int \<Rightarrow> nat \<Rightarrow> os \<Rightarrow> byte_stream \<Rightarrow> bool \<Rightarrow> nat" where
  "left_to_do D f h os s shut =
     2 * (length (D f) - length (got f (os_events os))) + length (bs_byte_stream s) + (if fd_eof os h then 0 else 1) + (if shut then 0 else 1)"

fun copy_mu :: "(int \<Rightarrow> byte list) \<Rightarrow> nat \<Rightarrow> nat \<Rightarrow> int \<Rightarrow> stream_copy world \<Rightarrow> nat" where
  "copy_mu D i s n (os, u) =
     left_to_do D STDIN_FILENO i os (sc_outbound u) (sc_outbound_shutdown u) + left_to_do D n s os (sc_inbound u) (sc_inbound_shutdown u)"

fun copy_live :: "'addr kernel \<Rightarrow> (int \<Rightarrow> byte list) \<Rightarrow> nat \<Rightarrow> nat \<Rightarrow> nat \<Rightarrow> int \<Rightarrow> stream_copy world \<Rightarrow> bool" where
  "copy_live K D i o' s n (os, u) \<longleftrightarrow>
     serves K D \<and> copy_inv i o' s n (os, u) \<and>
     prefix (got STDIN_FILENO (os_events os)) (D STDIN_FILENO) \<and> prefix (got n (os_events os)) (D n) \<and>
     (fd_eof os i \<longrightarrow> got STDIN_FILENO (os_events os) = D STDIN_FILENO) \<and> (fd_eof os s \<longrightarrow> got n (os_events os) = D n)"

text \<open>A rule that reads and a rule that writes make it less.\<close>

lemma left_read:
  assumes "os_events os' = os_events os @ [Ev_read f bytes]" and "prefix (got f (os_events os) @ bytes) (D f)"
    and "length (bs_byte_stream s') \<le> length (bs_byte_stream s) + length bytes"
    and "fd_eof os' h = (fd_eof os h \<or> 0 < remaining_capacity s \<and> bytes = [])"
  shows "left_to_do D f h os' s' shut \<le> left_to_do D f h os s shut"
    and "0 < remaining_capacity s \<Longrightarrow> \<not> fd_eof os h \<Longrightarrow> left_to_do D f h os' s' shut < left_to_do D f h os s shut"
proof -
  have l: "length (got f (os_events os)) + length bytes \<le> length (D f)" using prefix_length_le [OF assms(2)] by simp
  show "left_to_do D f h os' s' shut \<le> left_to_do D f h os s shut" using assms(1,3,4) l by (auto simp: left_to_do_def)
  show "left_to_do D f h os' s' shut < left_to_do D f h os s shut" if "0 < remaining_capacity s" "\<not> fd_eof os h"
    using assms(1,3,4) l that by (cases bytes) (auto simp: left_to_do_def)
qed

lemma left_write:
  assumes "got f (os_events os') = got f (os_events os)" and "fd_eof os' h = fd_eof os h"
    and "length (bs_byte_stream s') + length out = length (bs_byte_stream s)" and "bs_byte_stream s \<noteq> [] \<longrightarrow> out \<noteq> []" and "shut \<longrightarrow> shut'"
  shows "left_to_do D f h os' s' shut' \<le> left_to_do D f h os s shut"
    and "bs_byte_stream s \<noteq> [] \<or> \<not> shut \<and> shut' \<Longrightarrow> left_to_do D f h os' s' shut' < left_to_do D f h os s shut"
  using assms by (cases out; auto simp: left_to_do_def)+

lemma left_same: "got f (os_events os') = got f (os_events os) \<Longrightarrow> fd_eof os' h = fd_eof os h \<Longrightarrow> left_to_do D f h os' s shut = left_to_do D f h os s shut"
  by (simp add: left_to_do_def)

definition wants_out :: "byte_stream \<Rightarrow> bool \<Rightarrow> bool" where
  "wants_out s shut \<longleftrightarrow> \<not> buffer_empty s \<or> bs_eof s \<and> \<not> shut"

definition wants_in :: "byte_stream \<Rightarrow> byte_stream \<Rightarrow> bool" where
  "wants_in s s' \<longleftrightarrow> \<not> bs_error s \<and> 0 < remaining_capacity s \<and> \<not> bs_error s'"

lemma copy_interest:
  "ru_interest (copy_rule1 K h) (os, u) = wants_in (sc_outbound u) (sc_inbound u)"
  "ru_interest (copy_rule2 K h) (os, u) = wants_out (sc_outbound u) (sc_outbound_shutdown u)"
  "ru_interest (copy_rule3 K h) (os, u) = wants_in (sc_inbound u) (sc_outbound u)"
  "ru_interest (copy_rule4 K h) (os, u) = wants_out (sc_inbound u) (sc_inbound_shutdown u)"
  by (simp_all add: copy_rule_defs wants_in_def wants_out_def)

text \<open>What one callback achieves.\<close>

definition achieves :: "(int \<Rightarrow> byte list) \<Rightarrow> nat \<Rightarrow> nat \<Rightarrow> int \<Rightarrow> 'addr kernel \<Rightarrow> nat \<Rightarrow> stream_copy rule \<Rightarrow> stream_copy world \<Rightarrow> stream_copy world \<Rightarrow> bool" where
  "achieves D i s n K o' r w w' \<longleftrightarrow>
     copy_live K D i o' s n w' \<and> copy_mu D i s n w' \<le> copy_mu D i s n w \<and> (ru_interest r w \<longrightarrow> copy_mu D i s n w' < copy_mu D i s n w) \<and>
     (\<forall>r' \<in> copy_rule_set K i o' s. r' \<noteq> r \<longrightarrow> ru_interest r' w \<longrightarrow> ru_interest r' w')"

lemma live_callback1:
  assumes "copy_live K D i o' s n (os, u)" and "\<not> fd_eof os i"
  shows "\<exists>w'. ru_callback (copy_rule1 K i) (os, u) = Inr w' \<and> achieves D i s n K o' (copy_rule1 K i) (os, u) w'"
proof -
  have inv: "copy_inv i o' s n (os, u)" and srv: "serves K D" and p: "prefix (got STDIN_FILENO (os_events os)) (D STDIN_FILENO)"
    and num: "fd_num os i = STDIN_FILENO" and d: "i \<noteq> s" "n \<noteq> STDIN_FILENO"
    using assms(1) by auto
  have c: "copying (hung_up os) (got STDIN_FILENO (os_events os)) (given n (os_events os)) (sc_outbound u)"
    "\<not> hung_up os \<longrightarrow> \<not> bs_input_end (sc_outbound u)" using inv assms(2) by auto
  from read_into_live [OF srv p num c] obtain os' s' bytes where r: "read_into K i os (sc_outbound u) = Inr (os', s')"
    and ev: "os_events os' = os_events os @ [Ev_read STDIN_FILENO bytes]" and p': "prefix (got STDIN_FILENO (os_events os) @ bytes) (D STDIN_FILENO)"
    and len: "length (bs_byte_stream s') \<le> length (bs_byte_stream (sc_outbound u)) + length bytes"
    and eof: "fd_eof os' i = (fd_eof os i \<or> 0 < remaining_capacity (sc_outbound u) \<and> bytes = [])"
    and all: "0 < remaining_capacity (sc_outbound u) \<and> bytes = [] \<longrightarrow> got STDIN_FILENO (os_events os) = D STDIN_FILENO" by blast
  let ?u = "u\<lparr>sc_outbound := s'\<rparr>"
  have cb: "ru_callback (copy_rule1 K i) (os, u) = Inr (os', ?u)" using r by (simp add: copy_rule1_def)
  note ok = copy_callback1 [OF inv assms(2) cb]
  have t: "fd_eof os' s = fd_eof os s" using touchesD(2) [OF ok(2)] d by simp
  have "copy_live K D i o' s n (os', ?u)"
    using assms ok(1) ev p' eof all t d by (auto simp del: copy_inv.simps)
  moreover have "copy_mu D i s n (os', ?u) \<le> copy_mu D i s n (os, u)"
    using left_read(1) [of os' os STDIN_FILENO bytes D, OF ev p' len eof] left_same [of n os' os s] ev t d by simp
  moreover have "copy_mu D i s n (os', ?u) < copy_mu D i s n (os, u)" if "ru_interest (copy_rule1 K i) (os, u)"
    using left_read(2) [of os' os STDIN_FILENO bytes D, OF ev p' len eof _ assms(2)] left_same [of n os' os s] ev t d that by (simp add: copy_interest wants_in_def)
  moreover have "ru_interest r' (os', ?u)" if "r' \<in> copy_rule_set K i o' s" "r' \<noteq> copy_rule1 K i" "ru_interest r' (os, u)" for r'
    using that(1)
  proof (cases rule: copy_rule_cases)
    case 2
    then show ?thesis using that(3) read_into_ok(6,7) [OF r c] by (auto simp: copy_interest wants_out_def buffer_empty_def)
  next
    case 3
    have "\<not> bs_error s'" using ok(1) by (simp add: copying_def)
    with 3 show ?thesis using that(3) by (simp add: copy_interest wants_in_def)
  next
    case 4
    then show ?thesis using that(3) by (simp add: copy_interest)
  qed (use that(2) in simp)
  ultimately show ?thesis using cb by (auto simp: achieves_def simp del: copy_live.simps copy_mu.simps)
qed

lemma live_callback3:
  assumes "copy_live K D i o' s n (os, u)" and "\<not> fd_eof os s"
  shows "\<exists>w'. ru_callback (copy_rule3 K s) (os, u) = Inr w' \<and> achieves D i s n K o' (copy_rule3 K s) (os, u) w'"
proof -
  have inv: "copy_inv i o' s n (os, u)" and srv: "serves K D" and p: "prefix (got n (os_events os)) (D n)"
    and num: "fd_num os s = n" and d: "i \<noteq> s" "n \<noteq> STDIN_FILENO"
    using assms(1) by auto
  have c: "copying (hung_up os) (got n (os_events os)) (given STDOUT_FILENO (os_events os)) (sc_inbound u)"
    "\<not> hung_up os \<longrightarrow> \<not> bs_input_end (sc_inbound u)" using inv assms(2) by auto
  from read_into_live [OF srv p num c] obtain os' s' bytes where r: "read_into K s os (sc_inbound u) = Inr (os', s')"
    and ev: "os_events os' = os_events os @ [Ev_read n bytes]" and p': "prefix (got n (os_events os) @ bytes) (D n)"
    and len: "length (bs_byte_stream s') \<le> length (bs_byte_stream (sc_inbound u)) + length bytes"
    and eof: "fd_eof os' s = (fd_eof os s \<or> 0 < remaining_capacity (sc_inbound u) \<and> bytes = [])"
    and all: "0 < remaining_capacity (sc_inbound u) \<and> bytes = [] \<longrightarrow> got n (os_events os) = D n" by blast
  let ?u = "u\<lparr>sc_inbound := s'\<rparr>"
  have cb: "ru_callback (copy_rule3 K s) (os, u) = Inr (os', ?u)" using r by (simp add: copy_rule3_def)
  note ok = copy_callback3 [OF inv assms(2) cb]
  have t: "fd_eof os' i = fd_eof os i" using touchesD(2) [OF ok(2)] d by simp
  have "copy_live K D i o' s n (os', ?u)"
    using assms ok(1) ev p' eof all t d by (auto simp del: copy_inv.simps)
  moreover have "copy_mu D i s n (os', ?u) \<le> copy_mu D i s n (os, u)"
    using left_read(1) [of os' os n bytes D, OF ev p' len eof] left_same [of STDIN_FILENO os' os i] ev t d by simp
  moreover have "copy_mu D i s n (os', ?u) < copy_mu D i s n (os, u)" if "ru_interest (copy_rule3 K s) (os, u)"
    using left_read(2) [of os' os n bytes D, OF ev p' len eof _ assms(2)] left_same [of STDIN_FILENO os' os i] ev t d that by (simp add: copy_interest wants_in_def)
  moreover have "ru_interest r' (os', ?u)" if "r' \<in> copy_rule_set K i o' s" "r' \<noteq> copy_rule3 K s" "ru_interest r' (os, u)" for r'
    using that(1)
  proof (cases rule: copy_rule_cases)
    case 4
    then show ?thesis using that(3) read_into_ok(6,7) [OF r c] by (auto simp: copy_interest wants_out_def buffer_empty_def)
  next
    case 1
    have "\<not> bs_error s'" using ok(1) by (simp add: copying_def)
    with 1 show ?thesis using that(3) by (simp add: copy_interest wants_in_def)
  next
    case 2
    then show ?thesis using that(3) by (simp add: copy_interest)
  qed (use that(2) in simp)
  ultimately show ?thesis using cb by (auto simp: achieves_def simp del: copy_live.simps copy_mu.simps)
qed

lemma live_callback2:
  assumes "copy_live K D i o' s n (os, u)"
  shows "\<exists>w'. ru_callback (copy_rule2 K s) (os, u) = Inr w' \<and> achieves D i s n K o' (copy_rule2 K s) (os, u) w'"
proof -
  have inv: "copy_inv i o' s n (os, u)" and srv: "serves K D" and d: "i \<noteq> s" "n \<noteq> STDIN_FILENO" using assms(1) by auto
  have c: "copying (hung_up os) (got STDIN_FILENO (os_events os)) (given n (os_events os)) (sc_outbound u)" using inv by auto
  obtain os1 s' where r: "write_from K s os (sc_outbound u) = Inr (os1, s')" using serves_write [OF srv] by blast
  obtain os2 where sh: "socket_shutdown K os1 s SHUT_WR = Inr os2" using serves_end(1) [OF srv] by blast
  define os' where "os' = (if bs_eof s' then os2 else os1)"
  define u' where "u' = u\<lparr>sc_outbound := s', sc_outbound_shutdown := sc_outbound_shutdown u \<or> bs_eof s'\<rparr>"
  have cb: "ru_callback (copy_rule2 K s) (os, u) = Inr (os', u')" using r sh by (simp add: copy_rule2_def os'_def u'_def)
  note ok = copy_callback2 [OF inv cb]
  have st: "if bs_eof s' then os_events os' = os_events os1 @ [Ev_call ''shutdown'' (fd_num os1 s) SHUT_WR] \<and> touches s os1 os' \<and>
      write_count os' s = write_count os1 s + 1 else os' = os1"
    using shutdown_write_ok [OF sh] by (simp add: os'_def)
  from write_step(1) [OF r c st] obtain out where ev: "os_events os' = os_events os @ [Ev_write (fd_num os s) out] @ (if bs_eof s' then [Ev_call ''shutdown'' (fd_num os s) SHUT_WR] else [])"
    and len: "length (bs_byte_stream s') + length out = length (bs_byte_stream (sc_outbound u))" "bs_byte_stream (sc_outbound u) \<noteq> [] \<longrightarrow> out \<noteq> []" by blast
  have got: "got f (os_events os') = got f (os_events os)" for f using ev by simp
  have t: "fd_eof os' i = fd_eof os i" "fd_eof os' s = fd_eof os s" using touchesD(2) [OF ok(2)] d ok(6) by simp_all
  have live: "copy_live K D i o' s n (os', u')" using assms ok(1) got t by (auto simp del: copy_inv.simps)
  have mu: "copy_mu D i s n (os', u') \<le> copy_mu D i s n (os, u)"
    using left_write(1) [OF got t(1) len, of "sc_outbound_shutdown u"] left_same [OF got t(2)] by (simp add: u'_def)
  have less: "copy_mu D i s n (os', u') < copy_mu D i s n (os, u)" if "ru_interest (copy_rule2 K s) (os, u)"
  proof -
    have "bs_eof (sc_outbound u) \<Longrightarrow> bs_eof s'" using write_step(5) [OF r c st] .
    then have "bs_byte_stream (sc_outbound u) \<noteq> [] \<or> \<not> sc_outbound_shutdown u \<and> (sc_outbound_shutdown u \<or> bs_eof s')"
      using that by (auto simp: copy_interest wants_out_def buffer_empty_def)
    from left_write(2) [OF got t(1) len _ this] left_same [OF got t(2)] show ?thesis by (simp add: u'_def)
  qed
  have "ru_interest r' (os', u')" if "r' \<in> copy_rule_set K i o' s" "r' \<noteq> copy_rule2 K s" "ru_interest r' (os, u)" for r'
    using that(1)
  proof (cases rule: copy_rule_cases)
    case 1
    have "copying (hung_up os') (got STDIN_FILENO (os_events os')) (given n (os_events os')) s'" using ok(1) by (simp add: u'_def)
    then have "bs_inv s'" "bs_capacity s' = bs_capacity (sc_outbound u)" "bs_inv (sc_outbound u)" "\<not> bs_error s'" using c by (simp_all add: copying_def)
    then show ?thesis using 1 that(3) len(1) by (simp add: copy_interest wants_in_def u'_def remaining_capacity_eq)
  next
    case 3
    have "\<not> bs_error s'" using ok(1) by (simp add: copying_def u'_def)
    with 3 show ?thesis using that(3) by (simp add: copy_interest wants_in_def u'_def)
  next
    case 4
    then show ?thesis using that(3) by (simp add: copy_interest u'_def)
  qed (use that(2) in simp)
  then show ?thesis using cb live mu less by (auto simp: achieves_def simp del: copy_live.simps copy_mu.simps)
qed

lemma live_callback4:
  assumes "copy_live K D i o' s n (os, u)" and "\<not> fd_closed os o'"
  shows "\<exists>w'. ru_callback (copy_rule4 K o') (os, u) = Inr w' \<and> achieves D i s n K o' (copy_rule4 K o') (os, u) w'"
proof -
  have inv: "copy_inv i o' s n (os, u)" and srv: "serves K D" and d: "i \<noteq> o'" "o' \<noteq> s" using assms(1) by auto
  have c: "copying (hung_up os) (got n (os_events os)) (given STDOUT_FILENO (os_events os)) (sc_inbound u)" using inv by auto
  obtain os1 s' where r: "write_from K o' os (sc_inbound u) = Inr (os1, s')" using serves_write [OF srv] by blast
  obtain os2 where sh: "fd_close K os1 o' = Inr os2" using serves_end(2) [OF srv] by blast
  define os' where "os' = (if bs_eof s' then os2 else os1)"
  define u' where "u' = u\<lparr>sc_inbound := s', sc_inbound_shutdown := sc_inbound_shutdown u \<or> bs_eof s'\<rparr>"
  have cb: "ru_callback (copy_rule4 K o') (os, u) = Inr (os', u')" using r sh by (simp add: copy_rule4_def os'_def u'_def)
  note ok = copy_callback4 [OF inv assms(2) cb]
  have st: "if bs_eof s' then os_events os' = os_events os1 @ [Ev_call ''close'' (fd_num os1 o') 0] \<and> touches o' os1 os' \<and>
      write_count os' o' = write_count os1 o' + 0 else os' = os1"
    using fd_close_ok [OF sh] by (simp add: os'_def)
  from write_step(1) [OF r c st] obtain out where ev: "os_events os' = os_events os @ [Ev_write (fd_num os o') out] @ (if bs_eof s' then [Ev_call ''close'' (fd_num os o') 0] else [])"
    and len: "length (bs_byte_stream s') + length out = length (bs_byte_stream (sc_inbound u))" "bs_byte_stream (sc_inbound u) \<noteq> [] \<longrightarrow> out \<noteq> []" by blast
  have got: "got f (os_events os') = got f (os_events os)" for f using ev by simp
  have t: "fd_eof os' i = fd_eof os i" "fd_eof os' s = fd_eof os s" using touchesD(2) [OF ok(2)] d by simp_all
  have live: "copy_live K D i o' s n (os', u')" using assms(1) ok(1) got t by (auto simp del: copy_inv.simps)
  have mu: "copy_mu D i s n (os', u') \<le> copy_mu D i s n (os, u)"
    using left_write(1) [OF got t(2) len, of "sc_inbound_shutdown u"] left_same [OF got t(1)] by (simp add: u'_def)
  have less: "copy_mu D i s n (os', u') < copy_mu D i s n (os, u)" if "ru_interest (copy_rule4 K o') (os, u)"
  proof -
    have "bs_eof (sc_inbound u) \<Longrightarrow> bs_eof s'" using write_step(5) [OF r c st] .
    then have "bs_byte_stream (sc_inbound u) \<noteq> [] \<or> \<not> sc_inbound_shutdown u \<and> (sc_inbound_shutdown u \<or> bs_eof s')"
      using that by (auto simp: copy_interest wants_out_def buffer_empty_def)
    from left_write(2) [OF got t(2) len _ this] left_same [OF got t(1)] show ?thesis by (simp add: u'_def)
  qed
  have "ru_interest r' (os', u')" if "r' \<in> copy_rule_set K i o' s" "r' \<noteq> copy_rule4 K o'" "ru_interest r' (os, u)" for r'
    using that(1)
  proof (cases rule: copy_rule_cases)
    case 3
    have "copying (hung_up os') (got n (os_events os')) (given STDOUT_FILENO (os_events os')) s'" using ok(1) by (simp add: u'_def)
    then have "bs_inv s'" "bs_capacity s' = bs_capacity (sc_inbound u)" "bs_inv (sc_inbound u)" "\<not> bs_error s'" using c by (simp_all add: copying_def)
    then show ?thesis using 3 that(3) len(1) by (simp add: copy_interest wants_in_def u'_def remaining_capacity_eq)
  next
    case 1
    have "\<not> bs_error s'" using ok(1) by (simp add: copying_def u'_def)
    with 1 show ?thesis using that(3) by (simp add: copy_interest wants_in_def u'_def)
  next
    case 2
    then show ?thesis using that(3) by (simp add: copy_interest u'_def)
  qed (use that(2) in simp)
  then show ?thesis using cb live mu less by (auto simp: achieves_def simp del: copy_live.simps copy_mu.simps)
qed

lemma live_callback:
  assumes "copy_live K D i o' s n (os, u)" and "r \<in> copy_rule_set K i o' s" and "\<not> over r os"
  shows "\<exists>w'. ru_callback r (os, u) = Inr w' \<and> achieves D i s n K o' r (os, u) w'"
  using assms(2)
proof (cases rule: copy_rule_cases)
  case 1
  then show ?thesis using live_callback1 [OF assms(1)] assms(3) by (simp add: over_def)
next
  case 2
  then show ?thesis using live_callback2 [OF assms(1)] by simp
next
  case 3
  then show ?thesis using live_callback3 [OF assms(1)] assms(3) by (simp add: over_def)
next
  case 4
  then show ?thesis using live_callback4 [OF assms(1)] assms(3) by (simp add: over_def)
qed

lemma live_cancel:
  assumes "copy_live K D i o' s n (os, u)" and "r \<in> copy_rule_set K i o' s" and "over r os \<or> hung_up os"
  shows "\<exists>u'. ru_cancel r (os, u) = Inr (os, u') \<and> copy_live K D i o' s n (os, u') \<and> copy_mu D i s n (os, u') = copy_mu D i s n (os, u)"
proof -
  have inv: "copy_inv i o' s n (os, u)" using assms(1) by simp
  from copy_cancel [OF inv assms(2,3)] obtain u' where u': "ru_cancel r (os, u) = Inr (os, u')" "copy_inv i o' s n (os, u')" by blast
  then have "u' = u\<lparr>sc_outbound := end_input (sc_outbound u)\<rparr> \<or> u' = u\<lparr>sc_inbound := end_input (sc_inbound u)\<rparr>"
    using assms(2) by (auto elim!: copy_rule_cases simp: copy_cancel_eq)
  then have "copy_mu D i s n (os, u') = copy_mu D i s n (os, u)" by (auto simp: left_to_do_def)
  moreover have "copy_live K D i o' s n (os, u')" using assms(1) u'(2) by (auto simp del: copy_inv.simps)
  ultimately show ?thesis using u'(1) by blast
qed

lemma copy_live_inv: "copy_live K D i o' s n w \<Longrightarrow> copy_inv i o' s n w"
  by (cases w) simp

lemma copy_live_log:
  assumes "copy_live K D i o' s n (os, u)" and "\<And>f. got f [ev] = []" and "\<And>f. given f [ev] = []"
  shows "copy_live K D i o' s n (log_event os ev, u)"
proof -
  have "copy_inv i o' s n (log_event os ev, u)"
    by (rule copy_inv_log [OF copy_live_inv [OF assms(1)] assms(2,2,3,3)])
  then show ?thesis using assms(1,2) by (simp add: fd_eof_def del: copy_inv.simps)
qed

interpretation sp: rules_progress "copy_rule_set K i o' s" "copy_before i s" "copy_live K D i o' s n" "copy_gone i o' s" "copy_mu D i s n"
  for K :: "'addr kernel" and D i o' s n
proof (unfold_locales, goal_cases)
  case (1 r w e)
  then show ?case using live_callback [of K D i o' s n "fst w" "snd w" r] by auto
next
  case (2 r w w')
  then show ?case using live_callback [of K D i o' s n "fst w" "snd w" r] by (auto simp: achieves_def)
next
  case (3 r w w')
  from sc.callback_serves [OF 3(1) copy_live_inv [OF 3(2)] 3(3,4)] show ?case .
next
  case (4 r s' w w')
  from sc.callback_gone [OF 4(1,2) copy_live_inv [OF 4(3)] 4(4,5,6)] show ?case .
next
  case (5 r s' w w')
  from sc.callback_live [OF 5(1-3) copy_live_inv [OF 5(4)] 5(5-7)] show ?case .
next
  case (6 r s' w w')
  from sc.cancel_live [OF 6(1,2) copy_live_inv [OF 6(3)] 6(4-6)] show ?case .
next
  case (7 r)
  show ?case by (rule sc.before_irrefl)
next
  case (8 r w e)
  then show ?case using live_cancel [of K D i o' s n "fst w" "snd w" r] by auto
next
  case (9 r w w')
  then show ?case using live_cancel [of K D i o' s n "fst w" "snd w" r] by auto
next
  case (10 r w w')
  from sc.cancel_gone [OF 10(1) copy_live_inv [OF 10(2)] 10(3,4)] show ?case .
next
  case (11 r s' w w')
  from sc.cancel_keeps_gone [OF 11(1,2) copy_live_inv [OF 11(3)] 11(4-6)] show ?case .
next
  case (12 r s' w w')
  from sc.cancel_quiet [OF 12(1-3) copy_live_inv [OF 12(4)] 12(5,6)] show ?case .
next
  case (13 r w w')
  from sc.cancel_log [OF 13(1) copy_live_inv [OF 13(2)] 13(3,4)] show ?case .
next
  case (14 r w w')
  from sc.callback_log [OF 14(1) copy_live_inv [OF 14(2)] 14(3,4)] show ?case .
next
  case (15 os u rs)
  then show ?case by (intro copy_live_log) simp_all
next
  case (16 os u name e)
  then show ?case by (intro copy_live_log) simp_all
next
  case (17 r os u rs)
  from 17(2) show ?case by (rule copy_gone_log)
next
  case (18 r os u name e)
  from 18(2) show ?case by (rule copy_gone_log)
next
  case (19 r w w')
  then show ?case using live_callback [of K D i o' s n "fst w" "snd w" r] by (auto simp: achieves_def)
next
  case (20 r w w')
  then show ?case using live_callback [of K D i o' s n "fst w" "snd w" r] by (auto simp: achieves_def)
next
  case (21 r s' w w')
  then show ?case using live_callback [of K D i o' s n "fst w" "snd w" r] by (auto simp: achieves_def)
next
  case (22 r w w')
  then show ?case using live_cancel [of K D i o' s n "fst w" "snd w" r] by auto
next
  case (23 os rs u)
  show ?case by (simp add: left_to_do_def fd_eof_def)
next
  case (24 r os rs u)
  then show ?case by (auto elim!: copy_rule_cases simp: copy_interest)
qed

lemma serves_blocking:
  assumes "serves K D"
  shows "set_blocking K os h b \<noteq> Inl e"
proof -
  have "fd_call K os attempt name h a \<noteq> Inl e" for os attempt name a e
    using serves_call [OF assms, of os attempt name h a] by auto
  then show ?thesis by (auto simp: set_blocking_def Let_def bind_res_def split: sum.splits)
qed

abbreviation live_ok ::
  "'addr kernel \<Rightarrow> (int \<Rightarrow> byte list) \<Rightarrow> nat \<Rightarrow> nat \<Rightarrow> nat \<Rightarrow> int \<Rightarrow> stream_copy rule list \<Rightarrow> stream_copy world \<Rightarrow> bool" where
  "live_ok K D i o' s n \<equiv> rules_contract.loop_ok (copy_rule_set K i o' s) (copy_before i s) (copy_live K D i o' s n) (copy_gone i o' s)"

lemma live_ok_eq: "live_ok K D i o' s n rules w \<longleftrightarrow> copy_ok K i o' s n rules w \<and> copy_live K D i o' s n w"
  using copy_live_inv [of K D i o' s n w] unfolding sc.loop_ok_def sp.loop_ok_def by blast

lemma copy_loop_total:
  assumes "live_ok K D i o' s n rules w" and "responsive K" and "\<not> hung_up (fst w)"
  shows "\<exists>os' u'. copy_loop K rules w = Some (Inr (os', u')) \<and> copy_complete i o' s n os' \<and> copy_live K D i o' s n (os', u')"
  using assms
proof (induction "copy_mu D i s n w" arbitrary: rules w rule: less_induct)
  case less
  obtain res rules' w' where w: "wait_next_event K (-1) rules w = Inr (res, rules', w')" and ok: "live_ok K D i o' s n rules' w'"
    and h: "\<not> hung_up (fst w')" and r: "if res = Exit then \<forall>r \<in> set rules'. \<not> ru_interest r w' else copy_mu D i s n w' < copy_mu D i s n w"
    using sp.wait_next_event_progress [OF less.prems] by blast
  show ?case
  proof (cases "res = Exit")
    case True
    obtain os' u' where w': "w' = (os', u')" by (cases w')
    have "copy_complete i o' s n os'"
      using copy_exit [of K i o' s n rules' os' u'] ok r True h unfolding w' live_ok_eq by simp
    moreover have "copy_live K D i o' s n (os', u')" using ok unfolding w' live_ok_eq by blast
    moreover have "copy_loop K rules w = Some (Inr (os', u'))" using w True w' by (simp add: copy_loop.simps [of K rules w])
    ultimately show ?thesis by blast
  next
    case False
    then have "copy_loop K rules w = copy_loop K rules' w'" using w by (simp add: copy_loop.simps [of K rules w])
    with less.hyps [OF _ ok less.prems(2) h] r False show ?thesis by simp
  qed
qed

lemma stream_copy_total:
  assumes "fresh_socket os s n" and "serves K D"
  shows "\<exists>os' u. bidirectional_stream_copy K os s = Some (Inr (os', u)) \<and>
    given n (os_events os') = D STDIN_FILENO \<and> given STDOUT_FILENO (os_events os') = D n \<and>
    copy_complete (os_next os) (Suc (os_next os)) s n os'"
proof -
  let ?i = "os_next os" and ?o = "Suc (os_next os)"
  have "\<And>e. stream_copy_start K os s \<noteq> Inl e"
    using serves_blocking [OF assms(2)]
    by (auto simp: stream_copy_start_def FileDescriptor_def FDWrapper0_def STDIN_FILENO_def STDOUT_FILENO_def Let_def bind_res_def split: sum.splits)
  with start_ok [OF assms(1), of K] obtain w where w: "stream_copy_start K os s = Inr (copy_rules K ?i ?o s, w)"
    "copy_ok K ?i ?o s n (copy_rules K ?i ?o s) w" "got STDIN_FILENO (os_events (fst w)) = []" "got n (os_events (fst w)) = []"
    "\<not> hung_up (fst w)" "\<not> fd_eof (fst w) ?i" "\<not> fd_eof (fst w) s" by blast
  have "copy_inv ?i ?o s n w" using w(2) by (simp add: sc.loop_ok_def)
  with w(3-7) assms(2) have "copy_live K D ?i ?o s n w" by (cases w) (simp del: copy_inv.simps)
  with w(2) have "live_ok K D ?i ?o s n (copy_rules K ?i ?o s) w" unfolding live_ok_eq by blast
  from copy_loop_total [OF this _ w(5)] assms(2) obtain os' u' where
    l: "copy_loop K (copy_rules K ?i ?o s) w = Some (Inr (os', u'))" "copy_complete ?i ?o s n os'" "copy_live K D ?i ?o s n (os', u')"
    unfolding serves_def by blast
  then have "given n (os_events os') = D STDIN_FILENO" "given STDOUT_FILENO (os_events os') = D n"
    by (auto simp: copy_complete_def)
  then show ?thesis using w(1) l(1,2) by (auto simp: bidirectional_stream_copy_def)
qed


text \<open>An operating system that reports every requested event, reads as much as it can and writes one byte at a time.\<close>

definition sample_kernel :: "(int \<Rightarrow> byte list) \<Rightarrow> unit kernel" where
  "sample_kernel D =
     \<lparr>k_read = (\<lambda>es fd limit. Inr (take limit (drop (length (got fd es)) (D fd)))),
      k_writev = (\<lambda>es fd v. Inr (if v = [] then 0 else 1)),
      k_poll = (\<lambda>es ps t. Inr (1, \<lambda>i. pfd_events (ps ! i))),
      k_recvfrom = (\<lambda>es fd mtu. Inl 11), k_sendmsg = (\<lambda>es fd a v. Inl 11),
      k_call = (\<lambda>es name fd a. Inr 0)\<rparr>"

definition sample_os :: os where
  "sample_os = \<lparr>os_events = [], os_fds = (\<lambda>_. \<lparr>fdw_fd = 3, fdw_eof = False, fdw_closed = False, fdw_read_count = 0, fdw_write_count = 0\<rparr>),
     os_next = 1\<rparr>"

definition sample_input :: "int \<Rightarrow> byte list" where
  "sample_input fd = (if fd = STDIN_FILENO then [1, 2, 3] else [4, 5])"

lemma sample_serves: "serves (sample_kernel D) D"
proof -
  have "\<exists>i < length ps. pfd_events (ps ! i) AND pfd_events (ps ! i) \<noteq> 0" if "\<exists>p \<in> set ps. pfd_events p \<noteq> 0" for ps
    using that by (auto simp: in_set_conv_nth)
  moreover have "e AND (POLLERR OR POLLNVAL) = 0 \<and> e AND POLLHUP = 0" if "e \<in> {0, POLLIN, POLLOUT}" for e
    using that by (auto simp: POLLIN_def POLLOUT_def POLLERR_def POLLNVAL_def POLLHUP_def)
  ultimately have "responsive (sample_kernel D)" unfolding responsive_def sample_kernel_def by simp blast
  moreover have "Suc 0 \<le> length v" if "v \<noteq> []" for v :: "byte list" using that by (cases v) simp_all
  ultimately show ?thesis unfolding serves_def by (auto simp: sample_kernel_def)
qed

lemma sample_fresh: "fresh_socket sample_os 0 3"
  by (simp add: fresh_socket_def sample_os_def fd_num_def fd_eof_def fd_closed_def STDIN_FILENO_def STDOUT_FILENO_def)

section \<open>Properties\<close>



text \<open>
  C10. The copy terminates: with an operating system that serves it, for finite inputs \<open>D\<close> of any contents and any
  sizes of the single reads and writes, the program returns, and then the socket has got exactly the standard
  input and the standard output exactly what the socket delivered.
\<close>

theorem stream_copy_terminates:
  assumes "fresh_socket os s n" and "serves K D"
  shows "\<exists>os' u. bidirectional_stream_copy K os s = Some (Inr (os', u)) \<and>
    given n (os_events os') = D STDIN_FILENO \<and> given STDOUT_FILENO (os_events os') = D n \<and>
    Ev_call ''shutdown'' n SHUT_WR \<in> set (os_events os') \<and> fd_closed os' (Suc (os_next os))"
  using stream_copy_total [OF assms] by (auto simp: copy_complete_def)

theorem stream_copy_terminates_witness:
  "\<exists>os' u. bidirectional_stream_copy (sample_kernel sample_input) sample_os 0 = Some (Inr (os', u)) \<and>
    given 3 (os_events os') = [1, 2, 3] \<and> given STDOUT_FILENO (os_events os') = [4, 5]"
  using stream_copy_terminates [OF sample_fresh sample_serves, of sample_input]
  by (auto simp: sample_input_def STDIN_FILENO_def)

end
