(* ===== verification/Spec2Isabelle.thy ===== *)
theory Spec2Isabelle
  imports TCP_Network Adapters Network_Run Copy_Progress
begin

text \<open>
  A verification of \<^verbatim>\<open>sponge\<close>, the TCP/IP stack of this repository (\<^verbatim>\<open>src/libsponge\<close>), and of two of its programs
  (\<^verbatim>\<open>src/apps\<close>).

  \<^bold>\<open>The program.\<close> A \<^verbatim>\<open>TCPConnection\<close> joins a \<^verbatim>\<open>TCPSender\<close>, which cuts an outbound \<^verbatim>\<open>ByteStream\<close> into segments and
  retransmits them, and a \<^verbatim>\<open>TCPReceiver\<close>, which puts inbound segments together with a \<^verbatim>\<open>StreamReassembler\<close>; both
  count with the 32-bit sequence numbers of \<^verbatim>\<open>WrappingInt32\<close>. Adapters wrap segments into UDP or IPv4
  datagrams, and a \<^verbatim>\<open>NetworkInterface\<close> wraps datagrams into Ethernet frames and resolves addresses with ARP. A
  \<^verbatim>\<open>Router\<close> forwards datagrams between such interfaces. All formats are read and written through \<^verbatim>\<open>NetParser\<close>,
  \<^verbatim>\<open>NetUnparser\<close>, \<^verbatim>\<open>Buffer\<close> and \<^verbatim>\<open>InternetChecksum\<close>. \<^verbatim>\<open>network_simulator\<close> tests a router with six hosts, and
  \<^verbatim>\<open>bidirectional_stream_copy\<close> joins the standard input and output to a socket with an \<^verbatim>\<open>EventLoop\<close>.

  \<^bold>\<open>How the code is modelled.\<close> A class is a record of its members and a method a function on the record, which returns
  the new record, with the result if there is one. A method that may throw returns a \<^typ>\<open>'a res\<close>, with the exception
  on the left. Header fields are words of their width; \<^verbatim>\<open>size_t\<close> and \<^verbatim>\<open>uint64_t\<close> are natural numbers with the
  wrap-around of every operation written out. Queues are lists with the front first, a \<^verbatim>\<open>std::map\<close> is an
  association list in key order and a \<^verbatim>\<open>std::set\<close> the ordered list of its elements. What is not part of the
  repository is a parameter: the resolver behind \<^verbatim>\<open>getaddrinfo\<close>, the random numbers, and the operating system,
  a function from the system calls so far to the next answer.

  \<^bold>\<open>The theories.\<close>

  \<^item> \<open>Sponge_Prelude\<close> has the machine types, the exceptions and the lists, with the locale \<open>fifo_channel\<close>;
    \<open>Wire_Format\<close> the locale \<open>wire_format\<close> of an encoding with its decoding.
  \<^item> \<open>Byte_Stream\<close> (\<^verbatim>\<open>byte_stream.cc\<close>): a first-in first-out channel of bounded capacity.
  \<^item> \<open>Wrapping_Integers\<close> (\<^verbatim>\<open>wrapping_integers.cc\<close>): \<open>wrap\<close> and \<open>unwrap\<close> invert each other near the checkpoint, and
    \<open>unwrap\<close> gives the closest number.
  \<^item> \<open>Stream_Reassembler\<close> (\<^verbatim>\<open>stream_reassembler.cc\<close>): for any order and overlap of the substrings the output is a
    prefix of the stream, exactly the bytes within the window become known, and the next byte makes progress.
  \<^item> \<open>Buffers\<close> (\<^verbatim>\<open>util/buffer.cc\<close>), \<open>Net_Parser\<close> (\<^verbatim>\<open>util/parser.cc\<close>), \<open>Internet_Checksum\<close> and \<open>Formatting\<close> (\<^verbatim>\<open>util/util.cc\<close>,
    text output), \<open>Addresses\<close> (\<^verbatim>\<open>util/address.cc\<close>): three views of a byte string with one contract, big-endian
    integers, the checksum as arithmetic modulo 65535, and addresses with their conversions.
  \<^item> \<open>TCP_Segment\<close>, \<open>IPv4_Datagram\<close>, \<open>Ethernet_ARP\<close> (\<^verbatim>\<open>tcp_helpers\<close>): the formats as interpretations of \<open>wire_format\<close>,
    parsing that never throws, and the errors that parsing overlooks. \<open>Printing\<close>: the printed headers
    determine the headers, and \<^verbatim>\<open>hexdump\<close>.
  \<^item> \<open>TCP_Receiver\<close>, \<open>TCP_Sender\<close>, \<open>TCP_State\<close>, \<open>TCP_Connection\<close> (\<^verbatim>\<open>tcp_receiver.cc\<close>, \<^verbatim>\<open>tcp_sender.cc\<close>,
    \<^verbatim>\<open>tcp_helpers/tcp_state.cc\<close>, \<^verbatim>\<open>tcp_connection.cc\<close>): the receiver delivers a prefix of the peer's stream and makes progress, every
    queued segment carries the right part of the stream, acknowledgments remove exactly what they cover, the
    window is respected and used, the oldest segment is retransmitted and the timeout doubles.
    \<open>TCP_Network\<close> composes two connections with a network that loses, duplicates, delays and reorders segments:
    each application reads a prefix of what the other wrote.
  \<^item> \<open>Network_Interface\<close>, \<open>Router\<close>, \<open>Adapters\<close> (\<^verbatim>\<open>network_interface.cc\<close>, \<^verbatim>\<open>router.cc\<close>, \<^verbatim>\<open>fd_adapter.cc\<close>, \<^verbatim>\<open>tcp_over_ip.cc\<close>,
    \<^verbatim>\<open>tuntap_adapter.cc\<close>): the ARP cache and the pauses between requests, longest prefix match and forwarding, and
    segments that pass through the adapters and an address resolution unchanged.
  \<^item> \<open>Network_Simulator\<close> (\<^verbatim>\<open>apps/network_simulator.cc\<close>) defines the simulated network, \<open>Network_Link\<close> and
    \<open>Network_Delivery\<close> follow a datagram over one link and through the router, and \<open>Network_Run\<close> shows that the whole
    program succeeds.
  \<^item> \<open>File_Descriptor\<close>, \<open>Event_Loop\<close> (\<^verbatim>\<open>util/file_descriptor.cc\<close>, \<^verbatim>\<open>util/socket.cc\<close>, \<^verbatim>\<open>util/eventloop.cc\<close>): the wrappers of the
    system calls, and \<^verbatim>\<open>wait_next_event\<close> with the contract of the rules it serves (\<open>rules_contract\<close>,
    \<open>rules_progress\<close>). \<open>Stream_Copy\<close> and \<open>Copy_Progress\<close> (\<^verbatim>\<open>apps/bidirectional_stream_copy.cc\<close>) show that its four
    rules keep that contract, so that the copy is correct for every operating system and ends for one that
    serves it.

  \<^bold>\<open>Loops and bounds.\<close> The loops of the sources are recursions. Those that are not structural have a measure: the bytes,
  the SYN and the FIN that are left for \<^verbatim>\<open>fill_window\<close>, and the bytes that are left for \<^verbatim>\<open>FileDescriptor::write\<close>. The
  256 rounds of \<^verbatim>\<open>simulate\<close> are those of the code; a datagram needs at most three exchanges on each link. The
  loop of the stream copy, which need not end, is a partial function with the value \<open>None\<close> when it does
  not. The theorems on streams assume, where they say so, that the lengths stay below \<open>2 ^ 64\<close> (\<open>2 ^ 62\<close> for
  what an application writes to a connection) and that a capacity is below \<open>2 ^ 63\<close>. Segments in the network
  are within \<open>2 ^ 31\<close> of the position of the receiver, since 32-bit sequence numbers repeat.

  \<^bold>\<open>Not modelled.\<close> \<^verbatim>\<open>TCPSpongeSocket\<close> runs a connection in a second thread and joins the parts that are modelled with
  threads, atomic flags and blocking calls. \<^verbatim>\<open>TunFD\<close>, \<^verbatim>\<open>TapFD\<close> and most of \<^verbatim>\<open>Socket\<close> only pass arguments to a system
  call. \<^verbatim>\<open>timestamp_ms\<close> and \<^verbatim>\<open>get_random_generator\<close> read the clock and the entropy of the system; the models take
  times and random numbers as arguments. The other programs of \<^verbatim>\<open>apps\<close> parse arguments, print and call the
  library. Debugging output on \<^verbatim>\<open>cerr\<close> is left out, but not what it evaluates. The closing of descriptors by
  their destructors at the end of the stream copy is left out.
\<close>

end
